(* ===== verification/Prelude.thy ===== *)
theory Prelude
  imports Main "HOL-Library.Word" "HOL-Library.Multiset"
begin

text \<open>
  Shared ground of the development: the outcome type of C code that may fault or not
  return, the C integer conversions the sources rely on, the generic pointer loop
  \<open>while (n != NULL && !P(n)) n = n->next\<close> and the abstraction of a pointer chain to the
  list of its addresses. Nothing in this theory is specific to one source file.
\<close>

named_theorems ret_simps \<open>evaluation of the outcome type\<close>
named_theorems mem_simps \<open>reads over writes in byte memories\<close>
named_theorems cint_simps \<open>evaluation of C integer conversions\<close>

section \<open>Outcomes\<close>

text \<open>
  A call of a C function returns a value (\<open>Inr\<close>), stops the program with a fault
  (\<open>Inl\<close>), or never returns (\<open>None\<close>). A fault is a dereference of \<open>NULL\<close>, an access
  outside a local array, an explicit \<open>exit\<close> or \<open>abort\<close>, an access to a protected page, or a
  \<open>printf\<close> whose format does not fit its arguments. \<open>None\<close> is the bottom element of \<^theory_text>\<open>partial_function (option)\<close>.
\<close>

datatype fault = NullDeref | OutOfBounds | ExitCall int | Abort | SegFault | BadFormat

type_synonym 'a ret = "(fault + 'a) option"

abbreviation retn :: "'a \<Rightarrow> 'a ret" where
  "retn x \<equiv> Some (Inr x)"

abbreviation fail :: "fault \<Rightarrow> 'a ret" where
  "fail e \<equiv> Some (Inl e)"

abbreviation diverges :: "'a ret \<Rightarrow> bool" where
  "diverges r \<equiv> r = None"

definition bindR :: "'a ret \<Rightarrow> ('a \<Rightarrow> 'b ret) \<Rightarrow> 'b ret" where
  "bindR r f = (case r of None \<Rightarrow> None | Some (Inl e) \<Rightarrow> Some (Inl e) | Some (Inr x) \<Rightarrow> f x)"

lemma bindR_retn [simp, ret_simps]: "bindR (retn x) f = f x"
  by (simp add: bindR_def)

lemma bindR_fail [simp, ret_simps]: "bindR (fail e) f = fail e"
  by (simp add: bindR_def)

lemma bindR_None [simp, ret_simps]: "bindR None f = None"
  by (simp add: bindR_def)

lemma bindR_assoc: "bindR (bindR r f) g = bindR r (\<lambda>x. bindR (f x) g)"
  by (simp add: bindR_def split: option.split sum.split)

lemma bindR_eq_retn:
  "bindR r f = retn y \<longleftrightarrow> (\<exists>x. r = retn x \<and> f x = retn y)"
  by (simp add: bindR_def split: option.split sum.split)

lemma bindR_cong [fundef_cong]:
  "r = r' \<Longrightarrow> (\<And>x. r' = retn x \<Longrightarrow> f x = g x) \<Longrightarrow> bindR r f = bindR r' g"
  by (simp add: bindR_def split: option.split sum.split)

lemma bindR_bind:
  "bindR r f = Option.bind r (\<lambda>s. case s of Inl e \<Rightarrow> Some (Inl e) | Inr x \<Rightarrow> f x)"
  by (simp add: bindR_def split: option.split sum.split)

lemma bindR_mono [partial_function_mono]:
  assumes B: "mono_option B" and C: "\<And>y. mono_option (\<lambda>f. C y f)"
  shows "mono_option (\<lambda>f. bindR (B f) (\<lambda>y. C y f))"
  unfolding bindR_bind
proof (rule bind_mono [OF B])
  fix s :: "fault + 'c"
  show "mono_option (\<lambda>f. case s of Inl e \<Rightarrow> Some (Inl e) | Inr x \<Rightarrow> C x f)"
  proof (cases s)
    case (Inl e)
    then show ?thesis by (simp add: option.const_mono)
  next
    case (Inr x)
    then show ?thesis using C by simp
  qed
qed

section \<open>C integers\<close>

text \<open>
  Pointers and \<open>size_t\<close> are 64 bits wide, \<open>unsigned\<close> and \<open>int\<close> are 32, \<open>char\<close> is a
  signed byte. Stored integers are naturals below the power of their width; \<open>s32\<close> and
  \<open>s8\<close> read them as two's complement, \<open>u32\<close> and \<open>u64\<close> convert a signed value.
\<close>

definition s32 :: "nat \<Rightarrow> int" where
  "s32 v = (let w = int (v mod 2 ^ 32) in if w < 2 ^ 31 then w else w - 2 ^ 32)"

definition s8 :: "nat \<Rightarrow> int" where
  "s8 v = (let w = int (v mod 2 ^ 8) in if w < 2 ^ 7 then w else w - 2 ^ 8)"

definition u32 :: "int \<Rightarrow> nat" where
  "u32 i = nat (i mod 2 ^ 32)"

definition u64 :: "int \<Rightarrow> nat" where
  "u64 i = nat (i mod 2 ^ 64)"

text \<open>Subtraction of two \<open>size_t\<close> values wraps.\<close>

definition sub64 :: "nat \<Rightarrow> nat \<Rightarrow> nat" where
  "sub64 a b = (a + 2 ^ 64 - b mod 2 ^ 64) mod 2 ^ 64"

lemma sub64_le [cint_simps]:
  assumes "b \<le> a" "a < 2 ^ 64"
  shows "sub64 a b = a - b"
proof -
  have b: "b mod 2 ^ 64 = b" using assms by simp
  have "a + 2 ^ 64 - b = (a - b) + 2 ^ 64" using assms by simp
  then have "sub64 a b = ((a - b) + 2 ^ 64) mod 2 ^ 64" by (simp only: sub64_def b)
  also have "\<dots> = (a - b) mod 2 ^ 64" by (rule mod_add_self2)
  also have "\<dots> = a - b" using assms by (intro mod_less) linarith
  finally show ?thesis .
qed

lemma s32_small [cint_simps]: "v < 2 ^ 31 \<Longrightarrow> s32 v = int v"
  by (simp add: s32_def Let_def)

lemma s32_small_eq [cint_simps]: "v < 2 ^ 31 \<Longrightarrow> k < 2 ^ 31 \<Longrightarrow> s32 v = int k \<longleftrightarrow> v = k"
  by (simp add: s32_small)

lemma s32_inject: "v < 2 ^ 32 \<Longrightarrow> w < 2 ^ 32 \<Longrightarrow> s32 v = s32 w \<longleftrightarrow> v = w"
  by (auto simp: s32_def Let_def split: if_splits)

lemma u32_int [cint_simps]: "v < 2 ^ 32 \<Longrightarrow> u32 (int v) = v"
  by (simp add: u32_def)

lemma u64_int [cint_simps]: "v < 2 ^ 64 \<Longrightarrow> u64 (int v) = v"
  by (simp add: u64_def)

lemma u32_less: "u32 i < 2 ^ 32"
  by (simp add: u32_def nat_less_iff)

lemma s32_u32 [cint_simps]:
  assumes "- (2 ^ 31) \<le> i" "i < 2 ^ 31"
  shows "s32 (u32 i) = i"
proof (cases "0 \<le> i")
  case True
  then have "i mod 2 ^ 32 = i" using assms by simp
  with True assms show ?thesis by (simp add: s32_def u32_def Let_def)
next
  case False
  have "i mod 2 ^ 32 = (i + 2 ^ 32) mod 2 ^ 32" by (rule mod_add_self2 [symmetric])
  also have "\<dots> = i + 2 ^ 32" using False assms by (intro mod_pos_pos_trivial) simp_all
  finally have "u32 i = nat (i + 2 ^ 32)" by (simp add: u32_def)
  with False assms show ?thesis by (simp add: s32_def Let_def)
qed

lemma s8_small [cint_simps]: "v < 2 ^ 7 \<Longrightarrow> s8 v = int v"
  by (simp add: s8_def Let_def)

section \<open>Pointer chains\<close>

text \<open>
  \<open>chain nx p ns\<close>: following the \<open>next\<close> pointers \<open>nx\<close> from \<open>p\<close> visits exactly the
  addresses \<open>ns\<close> and then \<open>NULL\<close>.
\<close>

primrec chain :: "(nat \<Rightarrow> nat) \<Rightarrow> nat \<Rightarrow> nat list \<Rightarrow> bool" where
  "chain nx p [] \<longleftrightarrow> p = 0"
| "chain nx p (a # as) \<longleftrightarrow> p = a \<and> a \<noteq> 0 \<and> chain nx (nx a) as"

lemma chain_0 [simp]: "chain nx 0 ns \<longleftrightarrow> ns = []"
  by (cases ns) auto

lemma chain_nonzero: "chain nx p ns \<Longrightarrow> 0 \<notin> set ns"
  by (induction ns arbitrary: p) auto

lemma chain_cong:
  assumes "\<And>a. a \<in> set ns \<Longrightarrow> nx a = ny a"
  shows "chain nx p ns \<longleftrightarrow> chain ny p ns"
  using assms by (induction ns arbitrary: p) auto

lemma chain_unique: "chain nx p ns \<Longrightarrow> chain nx p ns' \<Longrightarrow> ns = ns'"
proof (induction ns arbitrary: p ns')
  case Nil
  then show ?case by simp
next
  case (Cons a as)
  then show ?case by (cases ns') auto
qed

lemma chain_suffix: "chain nx p (as @ b # bs) \<Longrightarrow> chain nx b (b # bs)"
  by (induction as arbitrary: p) auto

lemma chain_nx_last: "chain nx p ns \<Longrightarrow> ns \<noteq> [] \<Longrightarrow> nx (last ns) = 0"
  by (induction ns arbitrary: p) auto

lemma chain_hd: "chain nx p ns \<Longrightarrow> ns \<noteq> [] \<Longrightarrow> p = hd ns"
  by (cases ns) auto

lemma chain_nth:
  "chain nx p ns \<Longrightarrow> i < length ns \<Longrightarrow> nx (ns ! i) = (if Suc i < length ns then ns ! Suc i else 0)"
proof (induction ns arbitrary: p i)
  case Nil
  then show ?case by simp
next
  case (Cons a as)
  then show ?case
    by (cases i; cases as) auto
qed

lemma chain_distinct: "chain nx p ns \<Longrightarrow> distinct ns"
proof (induction ns arbitrary: p)
  case Nil
  then show ?case by simp
next
  case (Cons a as)
  have "a \<notin> set as"
  proof
    assume "a \<in> set as"
    then obtain us vs where as: "as = us @ a # vs" by (meson split_list)
    have "chain nx a (a # vs)" using Cons.prems chain_suffix [of nx "nx a" us a vs] as by simp
    moreover have "chain nx a (a # as)" using Cons.prems by simp
    ultimately show False using chain_unique as by fastforce
  qed
  with Cons show ?case by auto
qed

text \<open>A chain can be split after any prefix by redirecting one pointer.\<close>

lemma chain_insert_after:
  assumes "chain nx p (as @ a # bs)" and "new \<noteq> 0" and "new \<notin> set (as @ a # bs)"
  shows "chain (nx(new := nx a, a := new)) p (as @ a # new # bs)"
  using assms
proof (induction as arbitrary: p)
  case Nil
  then have "chain nx (nx a) bs" "a \<notin> set bs" "a \<noteq> new"
    using chain_distinct by fastforce+
  moreover have "chain (nx(new := nx a, a := new)) (nx a) bs \<longleftrightarrow> chain nx (nx a) bs"
    by (rule chain_cong) (use Nil calculation in auto)
  ultimately show ?case using Nil by (simp del: fun_upd_apply add: fun_upd_same fun_upd_other)
next
  case (Cons b as)
  have "distinct (b # as @ a # bs)" using chain_distinct Cons.prems(1) by fastforce
  then have "b \<noteq> a" by auto
  with Cons show ?case by (simp del: fun_upd_apply add: fun_upd_other)
qed

lemma chain_skip:
  assumes "chain nx p (as @ a # b # bs)"
  shows "chain (nx(a := nx b)) p (as @ a # bs)"
  using assms
proof (induction as arbitrary: p)
  case Nil
  have "distinct (a # b # bs)" using chain_distinct Nil by fastforce
  then have "chain (nx(a := nx b)) (nx b) bs \<longleftrightarrow> chain nx (nx b) bs"
    by (intro chain_cong) auto
  with Nil show ?case by (simp del: fun_upd_apply add: fun_upd_same)
next
  case (Cons c as)
  have "distinct (c # as @ a # b # bs)" using chain_distinct Cons.prems(1) by fastforce
  then have "c \<noteq> a" by auto
  with Cons show ?case by (simp del: fun_upd_apply add: fun_upd_other)
qed

section \<open>The pointer search loop\<close>

text \<open>
  \<open>while (n != NULL && !P(n)) n = nx(n); return n;\<close> \<open>NULL\<close> is 0. On a circular chain
  without a hit the loop does not return.
\<close>

partial_function (option) search :: "(nat \<Rightarrow> nat) \<Rightarrow> (nat \<Rightarrow> bool) \<Rightarrow> nat \<Rightarrow> nat ret" where
  "search nx P n = (if n \<noteq> 0 \<and> \<not> P n then search nx P (nx n) else retn n)"

text \<open>\<open>prev = NULL; while (n != NULL) { prev = n; n = nx(n); } return prev;\<close>\<close>

partial_function (option) search_last :: "(nat \<Rightarrow> nat) \<Rightarrow> nat \<Rightarrow> nat \<Rightarrow> nat ret" where
  "search_last nx prv n = (if n \<noteq> 0 then search_last nx n (nx n) else retn prv)"

definition first_match :: "(nat \<Rightarrow> bool) \<Rightarrow> nat list \<Rightarrow> nat" where
  "first_match P ns = (case find P ns of None \<Rightarrow> 0 | Some n \<Rightarrow> n)"

lemma first_match_Nil [simp]: "first_match P [] = 0"
  by (simp add: first_match_def)

lemma first_match_Cons [simp]: "first_match P (n # ns) = (if P n then n else first_match P ns)"
  by (simp add: first_match_def)

lemma first_match_cong: "(\<And>n. n \<in> set ns \<Longrightarrow> P n = Q n) \<Longrightarrow> first_match P ns = first_match Q ns"
  by (induction ns) auto

lemma first_match_hit:
  "0 \<notin> set ns \<Longrightarrow> first_match P ns \<noteq> 0 \<Longrightarrow> first_match P ns \<in> set ns \<and> P (first_match P ns)"
  by (induction ns) auto

lemma first_match_none: "0 \<notin> set ns \<Longrightarrow> first_match P ns = 0 \<longleftrightarrow> (\<forall>n\<in>set ns. \<not> P n)"
  by (induction ns) auto

lemma first_match_split:
  assumes "0 \<notin> set ns" "first_match P ns \<noteq> 0"
  obtains as bs where "ns = as @ first_match P ns # bs" "\<forall>a\<in>set as. \<not> P a"
  using assms
proof (induction ns arbitrary: thesis)
  case Nil
  then show ?case by simp
next
  case (Cons n ns)
  show ?case
  proof (cases "P n")
    case True
    then show ?thesis using Cons.prems(1) [of "[]" ns] by simp
  next
    case False
    then obtain as bs where "ns = as @ first_match P ns # bs" "\<forall>a\<in>set as. \<not> P a"
      using Cons by auto
    then show ?thesis using Cons.prems(1) [of "n # as" bs] False by simp
  qed
qed

lemma search_chain: "chain nx p ns \<Longrightarrow> search nx P p = retn (first_match P ns)"
proof (induction ns arbitrary: p)
  case Nil
  then show ?case by (simp add: search.simps)
next
  case (Cons a as)
  then show ?case by (subst search.simps) auto
qed

lemma search_last_chain:
  "chain nx p ns \<Longrightarrow> search_last nx q p = retn (if ns = [] then q else last ns)"
proof (induction ns arbitrary: p q)
  case Nil
  then show ?case by (simp add: search_last.simps)
next
  case (Cons a as)
  then show ?case by (subst search_last.simps) auto
qed

end
