(* ===== verification/Byte_Memory.thy ===== *)
theory Byte_Memory
  imports Prelude
begin

text \<open>
  Byte-addressed memory. Both parts of the repository overlay C structs on raw bytes (the
  allocator on \<open>char *mem\<close>, the file system on 512-byte block buffers), so structs are read
  and written here as little-endian integers at byte offsets, and \<open>memcpy\<close> and
  \<open>memset\<close> move bytes. The locale \<open>struct_layout\<close> is the interface between a struct's
  layout and its clients: non-overlapping fields give the read-over-write laws.
\<close>

type_synonym byte = "8 word"
type_synonym memory = "nat \<Rightarrow> byte"
type_synonym addr = nat

section \<open>Little-endian integers\<close>

primrec rd :: "memory \<Rightarrow> addr \<Rightarrow> nat \<Rightarrow> nat" where
  "rd m a 0 = 0"
| "rd m a (Suc k) = unat (m a) + 256 * rd m (Suc a) k"

primrec wr :: "memory \<Rightarrow> addr \<Rightarrow> nat \<Rightarrow> nat \<Rightarrow> memory" where
  "wr m a 0 v = m"
| "wr m a (Suc k) v = (wr m (Suc a) k (v div 256))(a := of_nat v)"

lemma rd_less: "rd m a k < 256 ^ k"
proof (induction k arbitrary: a)
  case 0
  then show ?case by simp
next
  case (Suc k)
  have "unat (m a) < 256" using unsigned_less [of "m a"] by simp
  with Suc [of "Suc a"] show ?case by simp
qed

lemma rd_cong: "(\<And>i. i < k \<Longrightarrow> m (a + i) = m' (b + i)) \<Longrightarrow> rd m a k = rd m' b k"
proof (induction k arbitrary: a b)
  case 0
  then show ?case by simp
next
  case (Suc k)
  have "m a = m' b" using Suc.prems [of 0] by simp
  moreover have "rd m (Suc a) k = rd m' (Suc b) k"
  proof (rule Suc.IH)
    fix i
    assume "i < k"
    then show "m (Suc a + i) = m' (Suc b + i)" using Suc.prems [of "Suc i"] by simp
  qed
  ultimately show ?case by simp
qed

lemma wr_other: "x < a \<or> a + k \<le> x \<Longrightarrow> wr m a k v x = m x"
  by (induction k arbitrary: a v) auto

lemma rd_wr_same [mem_simps]: "rd (wr m a k v) a k = v mod 256 ^ k"
proof (induction k arbitrary: a v)
  case 0
  then show ?case by simp
next
  case (Suc k)
  have "rd ((wr m (Suc a) k (v div 256))(a := of_nat v)) (Suc a) k =
        rd (wr m (Suc a) k (v div 256)) (Suc a) k"
    by (rule rd_cong) simp
  then have "rd (wr m a (Suc k) v) a (Suc k) = v mod 256 + 256 * (v div 256 mod 256 ^ k)"
    by (simp add: Suc unat_of_nat fun_upd_same del: fun_upd_apply)
  also have "\<dots> = v mod (256 * 256 ^ k)"
    by (simp add: mod_mult2_eq)
  finally show ?case by (simp del: fun_upd_apply wr.simps rd.simps)
qed

lemma rd_wr_other [mem_simps]:
  "a + k \<le> b \<or> b + j \<le> a \<Longrightarrow> rd (wr m b j v) a k = rd m a k"
  by (rule rd_cong) (auto simp: wr_other)

lemma rd_1: "rd m a 1 = unat (m a)"
  by simp

section \<open>memcpy, memset and buffers\<close>

text \<open>
  A buffer on the stack is a memory of its own, indexed from 0. \<open>copy_in m d b n\<close> is
  \<open>memcpy(d, b, n)\<close> from a buffer into memory, \<open>copy_out m s\<close> is the buffer that
  \<open>memcpy(b, s, n)\<close> fills, \<open>memcpy m d s n\<close> copies inside one memory.
\<close>

definition copy_in :: "memory \<Rightarrow> addr \<Rightarrow> memory \<Rightarrow> nat \<Rightarrow> memory" where
  "copy_in m d b n = (\<lambda>a. if d \<le> a \<and> a < d + n then b (a - d) else m a)"

definition copy_out :: "memory \<Rightarrow> addr \<Rightarrow> memory" where
  "copy_out m s = (\<lambda>i. m (s + i))"

definition memcpy :: "memory \<Rightarrow> addr \<Rightarrow> addr \<Rightarrow> nat \<Rightarrow> memory" where
  "memcpy m d s n = copy_in m d (copy_out m s) n"

definition memset :: "memory \<Rightarrow> addr \<Rightarrow> byte \<Rightarrow> nat \<Rightarrow> memory" where
  "memset m d c n = copy_in m d (\<lambda>_. c) n"

lemma copy_in_inside [simp]: "d \<le> a \<Longrightarrow> a < d + n \<Longrightarrow> copy_in m d b n a = b (a - d)"
  by (simp add: copy_in_def)

lemma copy_in_outside [simp]: "a < d \<or> d + n \<le> a \<Longrightarrow> copy_in m d b n a = m a"
  by (auto simp: copy_in_def)

lemma copy_out_apply [simp]: "copy_out m s i = m (s + i)"
  by (simp add: copy_out_def)

lemma rd_copy_out [mem_simps]: "rd (copy_out m s) i k = rd m (s + i) k"
  by (rule rd_cong) (simp add: add.assoc)

lemma rd_copy_in_inside [mem_simps]:
  "d \<le> a \<Longrightarrow> a + k \<le> d + n \<Longrightarrow> rd (copy_in m d b n) a k = rd b (a - d) k"
  by (rule rd_cong) (simp add: copy_in_def)

lemma rd_copy_in_outside [mem_simps]:
  "a + k \<le> d \<or> d + n \<le> a \<Longrightarrow> rd (copy_in m d b n) a k = rd m a k"
  by (rule rd_cong) (auto simp: copy_in_def)

lemma rd_memcpy_inside [mem_simps]:
  "d \<le> a \<Longrightarrow> a + k \<le> d + n \<Longrightarrow> rd (memcpy m d s n) a k = rd m (s + (a - d)) k"
  by (simp add: memcpy_def mem_simps)

lemma rd_memcpy_outside [mem_simps]:
  "a + k \<le> d \<or> d + n \<le> a \<Longrightarrow> rd (memcpy m d s n) a k = rd m a k"
  by (simp add: memcpy_def mem_simps)

lemma rd_zero: "(\<And>i. i < k \<Longrightarrow> m (a + i) = 0) \<Longrightarrow> rd m a k = 0"
proof (induction k arbitrary: a)
  case 0
  then show ?case by simp
next
  case (Suc k)
  have "rd m (Suc a) k = 0" by (rule Suc.IH) (use Suc.prems [of "Suc _"] in simp)
  with Suc.prems [of 0] show ?case by simp
qed

section \<open>Struct layouts\<close>

text \<open>
  A layout gives every field its offset and width. The accessors \<open>gt\<close> and \<open>pt\<close> are the
  reads and writes \<open>p->f\<close> of a struct at address \<open>p\<close>. Two structs are \<open>apart\<close> when
  their byte ranges do not meet.
\<close>

definition apart :: "nat \<Rightarrow> addr \<Rightarrow> addr \<Rightarrow> bool" where
  "apart sz p q \<longleftrightarrow> p + sz \<le> q \<or> q + sz \<le> p"

lemma apart_sym: "apart sz p q \<longleftrightarrow> apart sz q p"
  by (auto simp: apart_def)

lemma apart_irrefl: "0 < sz \<Longrightarrow> \<not> apart sz p p"
  by (simp add: apart_def)

locale struct_layout =
  fixes off :: "'f \<Rightarrow> nat" and wid :: "'f \<Rightarrow> nat" and sz :: nat and valid :: "'f \<Rightarrow> bool"
    and gt :: "memory \<Rightarrow> 'f \<Rightarrow> addr \<Rightarrow> nat"
    and pt :: "memory \<Rightarrow> 'f \<Rightarrow> addr \<Rightarrow> nat \<Rightarrow> memory"
  assumes gt_rd: "gt m f p = rd m (p + off f) (wid f)"
    and pt_wr: "pt m f p v = wr m (p + off f) (wid f) v"
    and inside: "valid f \<Longrightarrow> off f + wid f \<le> sz"
    and no_overlap: "valid f \<Longrightarrow> valid g \<Longrightarrow> f \<noteq> g \<Longrightarrow>
      off f + wid f \<le> off g \<or> off g + wid g \<le> off f"
begin

lemma gt_pt_same: "gt (pt m f p v) f p = v mod 256 ^ wid f"
  by (simp add: gt_rd pt_wr mem_simps)

lemma gt_pt_field: "valid f \<Longrightarrow> valid g \<Longrightarrow> f \<noteq> g \<Longrightarrow> gt (pt m f p v) g p = gt m g p"
  using no_overlap [of f g] by (auto simp: gt_rd pt_wr rd_wr_other)

lemma gt_pt_apart: "valid f \<Longrightarrow> valid g \<Longrightarrow> apart sz p q \<Longrightarrow> gt (pt m f p v) g q = gt m g q"
  using inside [of f] inside [of g] by (auto simp: gt_rd pt_wr rd_wr_other apart_def)

lemma gt_pt:
  "valid f \<Longrightarrow> valid g \<Longrightarrow> p = q \<or> apart sz p q \<Longrightarrow>
   gt (pt m f p v) g q = (if p = q \<and> f = g then v mod 256 ^ wid f else gt m g q)"
  using gt_pt_same gt_pt_field gt_pt_apart by (cases "p = q"; cases "f = g") auto

lemma gt_less: "gt m f p < 256 ^ wid f"
  by (simp add: gt_rd rd_less)

lemma pt_outside: "valid f \<Longrightarrow> x < p \<or> p + sz \<le> x \<Longrightarrow> pt m f p v x = m x"
  using inside [of f] by (auto simp: pt_wr wr_other)

lemma gt_cong:
  "valid f \<Longrightarrow> (\<And>i. i < sz \<Longrightarrow> m (p + i) = m' (q + i)) \<Longrightarrow> gt m f p = gt m' f q"
  using inside [of f] by (auto simp: gt_rd add.assoc intro!: rd_cong)

lemma gt_copy_in_inside:
  "valid f \<Longrightarrow> d \<le> p \<Longrightarrow> p + sz \<le> d + n \<Longrightarrow> gt (copy_in m d b n) f p = gt b f (p - d)"
  using inside [of f] by (simp add: gt_rd mem_simps)

lemma gt_copy_in_outside:
  "valid f \<Longrightarrow> p + sz \<le> d \<or> d + n \<le> p \<Longrightarrow> gt (copy_in m d b n) f p = gt m f p"
  using inside [of f] by (auto simp: gt_rd mem_simps)

lemma gt_copy_out: "gt (copy_out m s) f p = gt m f (s + p)"
  by (simp add: gt_rd mem_simps add.assoc)

text \<open>Writing a whole struct field by field, in any order of a duplicate-free field list.\<close>

lemma pts_outside:
  "(\<forall>f\<in>set fs. valid f) \<Longrightarrow> x < p \<or> p + sz \<le> x \<Longrightarrow>
   fold (\<lambda>f m. pt m f p (val f)) fs m x = m x"
  by (induction fs arbitrary: m) (auto simp: pt_outside)

lemma gt_pts_apart:
  "(\<forall>f\<in>set fs. valid f) \<Longrightarrow> valid g \<Longrightarrow> apart sz p q \<Longrightarrow>
   gt (fold (\<lambda>f m. pt m f p (val f)) fs m) g q = gt m g q"
  by (induction fs arbitrary: m) (auto simp: gt_pt_apart)

lemma gt_pts_not:
  "(\<forall>f\<in>set fs. valid f) \<Longrightarrow> valid g \<Longrightarrow> g \<notin> set fs \<Longrightarrow>
   gt (fold (\<lambda>f m. pt m f p (val f)) fs m) g p = gt m g p"
  by (induction fs arbitrary: m) (auto simp: gt_pt_field)

lemma gt_pts:
  "(\<forall>f\<in>set fs. valid f) \<Longrightarrow> valid g \<Longrightarrow> distinct fs \<Longrightarrow> g \<in> set fs \<Longrightarrow>
   gt (fold (\<lambda>f m. pt m f p (val f)) fs m) g p = val g mod 256 ^ wid g"
proof (induction fs arbitrary: m)
  case Nil
  then show ?case by simp
next
  case (Cons f fs)
  show ?case
  proof (cases "g = f")
    case True
    with Cons.prems show ?thesis by (simp add: gt_pts_not gt_pt_same)
  next
    case False
    with Cons show ?thesis by simp
  qed
qed

end

end
