(* ===== verification/Space_Node.thy ===== *)
theory Space_Node
  imports Byte_Memory
begin

text \<open>
  The struct \<open>SpaceNode\<close> of vm.c and the operations on one list of spaces: first-fit
  search, splitting, freeing with coalescing, and the repair of list pointers after a page
  has been moved. A space is a 56-byte header followed by its payload; the header lives in
  the managed memory itself, so it is modelled on bytes.
\<close>

section \<open>Layout\<close>

datatype field = Pid | Reference | Free | Order | Start | Size | Pad1 | Next | Prev
  | DataStartsAnotherPage | Swapclock | Pad2

fun sn_off :: "field \<Rightarrow> nat" where
  "sn_off Pid = 0"
| "sn_off Reference = 4"
| "sn_off Free = 8"
| "sn_off Order = 12"
| "sn_off Start = 16"
| "sn_off Size = 24"
| "sn_off Pad1 = 28"
| "sn_off Next = 32"
| "sn_off Prev = 40"
| "sn_off DataStartsAnotherPage = 48"
| "sn_off Swapclock = 52"
| "sn_off Pad2 = 53"

fun sn_wid :: "field \<Rightarrow> nat" where
  "sn_wid Pid = 4"
| "sn_wid Reference = 4"
| "sn_wid Free = 4"
| "sn_wid Order = 4"
| "sn_wid Start = 8"
| "sn_wid Size = 4"
| "sn_wid Pad1 = 4"
| "sn_wid Next = 8"
| "sn_wid Prev = 8"
| "sn_wid DataStartsAnotherPage = 4"
| "sn_wid Swapclock = 1"
| "sn_wid Pad2 = 3"

abbreviation sizeof_SpaceNode :: nat where
  "sizeof_SpaceNode \<equiv> 56"

definition get :: "memory \<Rightarrow> field \<Rightarrow> addr \<Rightarrow> nat" where
  "get m f p = rd m (p + sn_off f) (sn_wid f)"

definition put :: "memory \<Rightarrow> field \<Rightarrow> addr \<Rightarrow> nat \<Rightarrow> memory" where
  "put m f p v = wr m (p + sn_off f) (sn_wid f) v"

interpretation sn: struct_layout sn_off sn_wid sizeof_SpaceNode "\<lambda>_. True" get put
proof unfold_locales
  fix m f p v
  show "get m f p = rd m (p + sn_off f) (sn_wid f)" by (simp add: get_def)
  show "put m f p v = wr m (p + sn_off f) (sn_wid f) v" by (simp add: put_def)
  show "sn_off f + sn_wid f \<le> 56" by (cases f) simp_all
next
  fix f g :: field
  assume "f \<noteq> g"
  then show "sn_off f + sn_wid f \<le> sn_off g \<or> sn_off g + sn_wid g \<le> sn_off f"
    by (cases f; cases g; simp)
qed

text \<open>A \<open>SpaceNode\<close> variable on the stack; the padding is part of what \<open>memcpy\<close> copies.\<close>

record SpaceNode =
  sn_pid :: nat
  sn_reference :: nat
  sn_free :: nat
  sn_order :: nat
  sn_start :: nat
  sn_size :: nat
  sn_pad1 :: nat
  sn_next :: nat
  sn_prev :: nat
  sn_dataStartsAnotherPage :: nat
  sn_swapclock :: nat
  sn_pad2 :: nat

fun sn_field :: "SpaceNode \<Rightarrow> field \<Rightarrow> nat" where
  "sn_field s Pid = sn_pid s"
| "sn_field s Reference = sn_reference s"
| "sn_field s Free = sn_free s"
| "sn_field s Order = sn_order s"
| "sn_field s Start = sn_start s"
| "sn_field s Size = sn_size s"
| "sn_field s Pad1 = sn_pad1 s"
| "sn_field s Next = sn_next s"
| "sn_field s Prev = sn_prev s"
| "sn_field s DataStartsAnotherPage = sn_dataStartsAnotherPage s"
| "sn_field s Swapclock = sn_swapclock s"
| "sn_field s Pad2 = sn_pad2 s"

definition sn_fields :: "field list" where
  "sn_fields = [Pid, Reference, Free, Order, Start, Size, Pad1, Next, Prev,
     DataStartsAnotherPage, Swapclock, Pad2]"

text \<open>\<open>memcpy(p, &s, sizeof(SpaceNode))\<close>.\<close>

definition store_node :: "memory \<Rightarrow> addr \<Rightarrow> SpaceNode \<Rightarrow> memory" where
  "store_node m p s = fold (\<lambda>f m. put m f p (sn_field s f)) sn_fields m"

text \<open>A struct and a memory of zero bytes, the values the examples start from.\<close>

definition zero_node :: SpaceNode where
  "zero_node = \<lparr>sn_pid = 0, sn_reference = 0, sn_free = 0, sn_order = 0, sn_start = 0,
     sn_size = 0, sn_pad1 = 0, sn_next = 0, sn_prev = 0, sn_dataStartsAnotherPage = 0,
     sn_swapclock = 0, sn_pad2 = 0\<rparr>"

definition zero_memory :: memory where
  "zero_memory = (\<lambda>_. 0)"

lemma sn_fields_all: "f \<in> set sn_fields"
  by (cases f) (simp_all add: sn_fields_def)

lemma sn_fields_distinct: "distinct sn_fields"
  by (simp add: sn_fields_def)

abbreviation napart :: "addr \<Rightarrow> addr \<Rightarrow> bool" where
  "napart \<equiv> apart sizeof_SpaceNode"

lemma get_put_same [simp, mem_simps]:
  "get (put m f p v) g p = (if f = g then v mod 256 ^ sn_wid f else get m g p)"
  using sn.gt_pt_same sn.gt_pt_field by simp

lemma get_put_apart [simp, mem_simps]:
  "napart p q \<Longrightarrow> get (put m f p v) g q = get m g q"
  "napart q p \<Longrightarrow> get (put m f p v) g q = get m g q"
  using sn.gt_pt_apart apart_sym by simp_all

lemma get_store_node_same [simp, mem_simps]:
  "get (store_node m p s) f p = sn_field s f mod 256 ^ sn_wid f"
  unfolding store_node_def by (rule sn.gt_pts) (simp_all add: sn_fields_all sn_fields_distinct)

lemma get_store_node_apart [simp, mem_simps]:
  "napart p q \<Longrightarrow> get (store_node m p s) f q = get m f q"
  "napart q p \<Longrightarrow> get (store_node m p s) f q = get m f q"
  unfolding store_node_def by (rule sn.gt_pts_apart; simp add: apart_sym)+

lemma store_node_outside: "x < p \<or> p + 56 \<le> x \<Longrightarrow> store_node m p s x = m x"
  unfolding store_node_def by (rule sn.pts_outside) simp_all

lemma get_less: "get m f p < 256 ^ sn_wid f"
  by (rule sn.gt_less)

lemma get_mod: "get m f p mod 256 ^ sn_wid f = get m f p"
  by (simp add: get_less)

lemmas get_mods [simp] =
  get_mod [of _ Start, simplified] get_mod [of _ Next, simplified] get_mod [of _ Prev, simplified]
  get_mod [of _ Pid, simplified] get_mod [of _ Reference, simplified] get_mod [of _ Free, simplified]
  get_mod [of _ Order, simplified] get_mod [of _ Size, simplified]
  get_mod [of _ DataStartsAnotherPage, simplified] get_mod [of _ Swapclock, simplified]

lemma get_Size_less: "get m Size p < 2 ^ 32"
  using get_less [of m Size p] by simp

section \<open>Operations on a list of spaces\<close>

datatype spaceType = PAGE | ELEMENT

definition getNextSpace :: "memory \<Rightarrow> addr \<Rightarrow> addr" where
  "getNextSpace m old = (if old = 0 then 0 else get m Next old)"

text \<open>The flag \<open>found\<close> of the loop makes it stop at the first free space that fits.\<close>

definition findFreeSpace :: "memory \<Rightarrow> addr \<Rightarrow> nat \<Rightarrow> addr ret" where
  "findFreeSpace m n sz =
     search (getNextSpace m) (\<lambda>n. get m Free n \<noteq> 0 \<and> sz \<le> get m Size n) n"

text \<open>
  \<open>junk\<close> is the indeterminate content of the local variable \<open>new\<close>: \<open>initializeSpace\<close>
  and \<open>createSpace\<close> leave \<open>dataStartsAnotherPage\<close> and \<open>swapclock\<close> unset.
\<close>

definition initializeSpace :: "SpaceNode \<Rightarrow> memory \<Rightarrow> addr \<Rightarrow> nat \<Rightarrow> memory" where
  "initializeSpace junk m space sz =
     store_node m space
       (junk\<lparr>sn_free := 1, sn_order := 1, sn_next := 0, sn_prev := 0,
             sn_size := sub64 sz sizeof_SpaceNode, sn_reference := 0,
             sn_start := space + sizeof_SpaceNode, sn_pid := 0\<rparr>)"

text \<open>
  \<open>restSize\<close> is an \<open>int\<close>: the \<open>size_t\<close> difference is truncated to 32 bits and read as
  signed, and compared with \<open>sizeof\<close> as an unsigned 64-bit value.
\<close>

definition createSpace :: "SpaceNode \<Rightarrow> memory \<Rightarrow> addr \<Rightarrow> nat \<Rightarrow> memory \<times> int" where
  "createSpace junk m n sz =
     (if get m Free n = 0 then (m, 1)
      else
        let m1 = put m Free n 0;
            restSize = s32 (sub64 (get m1 Size n) sz);
            m2 = put m1 Size n sz
        in if u64 restSize > sizeof_SpaceNode then
             let newPos = get m2 Start n + sz;
                 new = junk\<lparr>sn_free := 1, sn_order := 1, sn_prev := n, sn_next := get m2 Next n,
                            sn_pid := 0, sn_reference := 0, sn_size := u32 restSize,
                            sn_start := newPos + sizeof_SpaceNode\<rparr>;
                 m3 = store_node m2 newPos new
             in (put m3 Next n newPos, 0)
           else (m2, 0))"

definition removeSpace :: "memory \<Rightarrow> addr \<Rightarrow> spaceType \<Rightarrow> memory ret" where
  "removeSpace m ptr ty =
     (if ptr = 0 \<or> ty \<noteq> PAGE \<and> ptr \<le> sizeof_SpaceNode then fail NullDeref
      else
        let n = (if ty = PAGE then ptr else ptr - sizeof_SpaceNode)
        in if get m Free n \<noteq> 0 then retn m
           else
             let a = get m Prev n; b = get m Next n;
                 m1 = put m Free n 1;
                 m2 = put m1 Pid n 0
             in if ty = PAGE then retn m2
                else if a = 0 \<and> b \<noteq> 0 then
                  (if get m2 Free b \<noteq> 0
                   then let m3 = put m2 Size n (get m2 Size b + sizeof_SpaceNode)
                        in retn (put m3 Next n (get m3 Next b))
                   else retn m2)
                else if a \<noteq> 0 \<and> b = 0 then
                  (if get m2 Free a \<noteq> 0
                   then let m3 = put m2 Size a (get m2 Size n + sizeof_SpaceNode)
                        in retn (put m3 Next a (get m3 Next n))
                   else retn m2)
                else if a \<noteq> 0 \<and> b \<noteq> 0 then
                  (if get m2 Free a = 0 \<and> get m2 Free b \<noteq> 0
                   then let m3 = put m2 Size n (get m2 Size b + sizeof_SpaceNode)
                        in retn (put m3 Next n (get m3 Next b))
                   else if get m2 Free a \<noteq> 0 \<and> get m2 Free b = 0
                   then let m3 = put m2 Size a (get m2 Size n + sizeof_SpaceNode)
                        in retn (put m3 Next a (get m3 Next n))
                   else if get m2 Free a \<noteq> 0 \<and> get m2 Free b \<noteq> 0
                   then let m3 = put m2 Size a (get m2 Size n + get m2 Size b + 2 * sizeof_SpaceNode)
                        in retn (put m3 Next a (get m3 Next b))
                   else retn m2)
                else retn m2)"

definition setProcessPage :: "memory \<Rightarrow> addr \<Rightarrow> nat \<Rightarrow> memory" where
  "setProcessPage m n pid = put m Pid n pid"

text \<open>
  \<open>getFreeElementFrom(memory, size)\<close> returns the payload address, or \<open>NULL\<close> when no free
  space fits.
\<close>

definition getFreeElementFrom :: "SpaceNode \<Rightarrow> memory \<Rightarrow> addr \<Rightarrow> nat \<Rightarrow> (memory \<times> addr) ret" where
  "getFreeElementFrom junk m memory sz =
     bindR (findFreeSpace m memory sz) (\<lambda>n.
       if n = 0 then retn (m, 0)
       else case createSpace junk m n sz of
         (m', r) \<Rightarrow> if r \<noteq> 0 then retn (m', 0) else retn (m', get m' Start n))"

definition getLastElement :: "memory \<Rightarrow> addr \<Rightarrow> addr ret" where
  "getLastElement m page =
     search_last (getNextSpace m) (get m Start page) (getNextSpace m (get m Start page))"

text \<open>
  \<open>restorePointers(n, size, 1)\<close>: the loop rebuilds \<open>next\<close>, \<open>prev\<close> and \<open>start\<close> of the
  spaces laid out back to back in \<open>sz\<close> bytes, and returns the last node it wrote.
\<close>

function restore_elements_loop ::
  "memory \<Rightarrow> addr \<Rightarrow> nat \<Rightarrow> nat \<Rightarrow> addr \<Rightarrow> memory \<times> addr" where
  "restore_elements_loop m n s sz old =
     (if s < sz \<and> sz - s > sizeof_SpaceNode then
        let offset = sizeof_SpaceNode + get m Size n;
            nxt = n + offset;
            m1 = put m Next n nxt;
            m2 = put m1 Prev n old;
            m3 = put m2 Start n (n + sizeof_SpaceNode)
        in restore_elements_loop m3 nxt (s + offset) sz n
      else (m, old))"
  by pat_completeness auto
termination
  by (relation "measure (\<lambda>(m, n, s, sz, old). sz - s)") (auto simp: Let_def)

declare restore_elements_loop.simps [simp del]

definition restoreElementsPointers :: "memory \<Rightarrow> addr \<Rightarrow> nat \<Rightarrow> memory ret" where
  "restoreElementsPointers m n sz =
     (if sz = 0 then fail (ExitCall 1)
      else case restore_elements_loop m n 0 sz 0 of
        (m', old) \<Rightarrow> if old = 0 then fail NullDeref else retn (put m' Next old 0))"

text \<open>
  \<open>restorePointers(n, size, 0)\<close>: as above, and every node is a page whose element list is
  repaired first.
\<close>

function restore_pages_loop ::
  "memory \<Rightarrow> addr \<Rightarrow> nat \<Rightarrow> nat \<Rightarrow> addr \<Rightarrow> (memory \<times> addr) ret" where
  "restore_pages_loop m n s sz old =
     (if s < sz \<and> sz - s > sizeof_SpaceNode then
        let offset = sizeof_SpaceNode + get m Size n;
            nxt = n + offset;
            m1 = put m Next n nxt;
            m2 = put m1 Prev n old;
            m3 = put m2 Start n (n + sizeof_SpaceNode)
        in bindR (restoreElementsPointers m3 (n + sizeof_SpaceNode) (get m3 Size n)) (\<lambda>m4.
             restore_pages_loop m4 nxt (s + offset) sz n)
      else retn (m, old))"
  by pat_completeness auto
termination
  by (relation "measure (\<lambda>(m, n, s, sz, old). sz - s)") (auto simp: Let_def)

declare restore_pages_loop.simps [simp del]

definition restorePagePointers :: "memory \<Rightarrow> addr \<Rightarrow> nat \<Rightarrow> memory ret" where
  "restorePagePointers m n sz =
     (if sz = 0 then fail (ExitCall 1)
      else bindR (restore_pages_loop m n 0 sz 0) (\<lambda>(m', old).
        if old = 0 then fail NullDeref else retn (put m' Next old 0)))"

end
