(* ===== verification/Space_List.thy ===== *)
theory Space_List
  imports Space_Node
begin

text \<open>
  The abstract view of a list of spaces: blocks (header address, free flag, size) in list
  order, the first-fit specification on them, and the refinement of the byte-level
  operations of \<open>Space_Node\<close>. The freeing branches are described one by one, since the
  sizes they write are not the sizes of the merged blocks.
\<close>

section \<open>Blocks\<close>

type_synonym block = "addr \<times> bool \<times> nat"

fun rep :: "memory \<Rightarrow> addr \<Rightarrow> block list \<Rightarrow> bool" where
  "rep m p [] \<longleftrightarrow> p = 0"
| "rep m p ((a, fr, s) # bs) \<longleftrightarrow>
     p = a \<and> a \<noteq> 0 \<and> fr = (get m Free a \<noteq> 0) \<and> s = get m Size a \<and>
     get m Start a = a + sizeof_SpaceNode \<and> rep m (get m Next a) bs"

text \<open>Every block ends before the header of every later one.\<close>

definition spaced :: "block list \<Rightarrow> bool" where
  "spaced bs \<longleftrightarrow> sorted_wrt (\<lambda>(a, _, s) (b, _, _). a + sizeof_SpaceNode + s \<le> b) bs"

abbreviation claimed_end :: "block \<Rightarrow> nat" where
  "claimed_end b \<equiv> fst b + sizeof_SpaceNode + snd (snd b)"

definition split_block :: "addr \<Rightarrow> nat \<Rightarrow> nat \<Rightarrow> block list" where
  "split_block a s sz =
     (if s - sz > sizeof_SpaceNode
      then [(a, False, sz), (a + sizeof_SpaceNode + sz, True, s - sz)]
      else [(a, False, sz)])"

fun first_fit :: "nat \<Rightarrow> block list \<Rightarrow> (block list \<times> addr) option" where
  "first_fit sz [] = None"
| "first_fit sz ((a, fr, s) # bs) =
     (if fr \<and> sz \<le> s then Some (split_block a s sz @ bs, a + sizeof_SpaceNode)
      else map_option (\<lambda>(bs', r). ((a, fr, s) # bs', r)) (first_fit sz bs))"

definition fits :: "nat \<Rightarrow> block \<Rightarrow> bool" where
  "fits sz b \<longleftrightarrow> fst (snd b) \<and> sz \<le> snd (snd b)"

lemma rep_chain: "rep m p bs \<Longrightarrow> chain (getNextSpace m) p (map fst bs)"
  by (induction m p bs rule: rep.induct) (auto simp: getNextSpace_def)

lemma rep_nonzero: "rep m p bs \<Longrightarrow> b \<in> set bs \<Longrightarrow> fst b \<noteq> 0"
  by (induction m p bs rule: rep.induct) auto

lemma rep_block:
  "rep m p bs \<Longrightarrow> (a, fr, s) \<in> set bs \<Longrightarrow>
   fr = (get m Free a \<noteq> 0) \<and> s = get m Size a \<and> get m Start a = a + sizeof_SpaceNode"
  by (induction m p bs rule: rep.induct) auto

lemma rep_cong:
  assumes "\<And>b f. b \<in> set bs \<Longrightarrow> f \<in> {Free, Size, Start, Next} \<Longrightarrow> get m' f (fst b) = get m f (fst b)"
  shows "rep m' p bs \<longleftrightarrow> rep m p bs"
  using assms
proof (induction m p bs rule: rep.induct)
  case (1 m p)
  then show ?case by simp
next
  case (2 m p a fr s bs)
  from "2.prems" [of "(a, fr, s)"] have "get m' f a = get m f a" if "f \<in> {Free, Size, Start, Next}" for f
    using that by simp
  with 2 show ?case by simp
qed

lemma rep_append:
  "rep m p (xs @ (a, fr, s) # ys) \<Longrightarrow> rep m a ((a, fr, s) # ys)"
  by (induction m p xs rule: rep.induct) auto

text \<open>List segments: the blocks from \<open>p\<close> up to, but not including, the node \<open>q\<close>.\<close>

fun lseg :: "memory \<Rightarrow> addr \<Rightarrow> block list \<Rightarrow> addr \<Rightarrow> bool" where
  "lseg m p [] q \<longleftrightarrow> p = q"
| "lseg m p ((a, fr, s) # bs) q \<longleftrightarrow>
     p = a \<and> a \<noteq> 0 \<and> fr = (get m Free a \<noteq> 0) \<and> s = get m Size a \<and>
     get m Start a = a + sizeof_SpaceNode \<and> lseg m (get m Next a) bs q"

lemma rep_lseg: "rep m p (xs @ ys) \<longleftrightarrow> (\<exists>q. lseg m p xs q \<and> rep m q ys)"
  by (induction m p xs rule: rep.induct) auto

lemma lseg_append: "lseg m p (xs @ ys) q \<longleftrightarrow> (\<exists>r. lseg m p xs r \<and> lseg m r ys q)"
  by (induction m p xs q rule: lseg.induct) auto

lemma lseg_cong:
  assumes "\<And>b f. b \<in> set bs \<Longrightarrow> f \<in> {Free, Size, Start, Next} \<Longrightarrow> get m' f (fst b) = get m f (fst b)"
  shows "lseg m' p bs q \<longleftrightarrow> lseg m p bs q"
  using assms
proof (induction m p bs q rule: lseg.induct)
  case (1 m p q)
  then show ?case by simp
next
  case (2 m p a fr s bs q)
  from "2.prems" [of "(a, fr, s)"] have "get m' f a = get m f a" if "f \<in> {Free, Size, Start, Next}" for f
    using that by simp
  with 2 show ?case by simp
qed

lemma spaced_Cons:
  "spaced ((a, fr, s) # bs) \<longleftrightarrow> (\<forall>b\<in>set bs. a + sizeof_SpaceNode + s \<le> fst b) \<and> spaced bs"
  by (force simp: spaced_def)

lemma spaced_append:
  "spaced (xs @ ys) \<longleftrightarrow> spaced xs \<and> spaced ys \<and> (\<forall>b\<in>set xs. \<forall>c\<in>set ys. claimed_end b \<le> fst c)"
  by (force simp: spaced_def sorted_wrt_append)

lemma first_fit_Some:
  "first_fit sz bs = Some (bs', r) \<longleftrightarrow>
     (\<exists>xs a s ys. bs = xs @ (a, True, s) # ys \<and> sz \<le> s \<and> (\<forall>b\<in>set xs. \<not> fits sz b) \<and>
        bs' = xs @ split_block a s sz @ ys \<and> r = a + sizeof_SpaceNode)"
  (is "?L bs bs' \<longleftrightarrow> ?R bs bs'")
proof (induction sz bs arbitrary: bs' rule: first_fit.induct)
  case (1 sz)
  then show ?case by simp
next
  case (2 sz a fr s bs)
  show ?case
  proof (cases "fr \<and> sz \<le> s")
    case True
    then show ?thesis
      by (auto simp: fits_def Cons_eq_append_conv intro!: exI [of _ "[]"])
  next
    case False
    then have "first_fit sz ((a, fr, s) # bs) = Some (bs', r) \<longleftrightarrow>
        (\<exists>bs''. first_fit sz bs = Some (bs'', r) \<and> bs' = (a, fr, s) # bs'')"
      by auto
    also have "\<dots> \<longleftrightarrow> (\<exists>xs b t ys. bs = xs @ (b, True, t) # ys \<and> sz \<le> t \<and>
        (\<forall>b\<in>set xs. \<not> fits sz b) \<and> bs' = (a, fr, s) # xs @ split_block b t sz @ ys \<and>
        r = b + sizeof_SpaceNode)"
      using 2 [OF False] by blast
    also have "\<dots> \<longleftrightarrow> (\<exists>xs b t ys. (a, fr, s) # bs = xs @ (b, True, t) # ys \<and> sz \<le> t \<and>
        (\<forall>b\<in>set xs. \<not> fits sz b) \<and> bs' = xs @ split_block b t sz @ ys \<and>
        r = b + sizeof_SpaceNode)" (is "?A \<longleftrightarrow> ?B")
    proof
      assume ?A
      then obtain xs b t ys where *: "bs = xs @ (b, True, t) # ys" "sz \<le> t"
        "\<forall>b\<in>set xs. \<not> fits sz b" "bs' = (a, fr, s) # xs @ split_block b t sz @ ys"
        "r = b + sizeof_SpaceNode" by blast
      have "\<not> fits sz (a, fr, s)" using False by (simp add: fits_def)
      with * show ?B by (intro exI [of _ "(a, fr, s) # xs"]) auto
    next
      assume ?B
      then obtain xs b t ys where *: "(a, fr, s) # bs = xs @ (b, True, t) # ys" "sz \<le> t"
        "\<forall>b\<in>set xs. \<not> fits sz b" "bs' = xs @ split_block b t sz @ ys"
        "r = b + sizeof_SpaceNode" by blast
      with False show ?A by (cases xs) auto
    qed
    finally show ?thesis .
  qed
qed

lemma first_fit_None: "first_fit sz bs = None \<longleftrightarrow> (\<forall>b\<in>set bs. \<not> fits sz b)"
  by (induction sz bs rule: first_fit.induct) (auto simp: fits_def)

section \<open>Search and split refine first fit\<close>

lemma findFreeSpace_rep:
  assumes "rep m p bs"
  shows "findFreeSpace m p sz =
    retn (case find (fits sz) bs of None \<Rightarrow> 0 | Some b \<Rightarrow> fst b)"
proof -
  let ?P = "\<lambda>n. get m Free n \<noteq> 0 \<and> sz \<le> get m Size n"
  have "first_match ?P (map fst bs) = (case find (fits sz) bs of None \<Rightarrow> 0 | Some b \<Rightarrow> fst b)"
    using assms by (induction m p bs rule: rep.induct) (auto simp: fits_def)
  then show ?thesis
    unfolding findFreeSpace_def using search_chain [OF rep_chain [OF assms], of ?P] by simp
qed

lemma find_split:
  assumes "\<forall>b\<in>set xs. \<not> P b" "P b"
  shows "find P (xs @ b # ys) = Some b"
  using assms by (induction xs) auto

text \<open>What a split leaves in the two headers, and which bytes it touches.\<close>

lemma createSpace_used: "get m Free n = 0 \<Longrightarrow> createSpace junk m n sz = (m, 1)"
  by (simp add: createSpace_def)

definition new_header :: "SpaceNode \<Rightarrow> memory \<Rightarrow> addr \<Rightarrow> nat \<Rightarrow> SpaceNode" where
  "new_header junk m n sz =
     junk\<lparr>sn_free := 1, sn_order := 1, sn_prev := n, sn_next := get m Next n, sn_pid := 0,
          sn_reference := 0, sn_size := get m Size n - sz,
          sn_start := n + sizeof_SpaceNode + sz + sizeof_SpaceNode\<rparr>"

lemma createSpace_free:
  assumes "get m Free n \<noteq> 0" "sz \<le> get m Size n" "get m Size n < 2 ^ 31"
    and "get m Start n = n + sizeof_SpaceNode"
  shows "createSpace junk m n sz =
    (if get m Size n - sz > sizeof_SpaceNode
     then (put (store_node (put (put m Free n 0) Size n sz) (n + sizeof_SpaceNode + sz)
                  (new_header junk m n sz)) Next n (n + sizeof_SpaceNode + sz), 0)
     else (put (put m Free n 0) Size n sz, 0))"
proof -
  let ?rest = "get m Size n - sz"
  have rest: "sub64 (get m Size n) sz = ?rest"
    using assms by (intro sub64_le) simp_all
  have "?rest < 2 ^ 31" using assms(3) by simp
  then have "s32 ?rest = int ?rest" "u64 (int ?rest) = ?rest" "u32 (int ?rest) = ?rest"
    by (simp_all add: cint_simps)
  with rest assms show ?thesis
    by (simp add: createSpace_def new_header_def Let_def)
qed

lemma createSpace_rep:
  assumes rep: "rep m p (xs @ (n, True, s) # ys)"
    and ap: "\<And>b. b \<in> set xs \<union> set ys \<Longrightarrow> napart n (fst b)"
    and apq: "\<And>b. b \<in> set xs \<union> set ys \<Longrightarrow> s - sz > sizeof_SpaceNode \<Longrightarrow>
        napart (n + sizeof_SpaceNode + sz) (fst b)"
    and sz: "sz \<le> s" and s: "s < 2 ^ 31" and top: "n + sizeof_SpaceNode + s < 2 ^ 64"
  shows "rep (fst (createSpace junk m n sz)) p (xs @ split_block n s sz @ ys)"
    and "snd (createSpace junk m n sz) = 0"
    and "get (fst (createSpace junk m n sz)) Prev n = get m Prev n"
    and "\<And>b f. b \<in> set xs \<union> set ys \<Longrightarrow>
      get (fst (createSpace junk m n sz)) f (fst b) = get m f (fst b)"
proof -
  have blk: "get m Free n \<noteq> 0" "get m Size n = s" "get m Start n = n + 56" "n \<noteq> 0"
    using rep_block [OF rep, of n True s] rep_nonzero [OF rep, of "(n, True, s)"] by auto
  let ?q = "n + 56 + sz"
  note form = createSpace_free [of m n sz junk]
  show "snd (createSpace junk m n sz) = 0"
    using form blk sz s by (auto split: if_splits)
  have nq: "napart ?q n" by (simp add: apart_def)
  show "get (fst (createSpace junk m n sz)) Prev n = get m Prev n"
    using form blk sz s nq by simp
  define m' where "m' = fst (createSpace junk m n sz)"
  have other: "get m' f (fst b) = get m f (fst b)" if "b \<in> set xs \<union> set ys" for f b
    using form blk sz s ap [OF that] apq [OF that] by (simp add: m'_def)
  then show "get (fst (createSpace junk m n sz)) f (fst b) = get m f (fst b)"
    if "b \<in> set xs \<union> set ys" for f b
    using that by (simp add: m'_def)
  have at_n: "get m' Free n = 0" "get m' Size n = sz" "get m' Start n = n + 56"
    "get m' Next n = (if s - sz > 56 then ?q else get m Next n)"
    using form blk sz s top nq by (simp_all add: m'_def)
  have at_q: "get m' Free ?q \<noteq> 0" "get m' Size ?q = s - sz" "get m' Start ?q = ?q + 56"
    "get m' Next ?q = get m Next n" if "s - sz > 56"
    using form blk sz s top nq that get_less [of m Next n]
    by (simp_all add: m'_def new_header_def)
  have tail: "rep m' (get m Next n) ys"
  proof -
    have "rep m (get m Next n) ys" using rep_append [OF rep] by simp
    then show ?thesis using rep_cong [of ys m' m] other by auto
  qed
  have mid: "rep m' n (split_block n s sz @ ys)"
    using tail at_n at_q blk by (auto simp: split_block_def)
  have "rep m' p (us @ split_block n s sz @ ys)"
    if "rep m p (us @ (n, True, s) # ys)" "set us \<subseteq> set xs" for us p
    using that
  proof (induction us arbitrary: p)
    case Nil
    then show ?case using mid by simp
  next
    case (Cons b us)
    obtain a fr t where b: "b = (a, fr, t)" by (cases b)
    have "get m' f a = get m f a" for f using other [of b] Cons.prems b by auto
    with Cons b show ?case by simp
  qed
  then show "rep (fst (createSpace junk m n sz)) p (xs @ split_block n s sz @ ys)"
    using rep by (simp add: m'_def)
qed

lemma spaced_apart:
  assumes "spaced (xs @ (n, fr, s) # ys)" "b \<in> set xs \<union> set ys"
  shows "napart n (fst b)"
    and "s - sz > sizeof_SpaceNode \<Longrightarrow> napart (n + sizeof_SpaceNode + sz) (fst b)"
proof -
  have "claimed_end b \<le> n \<or> n + sizeof_SpaceNode + s \<le> fst b"
    using assms by (auto simp: spaced_append spaced_Cons)
  then show "napart n (fst b)"
    and "s - sz > sizeof_SpaceNode \<Longrightarrow> napart (n + sizeof_SpaceNode + sz) (fst b)"
    by (auto simp: apart_def)
qed

lemma getFreeElementFrom_hit:
  assumes rep: "rep m p (xs @ (n, True, s) # ys)" and nofit: "\<forall>b\<in>set xs. \<not> fits sz b"
    and ap: "\<And>b. b \<in> set xs \<union> set ys \<Longrightarrow> napart n (fst b)"
    and apq: "\<And>b. b \<in> set xs \<union> set ys \<Longrightarrow> s - sz > sizeof_SpaceNode \<Longrightarrow>
        napart (n + sizeof_SpaceNode + sz) (fst b)"
    and sz: "sz \<le> s" and s: "s < 2 ^ 31" and top: "n + sizeof_SpaceNode + s < 2 ^ 64"
  shows "\<exists>m'. getFreeElementFrom junk m p sz = retn (m', n + sizeof_SpaceNode) \<and>
    rep m' p (xs @ split_block n s sz @ ys) \<and>
    (\<forall>b\<in>set (xs @ (n, True, s) # ys). get m' Prev (fst b) = get m Prev (fst b))"
proof -
  note cr = createSpace_rep [OF rep ap apq sz s top, where junk = junk]
  define m' where "m' = fst (createSpace junk m n sz)"
  have "find (fits sz) (xs @ (n, True, s) # ys) = Some (n, True, s)"
    by (rule find_split) (use nofit sz in \<open>auto simp: fits_def\<close>)
  then have "findFreeSpace m p sz = retn n" using findFreeSpace_rep [OF rep, of sz] by simp
  moreover have "n \<noteq> 0" using rep_nonzero [OF rep, of "(n, True, s)"] by simp
  moreover have "get m' Start n = n + 56"
  proof -
    have "(n, False, sz) \<in> set (xs @ split_block n s sz @ ys)" by (simp add: split_block_def)
    then show ?thesis using rep_block [OF cr(1), of n False sz] by (auto simp: m'_def)
  qed
  moreover have "createSpace junk m n sz = (m', 0)" using cr(2) by (simp add: m'_def prod_eq_iff)
  ultimately have "getFreeElementFrom junk m p sz = retn (m', n + 56)"
    by (simp add: getFreeElementFrom_def)
  with cr(1,3,4) show ?thesis by (auto simp: m'_def)
qed

lemma getFreeElementFrom_rep:
  assumes rep: "rep m p bs" and sp: "spaced bs"
    and small: "\<forall>b\<in>set bs. snd (snd b) < 2 ^ 31 \<and> claimed_end b < 2 ^ 64"
  shows "case first_fit sz bs of
      None \<Rightarrow> getFreeElementFrom junk m p sz = retn (m, 0)
    | Some (bs', r) \<Rightarrow> \<exists>m'. getFreeElementFrom junk m p sz = retn (m', r) \<and> rep m' p bs'"
proof (cases "first_fit sz bs")
  case None
  then have "find (fits sz) bs = None" by (simp add: first_fit_None find_None_iff)
  then show ?thesis
    using None findFreeSpace_rep [OF rep, of sz] by (simp add: getFreeElementFrom_def)
next
  case (Some br)
  obtain bs' r where br: "br = (bs', r)" by (cases br)
  with Some obtain xs a s ys where *: "bs = xs @ (a, True, s) # ys" "sz \<le> s"
    "\<forall>b\<in>set xs. \<not> fits sz b" "bs' = xs @ split_block a s sz @ ys" "r = a + 56"
    by (auto simp: first_fit_Some)
  have s: "s < 2 ^ 31" "a + 56 + s < 2 ^ 64" using small *(1) by auto
  note ap = spaced_apart [OF sp [unfolded *(1)]]
  have "\<exists>m'. getFreeElementFrom junk m p sz = retn (m', a + 56) \<and>
      rep m' p (xs @ split_block a s sz @ ys) \<and>
      (\<forall>b\<in>set (xs @ (a, True, s) # ys). get m' Prev (fst b) = get m Prev (fst b))"
    by (rule getFreeElementFrom_hit [OF rep [unfolded *(1)] *(3) ap(1) ap(2) *(2) s])
  then show ?thesis using Some br * by auto
qed

end
