(* ===== verification/Space_Alloc.thy ===== *)
theory Space_Alloc
  imports Space_List
begin

text \<open>
  What the allocator of vm.c guarantees to its callers and where it does not: sequences of
  allocations from a fresh region, freeing with coalescing, and the space accounting of
  both. These lemmas are used for the OS region, the shared region and thread pages alike,
  since all three are lists of spaces.
\<close>

section \<open>Fresh regions\<close>

lemma initializeSpace_rep:
  assumes "space \<noteq> 0" "sizeof_SpaceNode \<le> sz" "sz < 2 ^ 32" "space + sizeof_SpaceNode < 2 ^ 64"
  shows "rep (initializeSpace junk m space sz) space [(space, True, sz - sizeof_SpaceNode)]"
    and "get (initializeSpace junk m space sz) Prev space = 0"
proof -
  have "sub64 sz 56 = sz - 56" using assms by (intro sub64_le) simp_all
  with assms show "rep (initializeSpace junk m space sz) space [(space, True, sz - 56)]"
    and "get (initializeSpace junk m space sz) Prev space = 0"
    by (simp_all add: initializeSpace_def)
qed

text \<open>
  In a region that has only been allocated from, every block but the last is in use. A
  request can only be served by the last block.
\<close>

definition bump :: "block list \<Rightarrow> bool" where
  "bump bs \<longleftrightarrow> bs \<noteq> [] \<and> spaced bs \<and> (\<forall>b\<in>set (butlast bs). \<not> fst (snd b))"

lemma bump_snoc: "bump (xs @ [(a, fr, s)]) \<longleftrightarrow>
    spaced xs \<and> (\<forall>b\<in>set xs. claimed_end b \<le> a \<and> \<not> fst (snd b))"
  by (auto simp: bump_def spaced_append) (simp add: spaced_def)+

lemma bump_first_fit:
  assumes "bump bs" "first_fit sz bs = Some (bs', r)"
  obtains xs a s where "bs = xs @ [(a, True, s)]" "sz \<le> s" "r = a + sizeof_SpaceNode"
    "bs' = xs @ split_block a s sz" "bump bs'"
proof -
  obtain ys a fr s where bs: "bs = ys @ [(a, fr, s)]"
    using assms(1) by (metis bump_def append_butlast_last_id prod_cases3)
  from assms(2) obtain xs a' s' zs where *: "bs = xs @ (a', True, s') # zs" "sz \<le> s'"
    "bs' = xs @ split_block a' s' sz @ zs" "r = a' + 56" by (auto simp: first_fit_Some)
  have "zs = []"
  proof (rule ccontr)
    assume "zs \<noteq> []"
    then have "(a', True, s') \<in> set (butlast bs)" using *(1) by (simp add: butlast_append)
    then show False using assms(1) by (auto simp: bump_def)
  qed
  moreover have "bump bs'"
    using assms(1) * \<open>zs = []\<close>
    by (auto simp: bump_def split_block_def spaced_append spaced_Cons butlast_append)
  ultimately show thesis using that * by simp
qed

section \<open>Sequences of allocations\<close>

fun alloc_all ::
  "SpaceNode \<Rightarrow> memory \<Rightarrow> addr \<Rightarrow> nat list \<Rightarrow> (memory \<times> (addr \<times> nat) list) ret" where
  "alloc_all junk m p [] = retn (m, [])"
| "alloc_all junk m p (sz # szs) =
     bindR (getFreeElementFrom junk m p sz) (\<lambda>(m', r).
       bindR (alloc_all junk m' p szs) (\<lambda>(m'', rs). retn (m'', (r, sz) # rs)))"

definition granted :: "(addr \<times> nat) list \<Rightarrow> (addr \<times> nat) list" where
  "granted rs = filter (\<lambda>(r, _). r \<noteq> 0) rs"

abbreviation in_order :: "(addr \<times> nat) list \<Rightarrow> bool" where
  "in_order \<equiv> sorted_wrt (\<lambda>(r, s) (r', _). r + s + sizeof_SpaceNode \<le> r')"

definition grants_within :: "nat \<Rightarrow> nat \<Rightarrow> (addr \<times> nat) list \<Rightarrow> bool" where
  "grants_within lo hi rs \<longleftrightarrow> (\<forall>(r, s)\<in>set (granted rs). lo \<le> r \<and> r + s \<le> hi)"

lemma granted_simps [simp]:
  "granted [] = []"
  "granted ((r, s) # rs) = (if r = 0 then granted rs else (r, s) # granted rs)"
  by (simp_all add: granted_def)

lemma grants_within_simps [simp]:
  "grants_within lo hi []"
  "grants_within lo hi ((r, s) # rs) \<longleftrightarrow>
     (r \<noteq> 0 \<longrightarrow> lo \<le> r \<and> r + s \<le> hi) \<and> grants_within lo hi rs"
  by (auto simp: grants_within_def)

lemma grants_within_mono:
  "grants_within lo hi rs \<Longrightarrow> lo' \<le> lo \<Longrightarrow> hi \<le> hi' \<Longrightarrow> grants_within lo' hi' rs"
  by (fastforce simp: grants_within_def)

lemma alloc_all_none:
  assumes "rep m p bs" "\<forall>b\<in>set bs. \<not> fst (snd b)"
  shows "alloc_all junk m p szs = retn (m, map (Pair 0) szs)"
proof (induction szs)
  case Nil
  then show ?case by simp
next
  case (Cons sz szs)
  have "find (fits sz) bs = None" using assms(2) by (auto simp: find_None_iff fits_def)
  then show ?case
    using findFreeSpace_rep [OF assms(1), of sz] Cons by (simp add: getFreeElementFrom_def)
qed

lemma spaced_claims:
  assumes "spaced (xs @ [(a, fr, s)])" "b \<in> set xs"
  shows "claimed_end b \<le> a"
  using assms by (auto simp: spaced_append)

lemma alloc_all_bump:
  assumes "rep m p bs" "bump bs" "\<forall>b\<in>set bs. snd (snd b) < 2 ^ 31"
    and "claimed_end (last bs) + sizeof_SpaceNode * length szs < 2 ^ 64"
  shows "\<exists>m' rs. alloc_all junk m p szs = retn (m', rs) \<and> map snd rs = szs \<and>
     in_order (granted rs) \<and>
     grants_within (fst (last bs) + sizeof_SpaceNode)
       (claimed_end (last bs) + sizeof_SpaceNode * length szs) rs"
  using assms
proof (induction szs arbitrary: m bs)
  case Nil
  then show ?case by simp
next
  case (Cons sz szs)
  have sp: "spaced bs" and ne: "bs \<noteq> []" using Cons.prems(2) by (auto simp: bump_def)
  have ends: "claimed_end b < 2 ^ 64" if "b \<in> set bs" for b
  proof -
    obtain xs a fr s where bs: "bs = xs @ [(a, fr, s)]"
      using ne by (metis append_butlast_last_id prod_cases3)
    show ?thesis
    proof (cases "b \<in> set xs")
      case True
      then have "claimed_end b \<le> a" using spaced_claims sp bs by blast
      then show ?thesis using Cons.prems(4) bs by simp
    next
      case False
      then show ?thesis using that Cons.prems(4) bs by auto
    qed
  qed
  note step = getFreeElementFrom_rep [OF Cons.prems(1) sp, where sz = sz and junk = junk]
  show ?case
  proof (cases "first_fit sz bs")
    case None
    then have "getFreeElementFrom junk m p sz = retn (m, 0)"
      using step Cons.prems(3) ends by simp
    moreover from Cons.prems obtain m' rs where IH: "alloc_all junk m p szs = retn (m', rs)"
      "map snd rs = szs" "in_order (granted rs)"
      "grants_within (fst (last bs) + 56) (claimed_end (last bs) + 56 * length szs) rs"
      using Cons.IH [of m bs] by auto
    moreover have
      "grants_within (fst (last bs) + 56) (claimed_end (last bs) + 56 * length (sz # szs)) rs"
      by (rule grants_within_mono [OF IH(4)]) simp_all
    ultimately show ?thesis by simp
  next
    case (Some br)
    obtain bs' r where br: "br = (bs', r)" by (cases br)
    from Some br Cons.prems(2) obtain xs a s where bs: "bs = xs @ [(a, True, s)]" "sz \<le> s"
      "r = a + 56" "bs' = xs @ split_block a s sz" "bump bs'"
      by (auto elim: bump_first_fit)
    from step Some br Cons.prems(3) ends obtain m1 where
      m1: "getFreeElementFrom junk m p sz = retn (m1, r)" "rep m1 p bs'" by auto
    have lst: "fst (last bs') + 56 \<ge> a + 56" "claimed_end (last bs') \<le> claimed_end (last bs) + 56"
      using bs by (auto simp: split_block_def)
    have small: "\<forall>b\<in>set bs'. snd (snd b) < 2 ^ 31"
      using Cons.prems(3) bs by (auto simp: split_block_def)
    have "claimed_end (last bs') + 56 * length szs < 2 ^ 64" using lst Cons.prems(4) by simp
    then obtain m' rs where rest: "alloc_all junk m1 p szs = retn (m', rs)"
      "map snd rs = szs" "in_order (granted rs)"
      "grants_within (fst (last bs') + 56) (claimed_end (last bs') + 56 * length szs) rs"
      using Cons.IH [OF m1(2) bs(5) small] by auto
    have after: "r + sz + 56 \<le> r'" if "(r', s') \<in> set (granted rs)" for r' s'
    proof (cases "s - sz > 56")
      case True
      then have "fst (last bs') = r + sz" using bs by (simp add: split_block_def)
      then show ?thesis using rest(4) that by (auto simp: grants_within_def)
    next
      case False
      then have "\<forall>b\<in>set bs'. \<not> fst (snd b)"
        using bs Cons.prems(2) by (auto simp: split_block_def bump_snoc)
      then have "rs = map (Pair 0) szs" using rest(1) alloc_all_none [OF m1(2), of junk szs] by simp
      then have "granted rs = []" by (simp add: granted_def filter_empty_conv)
      then show ?thesis using that by simp
    qed
    have "grants_within (fst (last bs) + 56) (claimed_end (last bs) + 56 * length (sz # szs)) rs"
      by (rule grants_within_mono [OF rest(4)]) (use lst bs in simp_all)
    moreover have "r \<noteq> 0" "r + sz \<le> claimed_end (last bs)" "fst (last bs) + 56 \<le> r"
      using bs by auto
    moreover have "alloc_all junk m p (sz # szs) = retn (m', (r, sz) # rs)"
      using m1(1) rest(1) by simp
    moreover have "in_order (granted ((r, sz) # rs))"
      using rest(3) after \<open>r \<noteq> 0\<close> by auto
    ultimately show ?thesis using rest(2) by (auto simp del: alloc_all.simps granted_simps)
  qed
qed

section \<open>Freeing\<close>

text \<open>
  \<open>release\<close> is what \<open>removeSpace\<close> does to a list whose \<open>prev\<close> pointers are right: it
  joins the freed block with a free neighbour, but the size it writes leaves out the size
  of the block that absorbs the others.
\<close>

definition release :: "block list \<Rightarrow> block \<Rightarrow> block list \<Rightarrow> block list" where
  "release xs b ys =
     (case b of (n, _, s) \<Rightarrow>
       if xs \<noteq> [] \<and> fst (snd (last xs)) then
         (if ys \<noteq> [] \<and> fst (snd (hd ys))
          then butlast xs @ (fst (last xs), True, s + snd (snd (hd ys)) + 2 * sizeof_SpaceNode) # tl ys
          else butlast xs @ (fst (last xs), True, s + sizeof_SpaceNode) # ys)
       else
         (if ys \<noteq> [] \<and> fst (snd (hd ys))
          then xs @ (n, True, snd (snd (hd ys)) + sizeof_SpaceNode) # tl ys
          else xs @ (n, True, s) # ys))"

text \<open>
  Nothing keeps the \<open>prev\<close> pointers right: a split does not set that of the block behind the new one. \<open>release_prev xs vs b ys\<close> is what
  freeing \<open>b\<close> does to the list \<open>xs @ vs @ b # ys\<close> when the \<open>prev\<close> pointer of \<open>b\<close> names the last block of \<open>xs\<close>, or nothing when \<open>xs\<close>
  is empty. If that block is free, the blocks \<open>vs\<close> between them leave the list.
\<close>

definition release_prev :: "block list \<Rightarrow> block list \<Rightarrow> block \<Rightarrow> block list \<Rightarrow> block list" where
  "release_prev xs vs b ys =
     (if xs \<noteq> [] \<and> fst (snd (last xs)) then release xs b ys else xs @ vs @ release [] b ys)"

lemma release_prev_right: "release_prev xs [] b ys = release xs b ys"
  by (auto simp: release_prev_def release_def split: prod.split)

definition hdrs_apart :: "block list \<Rightarrow> bool" where
  "hdrs_apart bs \<longleftrightarrow> sorted_wrt (\<lambda>b c. napart (fst b) (fst c)) bs"

lemma spaced_hdrs_apart: "spaced bs \<Longrightarrow> hdrs_apart bs"
  unfolding spaced_def hdrs_apart_def by (erule sorted_wrt_mono_rel [rotated]) (auto simp: apart_def)

lemma hdrs_apart_split:
  "hdrs_apart (xs @ b # ys) \<Longrightarrow> c \<in> set xs \<union> set ys \<Longrightarrow> napart (fst b) (fst c)"
  by (auto simp: hdrs_apart_def sorted_wrt_append apart_sym)

lemma removeSpace_null: "removeSpace m 0 ty = fail NullDeref"
  by (simp add: removeSpace_def)

lemma removeSpace_double_free:
  "get m Free n \<noteq> 0 \<Longrightarrow> n \<noteq> 0 \<Longrightarrow> removeSpace m (n + sizeof_SpaceNode) ELEMENT = retn m"
  by (simp add: removeSpace_def)

lemma removeSpace_page:
  "n \<noteq> 0 \<Longrightarrow> removeSpace m n PAGE =
     retn (if get m Free n \<noteq> 0 then m else put (put m Free n 1) Pid n 0)"
  by (simp add: removeSpace_def Let_def)

lemma removeSpace_element:
  assumes "n \<noteq> 0" "get m Free n = 0" and m2: "m2 = put (put m Free n 1) Pid n 0"
    and a: "a = get m Prev n" and b: "b = get m Next n"
  shows "removeSpace m (n + sizeof_SpaceNode) ELEMENT = retn
    (if a \<noteq> 0 \<and> get m2 Free a \<noteq> 0 then
       (if b \<noteq> 0 \<and> get m2 Free b \<noteq> 0
        then let m3 = put m2 Size a (get m2 Size n + get m2 Size b + 2 * sizeof_SpaceNode)
             in put m3 Next a (get m3 Next b)
        else let m3 = put m2 Size a (get m2 Size n + sizeof_SpaceNode)
             in put m3 Next a (get m3 Next n))
     else
       (if b \<noteq> 0 \<and> get m2 Free b \<noteq> 0
        then let m3 = put m2 Size n (get m2 Size b + sizeof_SpaceNode)
             in put m3 Next n (get m3 Next b)
        else m2))"
  using assms(1,2) unfolding removeSpace_def a b m2 Let_def
  by (simp del: get_put_same get_put_apart One_nat_def)

text \<open>Joining the freed block with the block behind it, if that is free, or with none.\<close>

lemma join_right:
  assumes seg: "lseg m2 p xs n" and tail: "rep m2 (get m2 Next n) ys" and ap: "\<And>c. c \<in> set xs \<union> set ys \<Longrightarrow> napart n (fst c)"
    and n: "n \<noteq> 0" "get m2 Free n = 1" "get m2 Size n = s" "get m2 Start n = n + sizeof_SpaceNode"
    and sizes: "(if ys = [] then 0 else snd (snd (hd ys))) + sizeof_SpaceNode < 2 ^ 32" and b: "b = get m2 Next n"
  shows "rep (if b \<noteq> 0 \<and> get m2 Free b \<noteq> 0
      then let m3 = put m2 Size n (get m2 Size b + sizeof_SpaceNode) in put m3 Next n (get m3 Next b) else m2) p
    (xs @ release [] (n, False, s) ys)"
proof (cases "ys \<noteq> [] \<and> fst (snd (hd ys))")
  case True
  then obtain u vs where ys: "ys = (b, True, u) # vs" using tail b by (cases ys) auto
  have b: "b \<noteq> 0" "get m2 Free b \<noteq> 0" "get m2 Size b = u" "rep m2 (get m2 Next b) vs" "napart n b"
    using tail b ys ap [of "(b, True, u)"] by auto
  let ?m = "put (put m2 Size n (u + 56)) Next n (get m2 Next b)"
  have other: "get ?m f (fst c) = get m2 f (fst c)" if "c \<in> set xs \<union> set vs" for f c
    using ap [of c] that ys by auto
  have "lseg ?m p xs n" using seg lseg_cong [of xs ?m m2] other by auto
  moreover have "rep ?m (get m2 Next b) vs" using b rep_cong [of vs ?m m2] other by auto
  ultimately have "rep ?m p (xs @ (n, True, u + 56) # vs)"
    using n sizes ys get_less [of m2 Next b] by (auto simp: rep_lseg)
  then show ?thesis using b ys by (simp add: release_def Let_def)
next
  case False
  then have "\<not> (b \<noteq> 0 \<and> get m2 Free b \<noteq> 0)" using tail b by (cases ys) auto
  moreover have "rep m2 p (xs @ (n, True, s) # ys)" using seg tail n by (auto simp: rep_lseg)
  ultimately show ?thesis using False by (auto simp: release_def)
qed

text \<open>Joining the freed block with a free block \<open>a\<close> before it.\<close>

lemma join_left:
  assumes seg: "lseg m2 p us a" and tail: "rep m2 (get m2 Next n) ys" and ap: "\<And>c. c \<in> set us \<union> set ys \<Longrightarrow> napart a (fst c)" "napart n a"
    and a: "a \<noteq> 0" "get m2 Free a \<noteq> 0" "get m2 Start a = a + sizeof_SpaceNode" and n: "get m2 Size n = s"
    and sizes: "s + (if ys = [] then 0 else snd (snd (hd ys))) + 2 * sizeof_SpaceNode < 2 ^ 32" and b: "b = get m2 Next n"
  shows "rep (if b \<noteq> 0 \<and> get m2 Free b \<noteq> 0
      then let m3 = put m2 Size a (get m2 Size n + get m2 Size b + 2 * sizeof_SpaceNode) in put m3 Next a (get m3 Next b)
      else let m3 = put m2 Size a (get m2 Size n + sizeof_SpaceNode) in put m3 Next a (get m3 Next n)) p
    (release (us @ [(a, True, t)]) (n, False, s) ys)"
proof -
  have merge: "rep (put (put m2 Size a z) Next a q) p (us @ (a, True, z) # zs)"
    if "z < 2 ^ 32" "rep m2 q zs" "set zs \<subseteq> set ys" "q < 2 ^ 64" for z q zs
  proof -
    let ?m = "put (put m2 Size a z) Next a q"
    have other: "get ?m f (fst c) = get m2 f (fst c)" if "c \<in> set us \<union> set zs" for f c
      using ap(1) [of c] that \<open>set zs \<subseteq> set ys\<close> by auto
    have "lseg ?m p us a" using seg lseg_cong [of us ?m m2] other by auto
    moreover have "rep ?m q zs" using that(2) rep_cong [of zs ?m m2] other by auto
    ultimately show ?thesis using a that by (auto simp: rep_lseg)
  qed
  show ?thesis
  proof (cases "ys \<noteq> [] \<and> fst (snd (hd ys))")
    case True
    then obtain u vs where ys: "ys = (b, True, u) # vs" using tail b by (cases ys) auto
    have b: "b \<noteq> 0" "get m2 Free b \<noteq> 0" "get m2 Size b = u" "rep m2 (get m2 Next b) vs"
      using tail b ys by auto
    have "get (put m2 Size a v) Next b = get m2 Next b" for v using ap(1) [of "(b, True, u)"] ys by simp
    moreover have "rep (put (put m2 Size a (s + u + 112)) Next a (get m2 Next b)) p (us @ (a, True, s + u + 112) # vs)"
      by (rule merge) (use sizes ys b get_less [of m2 Next b] in auto)
    ultimately show ?thesis using b ys n by (simp add: release_def Let_def)
  next
    case False
    then have "\<not> (b \<noteq> 0 \<and> get m2 Free b \<noteq> 0)" using tail b by (cases ys) auto
    moreover have "get (put m2 Size a v) Next n = get m2 Next n" for v using ap(2) by simp
    moreover have "rep (put (put m2 Size a (s + 56)) Next a (get m2 Next n)) p (us @ (a, True, s + 56) # ys)"
      by (rule merge) (use sizes tail get_less [of m2 Next n] in auto)
    ultimately show ?thesis using False n by (auto simp: release_def Let_def)
  qed
qed

lemma removeSpace_rep_prev:
  assumes rep: "rep m p (xs @ vs @ (n, False, s) # ys)"
    and ap: "hdrs_apart (xs @ vs @ (n, False, s) # ys)"
    and prv: "get m Prev n = (if xs = [] then 0 else fst (last xs))"
    and sizes: "s + (if ys = [] then 0 else snd (snd (hd ys))) + 2 * sizeof_SpaceNode < 2 ^ 32"
  shows "\<exists>m'. removeSpace m (n + sizeof_SpaceNode) ELEMENT = retn m' \<and>
    rep m' p (release_prev xs vs (n, False, s) ys)"
proof -
  have rep': "rep m p ((xs @ vs) @ (n, False, s) # ys)" using rep by simp
  have n: "get m Free n = 0" "get m Size n = s" "get m Start n = n + 56" "n \<noteq> 0"
    using rep_block [OF rep, of n False s] rep_nonzero [OF rep, of "(n, False, s)"] by auto
  have apn: "napart n (fst c)" if "c \<in> set (xs @ vs) \<union> set ys" for c
    using hdrs_apart_split [of "xs @ vs" "(n, False, s)" ys c] ap that by simp
  define m2 where "m2 = put (put m Free n 1) Pid n 0"
  have m2: "get m2 f (fst c) = get m f (fst c)" if "c \<in> set (xs @ vs) \<union> set ys" for f c
    using apn [OF that] by (simp add: m2_def)
  have m2n: "get m2 Free n = 1" "get m2 Size n = s" "get m2 Start n = n + 56" "get m2 Next n = get m Next n"
    using n by (simp_all add: m2_def)
  have "lseg m p (xs @ vs) n" and post: "rep m (get m Next n) ys" using rep' unfolding rep_lseg [of m p "xs @ vs"] by auto
  then have seg: "lseg m2 p (xs @ vs) n" using lseg_cong [of "xs @ vs" m2 m p n] m2 by blast
  have tail: "rep m2 (get m2 Next n) ys" unfolding m2n(4) using post rep_cong [of ys m2 m] m2 by blast
  show ?thesis
  proof (cases "xs \<noteq> [] \<and> fst (snd (last xs))")
    case True
    then obtain us a t where xs: "xs = us @ [(a, True, t)]" by (metis append_butlast_last_id prod.collapse)
    have a: "a \<noteq> 0" "get m2 Free a \<noteq> 0" "get m2 Start a = a + 56" "lseg m2 p us a" "napart n a"
      using seg apn [of "(a, True, t)"] xs by (auto simp: lseg_append)
    have apa: "napart a (fst c)" if "c \<in> set us \<union> set ys" for c
      using hdrs_apart_split [of us "(a, True, t)" "vs @ (n, False, s) # ys" c] ap xs that by auto
    have "a = get m Prev n" using prv xs by simp
    note remove = removeSpace_element [OF n(4) n(1) m2_def this m2n(4)]
    have "release_prev xs vs (n, False, s) ys = release (us @ [(a, True, t)]) (n, False, s) ys"
      using True xs by (simp add: release_prev_def)
    moreover note join_left [OF a(4) tail apa a(5,1-3) m2n(2) sizes refl, of t]
    ultimately show ?thesis using a(1,2) unfolding remove by (simp only: simp_thms if_True not_False_eq_True) blast
  next
    case False
    then have "\<not> (get m Prev n \<noteq> 0 \<and> get m2 Free (get m Prev n) \<noteq> 0)"
      using seg prv by (cases xs rule: rev_cases) (auto simp: lseg_append)
    note this removeSpace_element [OF n(4) n(1) m2_def refl m2n(4)]
    moreover have "(if ys = [] then 0 else snd (snd (hd ys))) + sizeof_SpaceNode < 2 ^ 32" using sizes by simp
    note join_right [OF seg tail apn n(4) m2n(1-3) this refl]
    moreover have "release_prev xs vs (n, False, s) ys = (xs @ vs) @ release [] (n, False, s) ys"
      unfolding release_prev_def if_not_P [OF False] by simp
    ultimately show ?thesis by (simp only: if_False) blast
  qed
qed

lemmas removeSpace_rep = removeSpace_rep_prev [where vs = "[]", simplified release_prev_right append_Nil]

text \<open>A \<open>prev\<close> pointer to a header that has left the list.\<close>

lemma removeSpace_rep_stray:
  assumes rep: "rep m p (xs @ (n, False, s) # ys)" and ap: "hdrs_apart (xs @ (n, False, s) # ys)"
    and a: "a = get m Prev n" "a \<noteq> 0" "\<forall>c\<in>set (xs @ (n, False, s) # ys). napart a (fst c)"
    and sizes: "s + (if ys = [] then 0 else snd (snd (hd ys))) + 2 * sizeof_SpaceNode < 2 ^ 32"
  shows "\<exists>m'. removeSpace m (n + sizeof_SpaceNode) ELEMENT = retn m' \<and>
    rep m' p (xs @ (if get m Free a \<noteq> 0 then (n, True, s) # ys else release [] (n, False, s) ys))"
proof -
  have n: "get m Free n = 0" "get m Size n = s" "get m Start n = n + 56" "n \<noteq> 0"
    using rep_block [OF rep, of n False s] rep_nonzero [OF rep, of "(n, False, s)"] by auto
  have apn: "napart n (fst c)" if "c \<in> set xs \<union> set ys" for c using hdrs_apart_split [OF ap that] by simp
  define m2 where "m2 = put (put m Free n 1) Pid n 0"
  have m2: "get m2 f (fst c) = get m f (fst c)" if "c \<in> set xs \<union> set ys" for f c
    using apn [OF that] by (simp add: m2_def)
  have m2n: "get m2 Free n = 1" "get m2 Size n = s" "get m2 Start n = n + 56" "get m2 Next n = get m Next n"
    using n by (simp_all add: m2_def)
  have seg: "lseg m2 p xs n" using rep lseg_cong [of xs m2 m p n] m2 by (auto simp: rep_lseg)
  have tail: "rep m2 (get m2 Next n) ys" using rep rep_cong [of ys m2 m] m2 by (auto simp: m2n(4) rep_lseg)
  have fa: "get m2 Free a = get m Free a" using a(3) by (simp add: m2_def apart_sym)
  note remove = removeSpace_element [OF n(4) n(1) m2_def a(1) m2n(4)]
  show ?thesis
  proof (cases "get m Free a \<noteq> 0")
    case True
    have "rep m2 p (xs @ (n, True, s) # ys)" using seg tail m2n n by (auto simp: rep_lseg)
    moreover have "get (put (put m2 Size a x) Next a q) f (fst c) = get m2 f (fst c)"
      if "c \<in> set (xs @ (n, True, s) # ys)" for c f x q
    proof -
      have "napart a (fst c)" using a(3) that by auto
      then show ?thesis by simp
    qed
    ultimately have "rep (put (put m2 Size a x) Next a q) p (xs @ (n, True, s) # ys)" for x q
      using rep_cong [of "xs @ (n, True, s) # ys" "put (put m2 Size a x) Next a q" m2] by blast
    then show ?thesis using True a(2) fa remove by (simp add: Let_def)
  next
    case False
    have "(if ys = [] then 0 else snd (snd (hd ys))) + sizeof_SpaceNode < 2 ^ 32" using sizes by simp
    note join_right [OF seg tail apn n(4) m2n(1-3) this refl]
    then show ?thesis using False a(2) fa unfolding remove by (simp only: simp_thms if_False not_False_eq_True) blast
  qed
qed

section \<open>Properties\<close>

text \<open>
  C3. Allocations from a fresh region. Any sequence of requests to a region that
  \<open>initializeSpace\<close> has set up returns normally; the blocks granted do not overlap, each
  has room for its own header before it, and all of them lie above the region's first
  header and below its end plus 56 bytes per request.
\<close>

theorem allocations_disjoint:
  assumes "space \<noteq> 0" "sizeof_SpaceNode \<le> sz" "sz < 2 ^ 31"
    and "space + sz + sizeof_SpaceNode * length szs < 2 ^ 64"
  shows "\<exists>m' rs. alloc_all junk (initializeSpace junk m space sz) space szs = retn (m', rs) \<and>
     map snd rs = szs \<and> in_order (granted rs) \<and>
     grants_within (space + sizeof_SpaceNode)
       (space + sz + sizeof_SpaceNode * length szs) rs"
proof -
  have "rep (initializeSpace junk m space sz) space [(space, True, sz - 56)]"
    by (rule initializeSpace_rep) (use assms in auto)
  moreover have "bump [(space, True, sz - 56)]" by (simp add: bump_def spaced_def)
  moreover have "claimed_end (last [(space, True, sz - 56)]) = space + sz" using assms(2) by simp
  moreover have "\<forall>b\<in>set [(space, True, sz - 56)]. snd (snd b) < 2 ^ 31" using assms(3) by simp
  ultimately show ?thesis
    using alloc_all_bump [where szs = szs and junk = junk] assms(4)
    by (metis (no_types, lifting) fst_conv last.simps)
qed

theorem allocations_disjoint_witness:
  "\<exists>m' rs. alloc_all zero_node (initializeSpace zero_node zero_memory 4096 1000) 4096 [100, 200]
      = retn (m', rs) \<and> map snd rs = [100, 200] \<and> in_order (granted rs) \<and>
     grants_within 4152 (4096 + 1000 + 112) rs"
  using allocations_disjoint [of 4096 1000 "[100, 200]" zero_node zero_memory] by simp

text \<open>
  C13. \<open>getFreeElementFrom\<close> is first fit. On a list of spaces whose blocks do not overlap it
  returns \<open>NULL\<close> and leaves memory alone exactly when no free block is large enough;
  otherwise it takes the first free block that is, marks it used with the requested size,
  puts the rest behind a new header when more than a header is left, and returns the
  payload address.
\<close>

theorem getFreeElementFrom_first_fit:
  assumes "rep m p bs" "spaced bs"
    and "\<forall>b\<in>set bs. snd (snd b) < 2 ^ 31 \<and> claimed_end b < 2 ^ 64"
  shows "case first_fit sz bs of
      None \<Rightarrow> getFreeElementFrom junk m p sz = retn (m, 0)
    | Some (bs', r) \<Rightarrow> \<exists>m'. getFreeElementFrom junk m p sz = retn (m', r) \<and> rep m' p bs'"
  by (rule getFreeElementFrom_rep [OF assms])

theorem getFreeElementFrom_first_fit_witness:
  "\<exists>m'. getFreeElementFrom zero_node (initializeSpace zero_node zero_memory 4096 1000) 4096 100 =
      retn (m', 4152) \<and> rep m' 4096 [(4096, False, 100), (4252, True, 844)]"
proof -
  have "rep (initializeSpace zero_node zero_memory 4096 1000) 4096 [(4096, True, 944)]"
    using initializeSpace_rep(1) [of 4096 1000] by simp
  moreover have "spaced [(4096, True, 944)]" by (simp add: spaced_def)
  ultimately show ?thesis
    using getFreeElementFrom_first_fit [where p = 4096 and sz = 100 and junk = zero_node and
        bs = "[(4096, True, 944)]"]
    by (simp add: split_block_def)
qed

text \<open>
  C14. \<open>removeSpace\<close> on an element, on every branch and for any \<open>prev\<close> pointer of the freed block, as long as the sizes it adds fit
  into 32 bits. If the pointer names the last block of \<open>xs\<close>, with the blocks \<open>vs\<close> between that and the freed one, or is \<open>NULL\<close> when
  \<open>xs\<close> is empty, the list becomes \<open>release_prev\<close>: the block is marked free and joined with a free block behind it and with the
  block \<open>prev\<close> names, if that is free; then the blocks \<open>vs\<close> leave the list, live ones too. If the pointer is right, \<open>vs\<close> is empty. If
  it names a header that is in no block's place, the block is only marked free when that header reads as free, and otherwise
  joined with a free block behind it.
\<close>

theorem removeSpace_release:
  assumes "rep m p (xs @ vs @ (n, False, s) # ys)" "hdrs_apart (xs @ vs @ (n, False, s) # ys)"
    and "s + (if ys = [] then 0 else snd (snd (hd ys))) + 2 * sizeof_SpaceNode < 2 ^ 32" and "a = get m Prev n"
  shows "(a = (if xs = [] then 0 else fst (last xs)) \<longrightarrow>
      (\<exists>m'. removeSpace m (n + sizeof_SpaceNode) ELEMENT = retn m' \<and> rep m' p (release_prev xs vs (n, False, s) ys))) \<and>
    (a \<noteq> 0 \<and> (\<forall>c\<in>set (xs @ vs @ (n, False, s) # ys). napart a (fst c)) \<longrightarrow>
      (\<exists>m'. removeSpace m (n + sizeof_SpaceNode) ELEMENT = retn m' \<and>
        rep m' p (xs @ vs @ (if get m Free a \<noteq> 0 then (n, True, s) # ys else release [] (n, False, s) ys))))"
proof (intro conjI impI)
  show "\<exists>m'. removeSpace m (n + sizeof_SpaceNode) ELEMENT = retn m' \<and> rep m' p (release_prev xs vs (n, False, s) ys)"
    if "a = (if xs = [] then 0 else fst (last xs))"
    by (rule removeSpace_rep_prev [OF assms(1,2) _ assms(3)]) (use that assms(4) in simp)
  show "\<exists>m'. removeSpace m (n + sizeof_SpaceNode) ELEMENT = retn m' \<and>
      rep m' p (xs @ vs @ (if get m Free a \<noteq> 0 then (n, True, s) # ys else release [] (n, False, s) ys))"
    if "a \<noteq> 0 \<and> (\<forall>c\<in>set (xs @ vs @ (n, False, s) # ys). napart a (fst c))"
    using removeSpace_rep_stray [of m p "xs @ vs" n s ys a] assms that by simp
qed

text \<open>
  Three blocks, of which the middle one is in use and the \<open>prev\<close> pointer of the last one still names the first, as after a split of
  the first one: freeing the last one takes the middle one out of the list.
\<close>

theorem removeSpace_release_witness:
  "\<exists>m m'. rep m 4096 [(4096, True, 100), (4252, False, 50), (4358, False, 60)] \<and> get m Prev 4358 = 4096 \<and>
     removeSpace m 4414 ELEMENT = retn m' \<and> rep m' 4096 [(4096, True, 116)]"
proof -
  define nd where "nd p q f z r = zero_node\<lparr>sn_start := p + sizeof_SpaceNode, sn_free := f, sn_size := z, sn_next := q, sn_prev := r\<rparr>"
    for p q f z r
  define a b c :: addr where abc: "a = 4096" "b = 4252" "c = 4358"
  define m where "m = store_node (store_node (store_node zero_memory a (nd a b 1 100 0)) b (nd b c 0 50 a)) c (nd c 0 0 60 a)"
  have f: "sn_start (nd p q f z r) = p + sizeof_SpaceNode" "sn_free (nd p q f z r) = f" "sn_size (nd p q f z r) = z"
    "sn_next (nd p q f z r) = q" "sn_prev (nd p q f z r) = r" for p q f z r by (simp_all add: nd_def)
  have ap: "napart a b" "napart a c" "napart b c" by (simp_all add: abc apart_def)
  have lt: "a \<noteq> 0" "b \<noteq> 0" "c \<noteq> 0" "a < 2 ^ 64" "b < 2 ^ 64" "c < 2 ^ 64" "a + 56 < 2 ^ 64" "b + 56 < 2 ^ 64" "c + 56 < 2 ^ 64"
    by (simp_all add: abc)
  have r: "rep m a ([(a, True, 100)] @ [(b, False, 50)] @ [(c, False, 60)])" "a = get m Prev c"
    using ap lt by (simp_all add: m_def f)
  have "hdrs_apart ([(a, True, 100)] @ [(b, False, 50)] @ [(c, False, 60)])" using ap by (simp add: hdrs_apart_def)
  from removeSpace_release [OF r(1) this _ r(2)] obtain m' where
    "removeSpace m (c + sizeof_SpaceNode) ELEMENT = retn m'" "rep m' a (release_prev [(a, True, 100)] [(b, False, 50)] (c, False, 60) [])"
    by auto
  then show ?thesis using r
    by (intro exI [of _ m] exI [of _ m']) (simp only: abc append.simps release_prev_def release_def, simp)
qed

section \<open>Where the accounting is wrong\<close>

definition total :: "block list \<Rightarrow> nat" where
  "total bs = sum_list (map (\<lambda>b. sizeof_SpaceNode + snd (snd b)) bs)"

text \<open>The bytes that \<open>removeSpace\<close> drops: the size of the block that absorbs its neighbour.\<close>

definition lost :: "block list \<Rightarrow> block \<Rightarrow> block list \<Rightarrow> nat" where
  "lost xs b ys =
     (if xs \<noteq> [] \<and> fst (snd (last xs)) then snd (snd (last xs))
      else if ys \<noteq> [] \<and> fst (snd (hd ys)) then snd (snd b) else 0)"

lemma total_append [simp]: "total (xs @ ys) = total xs + total ys"
  by (simp add: total_def)

lemma total_Cons [simp]: "total (b # bs) = sizeof_SpaceNode + snd (snd b) + total bs"
  by (simp add: total_def)

lemma total_butlast: "xs \<noteq> [] \<Longrightarrow> total xs = total (butlast xs) + (sizeof_SpaceNode + snd (snd (last xs)))"
  by (cases xs rule: rev_cases) (simp_all add: total_def)

lemma release_total: "total (release xs (n, False, s) ys) + lost xs (n, False, s) ys = total (xs @ (n, False, s) # ys)"
proof (cases "xs = []")
  case True
  then show ?thesis by (cases ys) (auto simp: release_def lost_def)
next
  case False
  then show ?thesis
    using total_butlast [OF False] by (cases ys) (auto simp: release_def lost_def)
qed

text \<open>
  Freeing does not give all bytes back. After \<open>removeSpace\<close> the list accounts for
  exactly \<open>lost\<close> bytes fewer than before: a block that absorbs a free neighbour keeps only
  the size of what it absorbed.
\<close>

theorem removeSpace_loses:
  assumes "rep m p (xs @ (n, False, s) # ys)" "hdrs_apart (xs @ (n, False, s) # ys)"
    and "get m Prev n = (if xs = [] then 0 else fst (last xs))"
    and "s + (if ys = [] then 0 else snd (snd (hd ys))) + 2 * sizeof_SpaceNode < 2 ^ 32"
  shows "\<exists>m' bs. removeSpace m (n + sizeof_SpaceNode) ELEMENT = retn m' \<and> rep m' p bs \<and>
    total bs + lost xs (n, False, s) ys = total (xs @ (n, False, s) # ys)"
  using removeSpace_rep [OF assms] release_total by blast

lemma fresh_region:
  assumes "p \<noteq> 0" "p + 1000 < 2 ^ 64"
  shows "rep (initializeSpace junk m p 1000) p ([] @ (p, True, 944) # [])"
    and "get (initializeSpace junk m p 1000) Prev p = 0"
  using initializeSpace_rep [of p 1000 junk m] assms by simp_all

lemma alloc_step:
  assumes "rep m p (xs @ (n, True, s) # ys)" "get m Prev p = 0"
    and "list_all (\<lambda>b. \<not> fits sz b) xs"
    and "list_all (\<lambda>b. napart n (fst b) \<and> napart (n + sizeof_SpaceNode + sz) (fst b)) (xs @ ys)"
    and "sz + sizeof_SpaceNode < s" "s < 2 ^ 31" "n + sizeof_SpaceNode + s < 2 ^ 64"
  shows "\<exists>m'. getFreeElementFrom junk m p sz = retn (m', n + sizeof_SpaceNode) \<and>
    rep m' p (xs @ (n, False, sz) # (n + sizeof_SpaceNode + sz, True, s - sz) # ys) \<and>
    get m' Prev p = 0"
proof -
  have "\<exists>m'. getFreeElementFrom junk m p sz = retn (m', n + sizeof_SpaceNode) \<and>
    rep m' p (xs @ split_block n s sz @ ys) \<and>
    (\<forall>b\<in>set (xs @ (n, True, s) # ys). get m' Prev (fst b) = get m Prev (fst b))"
    by (rule getFreeElementFrom_hit [OF assms(1)]) (use assms in \<open>auto simp: list_all_iff\<close>)
  then obtain m' where m': "getFreeElementFrom junk m p sz = retn (m', n + sizeof_SpaceNode)"
    "rep m' p (xs @ split_block n s sz @ ys)"
    "\<forall>b\<in>set (xs @ (n, True, s) # ys). get m' Prev (fst b) = get m Prev (fst b)" by blast
  have "p = fst (hd (xs @ (n, True, s) # ys))" using assms(1) by (cases xs) auto
  then have "get m' Prev p = 0" using m'(3) assms(2) by (cases xs) auto
  moreover have "split_block n s sz = [(n, False, sz), (n + sizeof_SpaceNode + sz, True, s - sz)]"
    using assms(5) by (simp add: split_block_def)
  ultimately show ?thesis using m'(1,2) by simp
qed

lemma alloc_whole:
  assumes "rep m p (xs @ (n, True, s) # ys)"
    and "list_all (\<lambda>b. \<not> fits s b) xs" "list_all (\<lambda>b. napart n (fst b)) (xs @ ys)"
    and "s < 2 ^ 31" "n + sizeof_SpaceNode + s < 2 ^ 64"
  shows "\<exists>m'. getFreeElementFrom junk m p s = retn (m', n + sizeof_SpaceNode)"
proof -
  have "\<exists>m'. getFreeElementFrom junk m p s = retn (m', n + sizeof_SpaceNode) \<and>
    rep m' p (xs @ split_block n s s @ ys) \<and>
    (\<forall>b\<in>set (xs @ (n, True, s) # ys). get m' Prev (fst b) = get m Prev (fst b))"
    by (rule getFreeElementFrom_hit [OF assms(1)]) (use assms in \<open>auto simp: list_all_iff\<close>)
  then show ?thesis by blast
qed

lemma free_step:
  assumes "rep m p ((p, False, s) # ys)" "get m Prev p = 0"
    and "list_all (\<lambda>b. napart p (fst b)) ys" "hdrs_apart ys"
    and "s + (if ys = [] then 0 else snd (snd (hd ys))) + 2 * sizeof_SpaceNode < 2 ^ 32"
  shows "\<exists>m'. removeSpace m (p + sizeof_SpaceNode) ELEMENT = retn m' \<and>
    rep m' p (release [] (p, False, s) ys) \<and> get m' Prev p = 0"
proof -
  have "\<exists>m'. removeSpace m (p + sizeof_SpaceNode) ELEMENT = retn m' \<and>
      rep m' p (release [] (p, False, s) ys)"
    by (rule removeSpace_rep) (use assms in \<open>auto simp: hdrs_apart_def list_all_iff\<close>)
  moreover have "get m' Prev p = 0" if "removeSpace m (p + sizeof_SpaceNode) ELEMENT = retn m'" for m'
  proof -
    have "p \<noteq> 0" "get m Free p = 0" using assms(1) by auto
    from removeSpace_element [OF this refl refl refl] that assms(2)
    show ?thesis by (auto simp: Let_def split: if_splits)
  qed
  ultimately show ?thesis by blast
qed

theorem removeSpace_loses_witness:
  "\<exists>m m' bs. rep m 4096 [(4096, False, 100), (4252, True, 844)] \<and>
     removeSpace m 4152 ELEMENT = retn m' \<and> rep m' 4096 bs \<and> total bs + 100 = 1056"
proof -
  obtain m where "rep m 4096 [(4096, False, 100), (4252, True, 844)]" "get m Prev 4096 = 0"
    using alloc_step [OF fresh_region, of 4096 100 zero_node zero_node zero_memory] by auto
  moreover have "hdrs_apart ([] @ (4096, False, 100) # [(4252, True, 844)])"
    by (simp add: hdrs_apart_def apart_def)
  ultimately show ?thesis
    using removeSpace_loses [of m 4096 "[]" 4096 100 "[(4252, True, 844)]"]
    by (simp add: lost_def total_def) blast
qed

text \<open>
  A split gives away 56 bytes that are not there. When \<open>createSpace\<close> splits a block,
  the new free block is credited with the whole rest and its header as well, so it ends 56
  bytes behind the end of the block that was split.
\<close>

theorem createSpace_split_overclaims:
  assumes "get m Free n \<noteq> 0" "sz + sizeof_SpaceNode < get m Size n" "get m Size n < 2 ^ 31"
    and "get m Start n = n + sizeof_SpaceNode" "n + sizeof_SpaceNode + get m Size n < 2 ^ 64"
  shows "let m' = fst (createSpace junk m n sz); q = n + sizeof_SpaceNode + sz in
    snd (createSpace junk m n sz) = 0 \<and> get m' Next n = q \<and> get m' Free q = 1 \<and>
    get m' Size n = sz \<and>
    q + sizeof_SpaceNode + get m' Size q = n + sizeof_SpaceNode + get m Size n + sizeof_SpaceNode"
proof -
  have "napart (n + 56 + sz) n" by (simp add: apart_def)
  moreover have "sizeof_SpaceNode < get m Size n - sz" using assms(2) by simp
  ultimately show ?thesis
    using assms by (simp add: createSpace_free Let_def new_header_def)
qed

theorem createSpace_split_overclaims_witness:
  "let m = initializeSpace zero_node zero_memory 4096 1000;
       m' = fst (createSpace zero_node m 4096 100); q = 4252
   in get m' Next 4096 = q \<and> q + sizeof_SpaceNode + get m' Size q = 4096 + 1000 + sizeof_SpaceNode"
proof -
  let ?m = "initializeSpace zero_node zero_memory 4096 1000"
  have "get ?m Free 4096 = 1" "get ?m Size 4096 = 944" "get ?m Start 4096 = 4152"
    by (simp_all add: initializeSpace_def sub64_le)
  then show ?thesis
    using createSpace_split_overclaims [of ?m 4096 100 zero_node] by (simp add: Let_def)
qed

text \<open>
  The consequence: allocate 200 and 100 bytes, free the first, allocate and free 20 bytes in
  its place, allocate 20 bytes again. The rest of the first block is now credited with 216
  bytes, of which only 124 lie before the second block.
\<close>

definition overlap_scenario :: "SpaceNode \<Rightarrow> memory \<Rightarrow> addr \<Rightarrow> (addr \<times> addr) ret" where
  "overlap_scenario junk m p =
     bindR (getFreeElementFrom junk (initializeSpace junk m p 1000) p 200) (\<lambda>(m1, a).
     bindR (getFreeElementFrom junk m1 p 100) (\<lambda>(m2, b).
     bindR (removeSpace m2 a ELEMENT) (\<lambda>m3.
     bindR (getFreeElementFrom junk m3 p 20) (\<lambda>(m4, c).
     bindR (removeSpace m4 c ELEMENT) (\<lambda>m5.
     bindR (getFreeElementFrom junk m5 p 20) (\<lambda>(m6, d).
     bindR (getFreeElementFrom junk m6 p 216) (\<lambda>(m7, e). retn (b, e))))))))"

text \<open>
  C31. Two live blocks can overlap: in the scenario above the second block, 100 bytes at
  offset 312 and never freed, and the last block, 216 bytes at offset 132, share 36 bytes.
\<close>

theorem live_blocks_overlap:
  "\<exists>b e. overlap_scenario junk m 4096 = retn (b, e) \<and> e < b \<and> b < e + 216 \<and> e + 216 - b = 36"
proof -
  obtain m1 where 1: "getFreeElementFrom junk (initializeSpace junk m 4096 1000) 4096 200 = retn (m1, 4152)"
      "rep m1 4096 ([(4096, False, 200)] @ (4352, True, 744) # [])" "get m1 Prev 4096 = 0"
    using alloc_step [OF fresh_region, of 4096 200 junk junk m] by auto
  obtain m2 where 2: "getFreeElementFrom junk m1 4096 100 = retn (m2, 4408)"
      "rep m2 4096 ((4096, False, 200) # [(4352, False, 100), (4508, True, 644)])" "get m2 Prev 4096 = 0"
    using alloc_step [OF 1(2,3), of 100 junk] by (auto simp: apart_def fits_def)
  obtain m3 where 3: "removeSpace m2 4152 ELEMENT = retn m3"
      "rep m3 4096 ([] @ (4096, True, 200) # [(4352, False, 100), (4508, True, 644)])" "get m3 Prev 4096 = 0"
    using free_step [OF 2(2,3)] by (auto simp: apart_def hdrs_apart_def release_def)
  obtain m4 where 4: "getFreeElementFrom junk m3 4096 20 = retn (m4, 4152)"
      "rep m4 4096 ((4096, False, 20) # [(4172, True, 180), (4352, False, 100), (4508, True, 644)])"
      "get m4 Prev 4096 = 0"
    using alloc_step [OF 3(2,3), of 20 junk] by (auto simp: apart_def)
  obtain m5 where 5: "removeSpace m4 4152 ELEMENT = retn m5"
      "rep m5 4096 ([] @ (4096, True, 236) # [(4352, False, 100), (4508, True, 644)])" "get m5 Prev 4096 = 0"
    using free_step [OF 4(2,3)] by (auto simp: apart_def hdrs_apart_def release_def)
  obtain m6 where 6: "getFreeElementFrom junk m5 4096 20 = retn (m6, 4152)"
      "rep m6 4096 ([(4096, False, 20)] @ (4172, True, 216) # [(4352, False, 100), (4508, True, 644)])"
    using alloc_step [OF 5(2,3), of 20 junk] by (auto simp: apart_def)
  obtain m7 where 7: "getFreeElementFrom junk m6 4096 216 = retn (m7, 4228)"
    using alloc_whole [OF 6(2), of junk] by (auto simp: fits_def apart_def)
  show ?thesis by (simp add: overlap_scenario_def 1(1) 2(1) 3(1) 4(1) 5(1) 6(1) 7)
qed

end
