(* ===== verification/Page_Table.thy ===== *)
theory Page_Table
  imports Space_Alloc
begin

text \<open>
  The page table of vm.c: one \<open>SpaceNode\<close> per physical page at the start of \<open>mem\<close>, the
  searches over it, and \<open>swapPages\<close>, which exchanges two pages in place and repairs the
  element lists inside them. The globals \<open>mem\<close> and \<open>pageSize\<close> are arguments here.
\<close>

abbreviation MEMORY_START :: nat where
  "MEMORY_START \<equiv> 2097152"

section \<open>Operations\<close>

definition getFirstPage :: "addr \<Rightarrow> addr" where
  "getFirstPage mem = mem"

definition getLastPage :: "memory \<Rightarrow> addr \<Rightarrow> addr ret" where
  "getLastPage m mem = search_last (getNextSpace m) 0 (getFirstPage mem)"

partial_function (option) updateReference_loop :: "memory \<Rightarrow> addr \<Rightarrow> memory ret" where
  "updateReference_loop m n =
     (if n \<noteq> 0
      then (let m' = put m Reference n 0 in updateReference_loop m' (getNextSpace m' n))
      else retn m)"

definition updateReference :: "memory \<Rightarrow> addr \<Rightarrow> memory ret" where
  "updateReference m mem = updateReference_loop m (getFirstPage mem)"

definition findFreePage :: "memory \<Rightarrow> addr \<Rightarrow> addr ret" where
  "findFreePage m mem = search (getNextSpace m) (\<lambda>n. get m Free n \<noteq> 0) (getFirstPage mem)"

text \<open>A page found has its \<open>swapclock\<close> reset.\<close>

definition findPage :: "memory \<Rightarrow> addr \<Rightarrow> nat \<Rightarrow> int \<Rightarrow> (memory \<times> addr) ret" where
  "findPage m mem pid order =
     bindR (search (getNextSpace m) (\<lambda>n. pid = get m Pid n \<and> order = s32 (get m Order n))
       (getFirstPage mem)) (\<lambda>res.
       if res \<noteq> 0 then retn (put m Swapclock res 0, res) else retn (m, res))"

definition findProcessPage :: "memory \<Rightarrow> addr \<Rightarrow> nat \<Rightarrow> (memory \<times> addr) ret" where
  "findProcessPage m mem pid = findPage m mem pid 1"

definition getContiguousPage :: "memory \<Rightarrow> addr \<Rightarrow> nat \<Rightarrow> addr \<Rightarrow> addr ret" where
  "getContiguousPage m mem pageSize page =
     (if getFirstPage mem \<noteq> 0 \<and> page = 0 then fail NullDeref
      else search (getNextSpace m) (\<lambda>n. get m Start n = get m Start page + pageSize)
        (getFirstPage mem))"

definition swapPages :: "memory \<Rightarrow> nat \<Rightarrow> addr \<Rightarrow> addr \<Rightarrow> memory ret" where
  "swapPages m pageSize p1 p2 =
     (if p1 = p2 then retn m
      else if p1 = 0 \<or> p2 = 0 then fail NullDeref
      else
        let buff = copy_out m (get m Start p1);
            page1 = copy_out m p1;
            page2 = copy_out m p2;
            m1 = memcpy m (get m Start p1) (get m Start p2) pageSize;
            m2 = memcpy m1 p1 p2 sizeof_SpaceNode;
            m3 = put (put (put m2 Start p1 (get page1 Start 0)) Next p1 (get page1 Next 0))
                   Prev p1 (get page1 Prev 0);
            m4 = copy_in m3 (get m3 Start p2) buff pageSize;
            m5 = copy_in m4 p2 page1 sizeof_SpaceNode;
            m6 = put (put (put m5 Start p2 (get page2 Start 0)) Next p2 (get page2 Next 0))
                   Prev p2 (get page2 Prev 0)
        in bindR (restoreElementsPointers m6 (get m6 Start p1) (get m6 Size p1)) (\<lambda>m7.
             restoreElementsPointers m7 (get m7 Start p2) (get m7 Size p2)))"

text \<open>\<open>page1\<close> becomes \<open>page1\<close> followed by \<open>page2\<close>.\<close>

definition makeContiguous :: "memory \<Rightarrow> addr \<Rightarrow> nat \<Rightarrow> addr \<Rightarrow> addr \<Rightarrow> memory ret" where
  "makeContiguous m mem pageSize page1 page2 =
     (if page1 \<noteq> page2
      then bindR (getContiguousPage m mem pageSize page1) (\<lambda>contiguousPage.
             swapPages m pageSize contiguousPage page2)
      else retn m)"

section \<open>Repairing an element list\<close>

text \<open>
  The headers that the repair loop visits: it starts at \<open>n\<close> and steps over each payload by
  the size stored in the header, whatever the bytes are.
\<close>

function walk :: "memory \<Rightarrow> addr \<Rightarrow> nat \<Rightarrow> nat \<Rightarrow> addr list" where
  "walk m n s sz =
     (if s < sz \<and> sz - s > sizeof_SpaceNode
      then n # walk m (n + sizeof_SpaceNode + get m Size n) (s + sizeof_SpaceNode + get m Size n) sz
      else [])"
  by pat_completeness auto
termination
  by (relation "measure (\<lambda>(m, n, s, sz). sz - s)") auto

declare walk.simps [simp del]

lemma walk_stop: "\<not> (s < sz \<and> sz - s > sizeof_SpaceNode) \<Longrightarrow> walk m n s sz = []"
  by (subst walk.simps) (rule if_not_P)

lemma walk_step:
  "s < sz \<and> sz - s > sizeof_SpaceNode \<Longrightarrow>
   walk m n s sz = n # walk m (n + sizeof_SpaceNode + get m Size n) (s + sizeof_SpaceNode + get m Size n) sz"
  by (subst walk.simps) (rule if_P)

lemma restore_stop:
  "\<not> (s < sz \<and> sz - s > sizeof_SpaceNode) \<Longrightarrow> restore_elements_loop m n s sz old = (m, old)"
  by (subst restore_elements_loop.simps) (rule if_not_P)

lemma restore_step:
  assumes "s < sz \<and> sz - s > sizeof_SpaceNode"
    and "nxt = n + sizeof_SpaceNode + get m Size n"
    and "m3 = put (put (put m Next n nxt) Prev n old) Start n (n + sizeof_SpaceNode)"
  shows "restore_elements_loop m n s sz old =
    restore_elements_loop m3 nxt (s + sizeof_SpaceNode + get m Size n) sz n"
  unfolding assms(2,3) using assms(1)
  by (subst restore_elements_loop.simps) (simp only: if_P Let_def add.assoc)

lemma walk_hd: "walk m n s sz \<noteq> [] \<Longrightarrow> hd (walk m n s sz) = n \<and> s < sz"
  using walk_stop walk_step by (metis list.sel(1))

lemma walk_lower: "a \<in> set (walk m n s sz) \<Longrightarrow> n \<le> a"
proof (induction m n s sz rule: walk.induct)
  case (1 m n s sz)
  then show ?case by (subst (asm) (2) walk.simps) (auto split: if_splits)
qed

lemma walk_upper: "a \<in> set (walk m n s sz) \<Longrightarrow> a + sizeof_SpaceNode < n + (sz - s)"
proof (induction m n s sz rule: walk.induct)
  case (1 m n s sz)
  show ?case
  proof (cases "s < sz \<and> sz - s > sizeof_SpaceNode")
    case True
    from "1.prems" True consider "a = n"
      | "a \<in> set (walk m (n + 56 + get m Size n) (s + 56 + get m Size n) sz)"
      by (subst (asm) walk.simps) auto
    then show ?thesis
    proof cases
      case 1
      with True show ?thesis by linarith
    next
      case 2
      with "1.IH" [OF True] walk_lower [OF 2] True show ?thesis by simp
    qed
  next
    case False
    with "1.prems" show ?thesis by (subst (asm) walk.simps) auto
  qed
qed

lemma walk_apart: "sorted_wrt napart (walk m n s sz)"
proof (induction m n s sz rule: walk.induct)
  case (1 m n s sz)
  show ?case
  proof (cases "s < sz \<and> sz - s > sizeof_SpaceNode")
    case True
    have "napart n a" if "a \<in> set (walk m (n + 56 + get m Size n) (s + 56 + get m Size n) sz)" for a
      using walk_lower [OF that] by (simp add: apart_def)
    with "1.IH" [OF True] show ?thesis by (simp add: walk_step [OF True])
  next
    case False
    then show ?thesis by (simp add: walk_stop)
  qed
qed

lemma walk_cong:
  "(\<And>a. n \<le> a \<Longrightarrow> get m' Size a = get m Size a) \<Longrightarrow> walk m' n s sz = walk m n s sz"
proof (induction m n s sz rule: walk.induct)
  case (1 m n s sz)
  then show ?case
    by (subst (1 2) walk.simps) auto
qed

text \<open>Nodes linked both ways, with \<open>start\<close> right behind the header.\<close>

fun linked :: "memory \<Rightarrow> addr \<Rightarrow> addr list \<Rightarrow> bool" where
  "linked m old [] \<longleftrightarrow> True"
| "linked m old (a # as) \<longleftrightarrow>
     get m Prev a = old \<and> get m Start a = a + sizeof_SpaceNode \<and>
     (as \<noteq> [] \<longrightarrow> get m Next a = hd as) \<and> linked m a as"

lemma linked_cong:
  "(\<And>a f. a \<in> set as \<Longrightarrow> get m' f a = get m f a) \<Longrightarrow> linked m' old as = linked m old as"
  by (induction m old as rule: linked.induct) auto

lemma linked_chain:
  assumes "linked m old as" "as \<noteq> []" "0 \<notin> set as" "get m Next (last as) = 0"
  shows "chain (getNextSpace m) (hd as) as"
  using assms
proof (induction m old as rule: linked.induct)
  case (2 m old a as)
  then show ?case by (cases as) (auto simp: getNextSpace_def)
qed simp

text \<open>The bytes of a header that the repair may write: \<open>start\<close>, \<open>next\<close> and \<open>prev\<close>.\<close>

definition ptr_bytes :: "addr \<Rightarrow> addr set" where
  "ptr_bytes a = {a + 16..<a + 24} \<union> {a + 32..<a + 48}"

lemma put_ptr_bytes:
  "f \<in> {Start, Next, Prev} \<Longrightarrow> x \<notin> ptr_bytes a \<Longrightarrow> put m f a v x = m x"
  by (auto simp: put_def ptr_bytes_def intro!: wr_other)

lemma get_same_bytes:
  assumes "\<And>x. (\<And>a. a \<in> set ns \<Longrightarrow> x \<notin> ptr_bytes a) \<Longrightarrow> m' x = m x"
    and "\<And>a. a \<in> set ns \<Longrightarrow> a = b \<or> napart a b" and "f \<notin> {Start, Next, Prev}"
  shows "get m' f b = get m f b"
  unfolding get_def
proof (rule rd_cong)
  fix i
  assume i: "i < sn_wid f"
  show "m' (b + sn_off f + i) = m (b + sn_off f + i)"
  proof (rule assms(1))
    fix a
    assume "a \<in> set ns"
    from assms(2) [OF this] consider "a = b" | "a + 56 \<le> b" | "b + 56 \<le> a" by (auto simp: apart_def)
    then show "b + sn_off f + i \<notin> ptr_bytes a"
      using assms(3) i by cases (cases f; auto simp: ptr_bytes_def)+
  qed
qed

lemma restore_elements_loop_spec:
  assumes "n \<noteq> 0" "s < sz \<longrightarrow> n + (sz - s) < 2 ^ 64" "old < 2 ^ 64"
  shows "snd (restore_elements_loop m n s sz old) = last (old # walk m n s sz) \<and>
    linked (fst (restore_elements_loop m n s sz old)) old (walk m n s sz) \<and>
    (\<forall>x. (\<forall>a\<in>set (walk m n s sz). x \<notin> ptr_bytes a) \<longrightarrow>
       fst (restore_elements_loop m n s sz old) x = m x)"
  using assms
proof (induction m n s sz old rule: restore_elements_loop.induct)
  case (1 m n s sz old)
  show ?case
  proof (cases "s < sz \<and> sz - s > 56")
    case False
    then show ?thesis by (simp add: walk_stop [OF False] restore_stop [OF False])
  next
    case True
    define nxt where "nxt = n + 56 + get m Size n"
    define m3 where "m3 = put (put (put m Next n nxt) Prev n old) Start n (n + 56)"
    let ?s = "s + 56 + get m Size n"
    have run: "restore_elements_loop m n s sz old = restore_elements_loop m3 nxt ?s sz n"
      by (rule restore_step [OF True nxt_def m3_def])
    have m3: "get m3 f a = get m f a" if "nxt \<le> a" for f a
    proof -
      have "napart n a" using that by (simp add: nxt_def apart_def)
      then show ?thesis by (simp add: m3_def)
    qed
    have wk: "walk m3 nxt ?s sz = walk m nxt ?s sz" by (rule walk_cong) (rule m3)
    have ns: "walk m n s sz = n # walk m nxt ?s sz"
      unfolding nxt_def by (rule walk_step [OF True])
    have n: "n + 56 < 2 ^ 64" "n < 2 ^ 64" using "1.prems"(2) True by linarith+
    define r where "r = fst (restore_elements_loop m3 nxt ?s sz n)"
    have IH: "snd (restore_elements_loop m3 nxt ?s sz n) = last (n # walk m nxt ?s sz) \<and>
      linked r n (walk m nxt ?s sz) \<and>
      (\<forall>x. (\<forall>a\<in>set (walk m nxt ?s sz). x \<notin> ptr_bytes a) \<longrightarrow> r x = m3 x)"
      using "1.IH" [OF True refl refl refl refl refl] "1.prems" True n(2)
      unfolding r_def wk [symmetric] by (simp add: m3_def nxt_def add.assoc)
    have low: "a \<in> set (walk m nxt ?s sz) \<Longrightarrow> n + 56 \<le> a" for a
      using walk_lower [of a m nxt ?s sz] by (simp add: nxt_def)
    have frame: "r x = m3 x" if "x < n + 56" for x
    proof -
      have "\<forall>a\<in>set (walk m nxt ?s sz). x \<notin> ptr_bytes a"
      proof
        fix a
        assume "a \<in> set (walk m nxt ?s sz)"
        from low [OF this] that show "x \<notin> ptr_bytes a" by (simp add: ptr_bytes_def)
      qed
      with IH show ?thesis by blast
    qed
    have at_n: "get r f n = get m3 f n" for f
      by (rule sn.gt_cong) (use frame in auto)
    have nxt: "walk m nxt ?s sz \<noteq> [] \<Longrightarrow> nxt < 2 ^ 64 \<and> hd (walk m nxt ?s sz) = nxt"
      using "1.prems"(2) True walk_hd [of m nxt ?s sz] by (auto simp: nxt_def)
    have "linked r old (walk m n s sz)"
      using IH at_n nxt n "1.prems"(3) by (auto simp: ns m3_def)
    moreover have "r x = m x" if "\<forall>a\<in>set (walk m n s sz). x \<notin> ptr_bytes a" for x
      using IH that by (auto simp: ns m3_def put_ptr_bytes)
    ultimately show ?thesis using IH by (simp add: run r_def ns)
  qed
qed

definition page_elems :: "memory \<Rightarrow> addr \<Rightarrow> nat \<Rightarrow> block list" where
  "page_elems m n sz = map (\<lambda>a. (a, get m Free a \<noteq> 0, get m Size a)) (walk m n 0 sz)"

text \<open>\<open>only_links m m' n sz\<close>: in the \<open>sz\<close> bytes from \<open>n\<close> only list pointers differ.\<close>

definition only_links :: "memory \<Rightarrow> memory \<Rightarrow> addr \<Rightarrow> nat \<Rightarrow> bool" where
  "only_links m m' n sz \<longleftrightarrow> (\<forall>x. (\<forall>a\<in>set (walk m n 0 sz). x \<notin> ptr_bytes a) \<longrightarrow> m' x = m x)"

lemma only_links_outside:
  assumes "only_links m m' n sz" "x < n \<or> n + sz \<le> x"
  shows "m' x = m x"
proof -
  have "x \<notin> ptr_bytes a" if "a \<in> set (walk m n 0 sz)" for a
    using walk_lower [OF that] walk_upper [OF that] assms(2) by (auto simp: ptr_bytes_def)
  then show ?thesis using assms(1) by (auto simp: only_links_def)
qed

lemma chain_rep:
  assumes "chain (getNextSpace m') p ns" "\<And>a. a \<in> set ns \<Longrightarrow> get m' Start a = a + sizeof_SpaceNode"
    and "\<And>a. a \<in> set ns \<Longrightarrow> get m' Free a = get m Free a \<and> get m' Size a = get m Size a"
  shows "rep m' p (map (\<lambda>a. (a, get m Free a \<noteq> 0, get m Size a)) ns)"
  using assms by (induction ns arbitrary: p) (auto simp: getNextSpace_def)

lemma linked_start: "linked m old as \<Longrightarrow> a \<in> set as \<Longrightarrow> get m Start a = a + sizeof_SpaceNode"
  by (induction m old as rule: linked.induct) auto

lemma linked_put_last:
  assumes "linked m old as" "sorted_wrt napart as" "as \<noteq> []"
  shows "linked (put m Next (last as) v) old as"
  using assms
proof (induction m old as rule: linked.induct)
  case (2 m old a as)
  show ?case
  proof (cases "as = []")
    case True
    with 2 show ?thesis by simp
  next
    case False
    then have "napart a (last as)" using "2.prems"(2) by simp
    with 2 False show ?thesis by simp
  qed
qed simp

lemma restoreElementsPointers_spec:
  assumes "n \<noteq> 0" "sizeof_SpaceNode < sz" "n + sz < 2 ^ 64"
  shows "\<exists>m'. restoreElementsPointers m n sz = retn m' \<and> only_links m m' n sz \<and>
    rep m' n (page_elems m n sz) \<and> linked m' 0 (walk m n 0 sz)"
proof -
  let ?ns = "walk m n 0 sz"
  define m1 where "m1 = fst (restore_elements_loop m n 0 sz 0)"
  define m' where "m' = put m1 Next (last ?ns) 0"
  have ne: "?ns \<noteq> []" using assms(2) by (simp add: walk_step)
  have hd: "hd ?ns = n" using walk_hd [OF ne] by simp
  have spec: "snd (restore_elements_loop m n 0 sz 0) = last ?ns" "linked m1 0 ?ns"
    "\<And>x. (\<forall>a\<in>set ?ns. x \<notin> ptr_bytes a) \<Longrightarrow> m1 x = m x"
    using restore_elements_loop_spec [of n 0 sz 0 m] assms ne by (simp_all add: m1_def)
  have nz: "0 \<notin> set ?ns" using walk_lower [of 0 m n 0 sz] assms(1) by auto
  then have "last ?ns \<noteq> 0" using ne last_in_set by metis
  then have run: "restoreElementsPointers m n sz = retn m'"
    using spec(1) assms(2) by (auto simp: restoreElementsPointers_def m'_def m1_def split: prod.splits)
  have links: "only_links m m' n sz"
    using spec(3) last_in_set [OF ne] by (auto simp: only_links_def m'_def put_ptr_bytes)
  have lk: "linked m' 0 ?ns"
    unfolding m'_def by (rule linked_put_last [OF spec(2) walk_apart ne])
  have ap: "a = b \<or> napart a b" if "a \<in> set ?ns" "b \<in> set ?ns" for a b
    using walk_apart [of m n 0 sz] that
    by (metis apart_sym in_set_conv_nth linorder_neqE_nat sorted_wrt_nth_less)
  have same: "get m' f b = get m f b" if "b \<in> set ?ns" "f \<notin> {Start, Next, Prev}" for f b
    by (rule get_same_bytes [where ns = ?ns])
      (use links ap that in \<open>auto simp: only_links_def\<close>)
  have "chain (getNextSpace m') n ?ns"
    using linked_chain [OF lk ne nz] hd by (simp add: m'_def)
  then have "rep m' n (page_elems m n sz)"
    unfolding page_elems_def by (rule chain_rep) (use linked_start [OF lk] same in auto)
  with run links lk show ?thesis by blast
qed

section \<open>Exchanging two pages\<close>

text \<open>\<open>swapPages\<close> up to the repair of the two element lists.\<close>

definition exchange :: "memory \<Rightarrow> nat \<Rightarrow> addr \<Rightarrow> addr \<Rightarrow> memory" where
  "exchange m psz p1 p2 =
     (let m3 = put (put (put (memcpy (memcpy m (get m Start p1) (get m Start p2) psz) p1 p2
                 sizeof_SpaceNode) Start p1 (get m Start p1)) Next p1 (get m Next p1)) Prev p1 (get m Prev p1);
          m5 = copy_in (copy_in m3 (get m3 Start p2) (copy_out m (get m Start p1)) psz)
                 p2 (copy_out m p1) sizeof_SpaceNode
      in put (put (put m5 Start p2 (get m Start p2)) Next p2 (get m Next p2)) Prev p2 (get m Prev p2))"

lemma swapPages_exchange:
  assumes "p1 \<noteq> p2" "p1 \<noteq> 0" "p2 \<noteq> 0" "m6 = exchange m psz p1 p2"
  shows "swapPages m psz p1 p2 =
    bindR (restoreElementsPointers m6 (get m6 Start p1) (get m6 Size p1)) (\<lambda>m7.
      restoreElementsPointers m7 (get m7 Start p2) (get m7 Size p2))"
  using assms by (simp add: swapPages_def exchange_def Let_def sn.gt_copy_out)

lemma put_outside: "x < p \<or> p + sizeof_SpaceNode \<le> x \<Longrightarrow> put m f p v x = m x"
  by (rule sn.pt_outside) auto

lemma get_memcpy:
  "get (memcpy m d s n) f p = get m f (s + (p - d))" if "d \<le> p" "p + sizeof_SpaceNode \<le> d + n"
  using that by (simp add: memcpy_def sn.gt_copy_in_inside sn.gt_copy_out)

lemma get_copy_in_outside:
  "p + sizeof_SpaceNode \<le> d \<or> d + n \<le> p \<Longrightarrow> get (copy_in m d b n) f p = get m f p"
  by (rule sn.gt_copy_in_outside) auto

definition disjnt :: "addr \<Rightarrow> nat \<Rightarrow> addr \<Rightarrow> nat \<Rightarrow> bool" where
  "disjnt a k b l \<longleftrightarrow> a + k \<le> b \<or> b + l \<le> a"

lemma exchange_spec:
  fixes m psz p1 p2
  defines "s1 \<equiv> get m Start p1" and "s2 \<equiv> get m Start p2" and "m' \<equiv> exchange m psz p1 p2"
  assumes pp: "napart p1 p2" and p1s: "disjnt p1 56 s1 psz" "disjnt p1 56 s2 psz"
    and p2s: "disjnt p2 56 s1 psz" "disjnt p2 56 s2 psz" and ss: "disjnt s1 psz s2 psz"
  shows "get m' f p1 = (if f \<in> {Start, Next, Prev} then get m f p1 else get m f p2)"
    and "get m' f p2 = (if f \<in> {Start, Next, Prev} then get m f p2 else get m f p1)"
    and "i < psz \<Longrightarrow> m' (s1 + i) = m (s2 + i)"
    and "i < psz \<Longrightarrow> m' (s2 + i) = m (s1 + i)"
    and "\<lbrakk>x < p1 \<or> p1 + 56 \<le> x; x < p2 \<or> p2 + 56 \<le> x; x < s1 \<or> s1 + psz \<le> x;
      x < s2 \<or> s2 + psz \<le> x\<rbrakk> \<Longrightarrow> m' x = m x"
proof -
  note geo = pp [unfolded apart_def] p1s [unfolded disjnt_def] p2s [unfolded disjnt_def] ss [unfolded disjnt_def]
  define m1 where "m1 = memcpy m s1 s2 psz"
  define m2 where "m2 = memcpy m1 p1 p2 56"
  define m3 where "m3 = put (put (put m2 Start p1 s1) Next p1 (get m Next p1)) Prev p1 (get m Prev p1)"
  have m1p: "get m1 f p1 = get m f p1" "get m1 f p2 = get m f p2" for f
    using geo by (simp_all add: m1_def memcpy_def get_copy_in_outside)
  have m3p2: "get m3 f p2 = get m f p2" for f
  proof -
    have "get (copy_in m1 p1 (copy_out m1 p2) 56) f p2 = get m1 f p2"
      by (rule get_copy_in_outside) (use geo in auto)
    then show ?thesis using pp m1p by (simp add: m3_def m2_def memcpy_def)
  qed
  have m3p1: "get m3 f p1 = (if f \<in> {Start, Next, Prev} then get m f p1 else get m f p2)" for f
    using m1p get_less [of m _ p1] by (auto simp: m3_def m2_def get_memcpy s1_def)
  define m5 where "m5 = copy_in (copy_in m3 s2 (copy_out m s1) psz) p2 (copy_out m p1) 56"
  have m': "m' = put (put (put m5 Start p2 s2) Next p2 (get m Next p2)) Prev p2 (get m Prev p2)"
    using m3p2 [of Start] unfolding m'_def exchange_def Let_def m5_def m3_def m2_def m1_def s1_def s2_def
    by simp
  have m5p1: "get m5 f p1 = get m3 f p1" for f
    using geo by (simp add: m5_def get_copy_in_outside)
  have m5p2: "get m5 f p2 = get m f p1" for f
    by (simp add: m5_def sn.gt_copy_in_inside sn.gt_copy_out)
  show "get m' f p1 = (if f \<in> {Start, Next, Prev} then get m f p1 else get m f p2)"
    using pp m5p1 m3p1 by (simp add: m')
  show "get m' f p2 = (if f \<in> {Start, Next, Prev} then get m f p2 else get m f p1)"
    using m5p2 get_less [of m _ p2] by (auto simp: m' s2_def)
  have m'x: "m' x = m5 x" if "x < p2 \<or> p2 + 56 \<le> x" for x
    using that by (simp add: m' put_outside)
  have m3x: "m3 x = m1 x" if "x < p1 \<or> p1 + 56 \<le> x" for x
    using that by (simp add: m3_def m2_def put_outside memcpy_def)
  show "m' (s1 + i) = m (s2 + i)" if "i < psz"
  proof -
    have "m' (s1 + i) = m5 (s1 + i)" using that geo by (intro m'x) auto
    also have "\<dots> = m3 (s1 + i)" using that geo by (auto simp: m5_def)
    also have "\<dots> = m1 (s1 + i)" using that geo by (intro m3x) auto
    finally show ?thesis using that by (simp add: m1_def memcpy_def)
  qed
  show "m' (s2 + i) = m (s1 + i)" if "i < psz"
  proof -
    have "m' (s2 + i) = m5 (s2 + i)" using that geo by (intro m'x) auto
    also have "\<dots> = copy_in m3 s2 (copy_out m s1) psz (s2 + i)" using that geo by (auto simp: m5_def)
    finally show ?thesis using that by simp
  qed
  show "m' x = m x" if "x < p1 \<or> p1 + 56 \<le> x" "x < p2 \<or> p2 + 56 \<le> x" "x < s1 \<or> s1 + psz \<le> x"
    "x < s2 \<or> s2 + psz \<le> x"
    using that m'x [of x] m3x [of x] by (simp add: m5_def m1_def memcpy_def)
qed

end
