(* ===== verification/Page_Swap.thy ===== *)
theory Page_Swap
  imports Page_Table
begin

text \<open>
  The geometry of the page table and what its operations do to it. Node \<open>i\<close> of the table
  describes frame \<open>i\<close>, the table links the nodes in order, and no operation changes that;
  pages move by exchanging what nodes and frames hold.
\<close>

section \<open>Geometry\<close>

definition node :: "addr \<Rightarrow> nat \<Rightarrow> addr" where
  "node mem i = mem + sizeof_SpaceNode * i"

definition frame :: "addr \<Rightarrow> nat \<Rightarrow> nat \<Rightarrow> addr" where
  "frame mem psz i = mem + MEMORY_START + psz * i"

definition pages_ok :: "memory \<Rightarrow> addr \<Rightarrow> nat \<Rightarrow> nat \<Rightarrow> bool" where
  "pages_ok m mem psz N \<longleftrightarrow>
     mem \<noteq> 0 \<and> 0 < N \<and> sizeof_SpaceNode * N \<le> MEMORY_START \<and>
     sizeof_SpaceNode < psz \<and> psz < 2 ^ 31 \<and> frame mem psz N < 2 ^ 64 \<and>
     (\<forall>i<N. get m Next (node mem i) = (if Suc i < N then node mem (Suc i) else 0) \<and>
            get m Prev (node mem i) = (if i = 0 then 0 else node mem (i - 1)) \<and>
            get m Start (node mem i) = frame mem psz i \<and>
            get m Size (node mem i) = psz)"

abbreviation nodes :: "addr \<Rightarrow> nat \<Rightarrow> addr list" where
  "nodes mem N \<equiv> map (node mem) [0..<N]"

lemma node_inj [simp]: "node mem i = node mem j \<longleftrightarrow> i = j"
  by (simp add: node_def)

lemma node_0 [simp]: "node mem 0 = mem"
  by (simp add: node_def)

lemma node_eq_0 [simp]: "node mem i = 0 \<longleftrightarrow> mem = 0 \<and> i = 0"
  by (simp add: node_def)

lemma node_apart: "i \<noteq> j \<Longrightarrow> napart (node mem i) (node mem j)"
proof (induction i j rule: linorder_wlog)
  case (le i j)
  then have "Suc i \<le> j" by simp
  then have "56 * Suc i \<le> 56 * j" by (rule mult_le_mono2)
  then show ?case by (simp add: node_def apart_def)
next
  case (sym i j)
  then show ?case by (simp add: apart_sym)
qed

lemma frame_disjnt: "i \<noteq> j \<Longrightarrow> disjnt (frame mem psz i) psz (frame mem psz j) psz"
proof (induction i j rule: linorder_wlog)
  case (le i j)
  then have "Suc i \<le> j" by simp
  then have "psz * Suc i \<le> psz * j" by (rule mult_le_mono2)
  then show ?case by (simp add: frame_def disjnt_def)
next
  case (sym i j)
  then show ?case by (auto simp: disjnt_def)
qed

lemma pages_okD:
  assumes "pages_ok m mem psz N"
  shows "mem \<noteq> 0" "0 < N" "sizeof_SpaceNode * N \<le> MEMORY_START" "sizeof_SpaceNode < psz"
    "psz < 2 ^ 31" "frame mem psz N < 2 ^ 64"
    "i < N \<Longrightarrow> get m Next (node mem i) = (if Suc i < N then node mem (Suc i) else 0)"
    "i < N \<Longrightarrow> get m Prev (node mem i) = (if i = 0 then 0 else node mem (i - 1))"
    "i < N \<Longrightarrow> get m Start (node mem i) = frame mem psz i"
    "i < N \<Longrightarrow> get m Size (node mem i) = psz"
  using assms by (auto simp: pages_ok_def)

lemma node_frame_disjnt:
  assumes "pages_ok m mem psz N" "i < N"
  shows "disjnt (node mem i) sizeof_SpaceNode (frame mem psz j) k"
proof -
  have "56 * Suc i \<le> 56 * N" using assms(2) by (intro mult_le_mono2) simp
  then have "node mem i + 56 \<le> frame mem psz j"
    using pages_okD(3) [OF assms(1)] by (simp add: node_def frame_def)
  then show ?thesis by (simp add: disjnt_def)
qed

lemma frame_end:
  assumes "pages_ok m mem psz N" "i < N"
  shows "frame mem psz i + psz < 2 ^ 64"
proof -
  have "psz * Suc i \<le> psz * N" using assms(2) by (intro mult_le_mono2) simp
  then show ?thesis using pages_okD(6) [OF assms(1)] by (simp add: frame_def)
qed

lemma frame_nonzero: "pages_ok m mem psz N \<Longrightarrow> frame mem psz i \<noteq> 0"
  by (auto simp: pages_ok_def frame_def)

lemma node_nonzero: "pages_ok m mem psz N \<Longrightarrow> node mem i \<noteq> 0"
  by (auto simp: pages_ok_def node_def)

lemma pages_chain_from:
  assumes "pages_ok m mem psz N" "k \<le> N"
  shows "chain (getNextSpace m) (if k < N then node mem k else 0) (map (node mem) [k..<N])"
  using assms(2)
proof (induction k rule: inc_induct)
  case base
  then show ?case by simp
next
  case (step k)
  then show ?case
    using pages_okD(1) [OF assms(1)] pages_okD(7) [OF assms(1), of k]
    by (auto simp: getNextSpace_def upt_conv_Cons)
qed

lemma pages_chain:
  "pages_ok m mem psz N \<Longrightarrow> chain (getNextSpace m) (getFirstPage mem) (nodes mem N)"
  using pages_chain_from [of m mem psz N 0] pages_okD(2) [of m mem psz N]
  by (simp add: getFirstPage_def)

lemma pages_ok_cong:
  assumes "pages_ok m mem psz N"
    and "\<And>i f. i < N \<Longrightarrow> f \<in> {Next, Prev, Start, Size} \<Longrightarrow> get m' f (node mem i) = get m f (node mem i)"
  shows "pages_ok m' mem psz N"
  using assms by (simp add: pages_ok_def)

lemma pages_ok_put:
  assumes "pages_ok m mem psz N" "f \<notin> {Next, Prev, Start, Size}" "k < N"
  shows "pages_ok (put m f (node mem k) v) mem psz N"
proof (rule pages_ok_cong [OF assms(1)])
  fix i g
  assume "i < N" "g \<in> {Next, Prev, Start, Size}"
  then show "get (put m f (node mem k) v) g (node mem i) = get m g (node mem i)"
    using assms(2) node_apart [of k i mem] by (cases "i = k") auto
qed

text \<open>What a page is to the operations above: its node's fields other than the links.\<close>

abbreviation pg :: "memory \<Rightarrow> addr \<Rightarrow> nat \<Rightarrow> field \<Rightarrow> nat" where
  "pg m mem i f \<equiv> get m f (node mem i)"

lemma pg_put:
  "pg (put m f (node mem k) v) mem i g =
     (if i = k \<and> f = g then v mod 256 ^ sn_wid f else pg m mem i g)"
  using node_apart [of k i mem] by (cases "i = k") auto

section \<open>Searching\<close>

lemma find_map_comp: "find P (map f xs) = map_option f (find (\<lambda>x. P (f x)) xs)"
  by (induction xs) auto

lemma search_pages:
  assumes "pages_ok m mem psz N"
  shows "search (getNextSpace m) P (getFirstPage mem) =
    retn (case find (\<lambda>i. P (node mem i)) [0..<N] of None \<Rightarrow> 0 | Some i \<Rightarrow> node mem i)"
  using search_chain [OF pages_chain [OF assms], of P]
  by (simp add: first_match_def find_map_comp split: option.split)

lemma find_upt_Some:
  "find P [0..<N] = Some i \<longleftrightarrow> i < N \<and> P i \<and> (\<forall>k<i. \<not> P k)"
  by (auto simp: find_Some_iff)

lemma find_upt_None: "find P [0..<N] = None \<longleftrightarrow> (\<forall>k<N. \<not> P k)"
  by (auto simp: find_None_iff)

definition owns :: "memory \<Rightarrow> addr \<Rightarrow> nat \<Rightarrow> int \<Rightarrow> nat \<Rightarrow> bool" where
  "owns m mem pid order i \<longleftrightarrow> pid = pg m mem i Pid \<and> order = s32 (pg m mem i Order)"

lemma findPage_pages:
  assumes "pages_ok m mem psz N"
  shows "findPage m mem pid order =
    retn (case find (owns m mem pid order) [0..<N] of
        None \<Rightarrow> (m, 0)
      | Some i \<Rightarrow> (put m Swapclock (node mem i) 0, node mem i))"
proof -
  have "search (getNextSpace m) (\<lambda>n. pid = get m Pid n \<and> order = s32 (get m Order n)) (getFirstPage mem) =
      retn (case find (owns m mem pid order) [0..<N] of None \<Rightarrow> 0 | Some i \<Rightarrow> node mem i)"
    unfolding search_pages [OF assms] owns_def by simp
  then show ?thesis
    using pages_okD(1) [OF assms] by (simp add: findPage_def split: option.split)
qed

lemma findFreePage_pages:
  assumes "pages_ok m mem psz N"
  shows "findFreePage m mem =
    retn (case find (\<lambda>i. pg m mem i Free \<noteq> 0) [0..<N] of None \<Rightarrow> 0 | Some i \<Rightarrow> node mem i)"
  unfolding findFreePage_def by (rule search_pages [OF assms])

lemma getLastPage_pages: "pages_ok m mem psz N \<Longrightarrow> getLastPage m mem = retn (node mem (N - 1))"
  using search_last_chain [OF pages_chain, of m mem psz N 0] pages_okD(2) [of m mem psz N]
  by (simp add: getLastPage_def last_map)

lemma getContiguousPage_pages:
  assumes "pages_ok m mem psz N" "i < N"
  shows "getContiguousPage m mem psz (node mem i) = retn (if Suc i < N then node mem (Suc i) else 0)"
proof -
  have "find (\<lambda>k. get m Start (node mem k) = get m Start (node mem i) + psz) [0..<N] =
      (if Suc i < N then Some (Suc i) else None)"
  proof -
    have "get m Start (node mem k) = get m Start (node mem i) + psz \<longleftrightarrow> k = Suc i" if "k < N" for k
    proof -
      have "psz * k = psz * Suc i \<longleftrightarrow> k = Suc i" 
        by (rule nat_mult_eq_cancel1) (use pages_okD(4) [OF assms(1)] in simp)
      then show ?thesis using pages_okD(9) [OF assms(1)] that assms(2) by (simp add: frame_def add.commute)
    qed
    then show ?thesis by (auto simp: find_upt_Some find_upt_None)
  qed
  then show ?thesis
    using search_pages [OF assms(1)] pages_okD(1) [OF assms(1)]
    by (simp add: getContiguousPage_def)
qed

section \<open>swapPages\<close>

lemma walk_reloc:
  assumes "\<And>k. k < sz - s \<Longrightarrow> m' (n' + k) = m (n + k)"
  shows "walk m' n' s sz = map (\<lambda>a. n' + (a - n)) (walk m n s sz)"
  using assms
proof (induction m n s sz arbitrary: n' rule: walk.induct)
  case (1 m n s sz)
  show ?case
  proof (cases "s < sz \<and> sz - s > sizeof_SpaceNode")
    case False
    then show ?thesis by (simp add: walk_stop [OF False])
  next
    case True
    have sz: "get m' Size n' = get m Size n"
      by (rule sn.gt_cong) (use "1.prems" True in auto)
    let ?k = "56 + get m Size n"
    have IH: "walk m' (n' + ?k) (s + ?k) sz = map (\<lambda>a. n' + ?k + (a - (n + ?k))) (walk m (n + ?k) (s + ?k) sz)"
    proof -
      have "m' (n' + ?k + k) = m (n + ?k + k)" if "k < sz - (s + ?k)" for k
        using "1.prems" [of "?k + k"] that by (simp add: add.assoc)
      then show ?thesis using "1.IH" [OF True, of "n' + ?k"] by (simp add: add.assoc)
    qed
    have "n' + ?k + (a - (n + ?k)) = n' + (a - n)" if "a \<in> set (walk m (n + ?k) (s + ?k) sz)" for a
      using walk_lower [OF that] by simp
    with IH show ?thesis by (simp add: walk_step [OF True] sz add.assoc)
  qed
qed

text \<open>
  What an exchange of pages \<open>i\<close> and \<open>j\<close> does, seen at page \<open>i\<close>: its node holds the data of
  node \<open>j\<close>, its frame holds the bytes of frame \<open>j\<close> except for the list pointers of the
  elements, which now form the same list at the new addresses.
\<close>

definition reloc :: "addr \<Rightarrow> addr \<Rightarrow> block list \<Rightarrow> block list" where
  "reloc from to = map (\<lambda>(a, fr, s). (to + (a - from), fr, s))"

definition moved :: "memory \<Rightarrow> memory \<Rightarrow> addr \<Rightarrow> nat \<Rightarrow> nat \<Rightarrow> nat \<Rightarrow> bool" where
  "moved m m' mem psz i j \<longleftrightarrow>
     (\<forall>f. f \<notin> {Start, Next, Prev} \<longrightarrow> pg m' mem i f = pg m mem j f) \<and>
     (\<forall>k<psz. (\<forall>a\<in>set (walk m (frame mem psz j) 0 psz). frame mem psz j + k \<notin> ptr_bytes a) \<longrightarrow>
        m' (frame mem psz i + k) = m (frame mem psz j + k)) \<and>
     rep m' (frame mem psz i) (reloc (frame mem psz j) (frame mem psz i) (page_elems m (frame mem psz j) psz))"

lemma get_frame_cong:
  assumes "\<And>k. k < psz \<Longrightarrow> m' (n + k) = m (n + k)" "n \<le> a" "a + sizeof_SpaceNode \<le> n + psz"
  shows "get m' f a = get m f a"
proof (rule sn.gt_cong)
  fix k :: nat
  assume "k < 56"
  then show "m' (a + k) = m (a + k)"
    using assms(1) [of "a - n + k"] assms(2,3) by simp
qed simp

lemma rep_frame_cong:
  assumes "\<And>k. k < psz \<Longrightarrow> m' (n + k) = m (n + k)"
    and "\<And>b. b \<in> set bs \<Longrightarrow> n \<le> fst b \<and> fst b + sizeof_SpaceNode \<le> n + psz"
  shows "rep m' p bs \<longleftrightarrow> rep m p bs"
proof (rule rep_cong)
  fix b f
  assume "b \<in> set bs"
  then show "get m' f (fst b) = get m f (fst b)"
    using get_frame_cong [of psz m' n m "fst b" f] assms by simp
qed

lemma page_elems_reloc:
  assumes "\<And>k. k < sz \<Longrightarrow> m' (n' + k) = m (n + k)"
  shows "page_elems m' n' sz = reloc n n' (page_elems m n sz)"
proof -
  have "get m' f (n' + (a - n)) = get m f a" if "a \<in> set (walk m n 0 sz)" for a f
  proof (rule sn.gt_cong)
    fix k :: nat
    assume "k < 56"
    then show "m' (n' + (a - n) + k) = m (a + k)"
      using walk_lower [OF that] walk_upper [OF that] assms [of "a - n + k"] by (simp add: add.assoc)
  qed simp
  moreover have "walk m' n' 0 sz = map (\<lambda>a. n' + (a - n)) (walk m n 0 sz)"
    by (rule walk_reloc) (use assms in simp)
  ultimately show ?thesis by (simp add: page_elems_def reloc_def)
qed

lemma page_elems_bounds:
  assumes "b \<in> set (page_elems m n sz)"
  shows "n \<le> fst b" "fst b + sizeof_SpaceNode \<le> n + sz"
  using assms walk_lower walk_upper by (fastforce simp: page_elems_def)+

definition untouched :: "memory \<Rightarrow> memory \<Rightarrow> addr \<Rightarrow> nat \<Rightarrow> nat \<Rightarrow> bool" where
  "untouched m m' mem psz k \<longleftrightarrow>
     (\<forall>f. pg m' mem k f = pg m mem k f) \<and>
     (\<forall>x<psz. m' (frame mem psz k + x) = m (frame mem psz k + x))"

lemma only_links_at:
  assumes "only_links m6 m7 n psz"
    and reloc: "\<And>k. k < psz \<Longrightarrow> m6 (n + k) = m (n' + k)"
    and k: "k < psz" "\<forall>a\<in>set (walk m n' 0 psz). n' + k \<notin> ptr_bytes a"
  shows "m7 (n + k) = m (n' + k)"
proof -
  have "walk m6 n 0 psz = map (\<lambda>a. n + (a - n')) (walk m n' 0 psz)"
    by (rule walk_reloc) (use reloc in simp)
  moreover have "n + k \<notin> ptr_bytes (n + (a - n'))" if "a \<in> set (walk m n' 0 psz)" for a
    using k(2) that walk_lower [OF that] by (auto simp: ptr_bytes_def)
  ultimately have "m7 (n + k) = m6 (n + k)" using assms(1) by (auto simp: only_links_def)
  then show ?thesis using reloc k(1) by simp
qed

lemma node_bytes:
  assumes "pages_ok m mem psz N" "k < N" "x < sizeof_SpaceNode"
  shows "node mem k + x < frame mem psz i"
proof -
  have "56 * Suc k \<le> 56 * N" using assms(2) by (intro mult_le_mono2) simp
  then show ?thesis using pages_okD(3) [OF assms(1)] assms(3) by (simp add: node_def frame_def)
qed

lemma only_links_pg:
  assumes "pages_ok m mem psz N" "k < N" "only_links m6 m7 (frame mem psz i) psz"
  shows "pg m7 mem k f = pg m6 mem k f"
proof (rule sn.gt_cong)
  fix x :: nat
  assume "x < 56"
  then show "m7 (node mem k + x) = m6 (node mem k + x)"
    using only_links_outside [OF assms(3)] node_bytes [OF assms(1,2)] by blast
qed simp

lemma only_links_frame:
  assumes "only_links m6 m7 (frame mem psz i) psz" "k \<noteq> i" "x < psz"
  shows "m7 (frame mem psz k + x) = m6 (frame mem psz k + x)"
  using only_links_outside [OF assms(1)] frame_disjnt [OF assms(2), of mem psz] assms(3)
  by (auto simp: disjnt_def)

lemma exchange_pages:
  assumes ok: "pages_ok m mem psz N" and ij: "i < N" "j < N" "i \<noteq> j"
    and m6: "m6 = exchange m psz (node mem i) (node mem j)"
  shows "pg m6 mem i f = (if f \<in> {Start, Next, Prev} then pg m mem i f else pg m mem j f)"
    and "pg m6 mem j f = (if f \<in> {Start, Next, Prev} then pg m mem j f else pg m mem i f)"
    and "k < psz \<Longrightarrow> m6 (frame mem psz i + k) = m (frame mem psz j + k)"
    and "k < psz \<Longrightarrow> m6 (frame mem psz j + k) = m (frame mem psz i + k)"
    and "k < N \<Longrightarrow> k \<noteq> i \<Longrightarrow> k \<noteq> j \<Longrightarrow> untouched m m6 mem psz k"
proof -
  have st: "get m Start (node mem i) = frame mem psz i" "get m Start (node mem j) = frame mem psz j"
    using pages_okD(9) [OF ok] ij by auto
  note ex = exchange_spec [of "node mem i" "node mem j" m psz, unfolded st, OF node_apart [OF ij(3)]
      node_frame_disjnt [OF ok ij(1)] node_frame_disjnt [OF ok ij(1)] node_frame_disjnt [OF ok ij(2)]
      node_frame_disjnt [OF ok ij(2)] frame_disjnt [OF ij(3)], folded m6]
  show "pg m6 mem i f = (if f \<in> {Start, Next, Prev} then pg m mem i f else pg m mem j f)"
    and "pg m6 mem j f = (if f \<in> {Start, Next, Prev} then pg m mem j f else pg m mem i f)"
    and "k < psz \<Longrightarrow> m6 (frame mem psz i + k) = m (frame mem psz j + k)"
    and "k < psz \<Longrightarrow> m6 (frame mem psz j + k) = m (frame mem psz i + k)"
    by (fact ex)+
  show "untouched m m6 mem psz k" if k: "k < N" "k \<noteq> i" "k \<noteq> j"
  proof -
    have "m6 (node mem k + x) = m (node mem k + x)" if "x < 56" for x
      using node_bytes [OF ok k(1) that] node_apart [OF k(2), of mem] node_apart [OF k(3), of mem] that
      by (intro ex(5)) (auto simp: apart_def)
    then have "pg m6 mem k f = pg m mem k f" for f by (intro sn.gt_cong) auto
    moreover have "m6 (frame mem psz k + x) = m (frame mem psz k + x)" if "x < psz" for x
      using node_bytes [OF ok ij(1), of 55 k] node_bytes [OF ok ij(2), of 55 k]
        frame_disjnt [OF k(2), of mem psz] frame_disjnt [OF k(3), of mem psz] that
      by (intro ex(5)) (auto simp: disjnt_def)
    ultimately show ?thesis by (simp add: untouched_def)
  qed
qed

lemma swapPages_pages:
  assumes ok: "pages_ok m mem psz N" and ij: "i < N" "j < N" "i \<noteq> j"
  shows "\<exists>m'. swapPages m psz (node mem i) (node mem j) = retn m' \<and> pages_ok m' mem psz N \<and>
    moved m m' mem psz i j \<and> moved m m' mem psz j i \<and>
    (\<forall>k<N. k \<noteq> i \<longrightarrow> k \<noteq> j \<longrightarrow> untouched m m' mem psz k)"
proof -
  define m6 where "m6 = exchange m psz (node mem i) (node mem j)"
  note ex = exchange_pages [OF ok ij m6_def]
  let ?fi = "frame mem psz i" and ?fj = "frame mem psz j"
  note fr = frame_nonzero [OF ok] pages_okD(4) [OF ok] frame_end [OF ok]
  have fields: "get m6 Start (node mem i) = ?fi" "get m6 Size (node mem i) = psz"
    using ex(1) pages_okD(9,10) [OF ok] ij by auto
  obtain m7 where m7: "restoreElementsPointers m6 ?fi psz = retn m7" "only_links m6 m7 ?fi psz"
    "rep m7 ?fi (page_elems m6 ?fi psz)"
    using restoreElementsPointers_spec [of ?fi psz m6] fr ij by blast
  note pg7 = only_links_pg [OF ok _ m7(2)] and fr7 = only_links_frame [OF m7(2)]
  obtain m8 where m8: "restoreElementsPointers m7 ?fj psz = retn m8" "only_links m7 m8 ?fj psz"
    "rep m8 ?fj (page_elems m7 ?fj psz)"
    using restoreElementsPointers_spec [of ?fj psz m7] fr ij by blast
  note pg8 = only_links_pg [OF ok _ m8(2)] and fr8 = only_links_frame [OF m8(2)]
  have "get m7 Start (node mem j) = ?fj" "get m7 Size (node mem j) = psz"
    using pg7 ex(2) pages_okD(9,10) [OF ok] ij by auto
  then have run: "swapPages m psz (node mem i) (node mem j) = retn m8"
    using swapPages_exchange [OF _ _ _ m6_def] ij pages_okD(1) [OF ok] fields m7(1) m8(1) by simp
  have other: "untouched m m8 mem psz k" if "k < N" "k \<noteq> i" "k \<noteq> j" for k
    using ex(5) [OF that] pg7 [OF that(1)] pg8 [OF that(1)] fr7 [of k] fr8 [of k] that
    by (simp add: untouched_def)
  have pg: "pg m8 mem k f = pg m6 mem k f" if "k < N" for k f using pg7 pg8 that by simp
  have "pages_ok m8 mem psz N"
  proof (rule pages_ok_cong [OF ok])
    fix k f
    assume "k < N" "f \<in> {Next, Prev, Start, Size}"
    then show "pg m8 mem k f = pg m mem k f"
      using pg [of k f] ex(1,2) [of f] ex(5) [of k] pages_okD(10) [OF ok] ij
      by (cases "k = i"; cases "k = j") (auto simp: untouched_def)
  qed
  moreover have "moved m m8 mem psz i j"
  proof -
    have same: "m8 (?fi + x) = m7 (?fi + x)" if "x < psz" for x using fr8 [of i x] ij that by simp
    have "rep m8 ?fi (page_elems m6 ?fi psz)"
      using m7(3) rep_frame_cong [of psz m8 ?fi m7 "page_elems m6 ?fi psz"] same page_elems_bounds
      by blast
    then have "rep m8 ?fi (reloc ?fj ?fi (page_elems m ?fj psz))"
      using page_elems_reloc [of psz m6 ?fi m ?fj] ex(3) by simp
    then show ?thesis
      using pg [OF ij(1)] ex(1) only_links_at [OF m7(2) ex(3)] same by (simp add: moved_def)
  qed
  moreover have "moved m m8 mem psz j i"
  proof -
    have same: "m7 (?fj + x) = m (?fi + x)" if "x < psz" for x
      using fr7 [of j x] ex(4) ij that by simp
    have "rep m8 ?fj (reloc ?fi ?fj (page_elems m ?fi psz))"
      using m8(3) page_elems_reloc [of psz m7 ?fj m ?fi] same by simp
    then show ?thesis
      using pg [OF ij(2)] ex(2) only_links_at [OF m8(2) same] by (simp add: moved_def)
  qed
  ultimately show ?thesis using run other by blast
qed

end
