(* ===== verification/Table_Init.thy ===== *)
theory Table_Init
  imports Page_Swap
begin

text \<open>
  The loop that writes a table of page nodes, and what it leaves in memory. \<open>init\<close> runs it
  for the page table and again for the table of the swap file.
\<close>

text \<open>The loop that writes a table of page nodes; \<open>init\<close> has it twice.\<close>

function table_loop ::
  "SpaceNode \<Rightarrow> memory \<Rightarrow> addr \<Rightarrow> addr \<Rightarrow> nat \<Rightarrow> addr \<Rightarrow> addr \<Rightarrow> nat \<Rightarrow> nat \<Rightarrow> memory" where
  "table_loop new m nodePtr ptr s old mx maxSize psz =
     (if nodePtr < mx \<and> s < maxSize then
        let m1 = (if old \<noteq> 0 then put m Next old nodePtr else m);
            m2 = store_node m1 nodePtr (new\<lparr>sn_start := ptr, sn_prev := old\<rparr>)
        in table_loop new m2 (nodePtr + sizeof_SpaceNode) (ptr + psz) (s + psz) nodePtr mx maxSize psz
      else m)"
  by pat_completeness auto
termination
  by (relation "measure (\<lambda>(new, m, nodePtr, ptr, s, old, mx, maxSize, psz). mx - nodePtr)") auto

declare table_loop.simps [simp del]

section \<open>The table it writes\<close>

text \<open>
  \<open>fills N base mx maxSize psz\<close>: the two bounds of the loop let it write exactly \<open>N\<close> nodes.
\<close>

definition fills :: "nat \<Rightarrow> addr \<Rightarrow> addr \<Rightarrow> nat \<Rightarrow> nat \<Rightarrow> bool" where
  "fills N base mx maxSize psz \<longleftrightarrow>
     (\<forall>i<N. node base i < mx \<and> psz * i < maxSize) \<and> \<not> (node base N < mx \<and> psz * N < maxSize)"

definition prev_node :: "addr \<Rightarrow> nat \<Rightarrow> addr" where
  "prev_node base i = (if i = 0 then 0 else node base (i - 1))"

text \<open>The fields of node \<open>j\<close> once the table is complete.\<close>

definition table_field :: "SpaceNode \<Rightarrow> addr \<Rightarrow> addr \<Rightarrow> nat \<Rightarrow> nat \<Rightarrow> nat \<Rightarrow> field \<Rightarrow> nat" where
  "table_field new base p0 psz N j f =
     (case f of
        Start \<Rightarrow> p0 + psz * j
      | Prev \<Rightarrow> prev_node base j
      | Next \<Rightarrow> if Suc j < N then node base (Suc j) else sn_next new mod 2 ^ 64
      | _ \<Rightarrow> sn_field new f mod 256 ^ sn_wid f)"

lemma table_loop_stop:
  "\<not> (nodePtr < mx \<and> s < maxSize) \<Longrightarrow> table_loop new m nodePtr ptr s old mx maxSize psz = m"
  by (subst table_loop.simps) (rule if_not_P)

lemma table_loop_step:
  assumes "nodePtr < mx \<and> s < maxSize"
    and "m2 = store_node (if old \<noteq> 0 then put m Next old nodePtr else m) nodePtr
      (new\<lparr>sn_start := ptr, sn_prev := old\<rparr>)"
  shows "table_loop new m nodePtr ptr s old mx maxSize psz =
    table_loop new m2 (nodePtr + sizeof_SpaceNode) (ptr + psz) (s + psz) nodePtr mx maxSize psz"
  unfolding assms(2) using assms(1) by (subst table_loop.simps) (simp only: if_P Let_def)

lemma table_loop_spec:
  assumes base: "base \<noteq> 0" "node base N < 2 ^ 64" "p0 + psz * N < 2 ^ 64"
    and fills: "fills N base mx maxSize psz" and "i \<le> N"
    and m': "m' = table_loop new m (node base i) (p0 + psz * i) (psz * i) (prev_node base i) mx maxSize psz"
  shows "(\<forall>j f. i \<le> j \<longrightarrow> j < N \<longrightarrow> pg m' base j f = table_field new base p0 psz N j f) \<and>
    (\<forall>j f. j < i \<longrightarrow> \<not> (Suc j = i \<and> f = Next) \<longrightarrow> pg m' base j f = pg m base j f) \<and>
    (0 < i \<longrightarrow> pg m' base (i - 1) Next = (if i < N then node base i else pg m base (i - 1) Next)) \<and>
    (\<forall>x. x < base \<or> node base N \<le> x \<longrightarrow> m' x = m x)"
  using assms(5) m'
proof (induction i arbitrary: m m' rule: inc_induct)
  case base
  have "m' = m" unfolding base by (rule table_loop_stop) (use fills in \<open>simp add: fills_def\<close>)
  then show ?case by simp
next
  case (step i)
  let ?old = "prev_node base i"
  define m1 where "m1 = (if ?old \<noteq> 0 then put m Next ?old (node base i) else m)"
  define m2 where "m2 = store_node m1 (node base i) (new\<lparr>sn_start := p0 + psz * i, sn_prev := ?old\<rparr>)"
  have go: "node base i < mx \<and> psz * i < maxSize" using fills step.hyps(2) by (simp add: fills_def)
  have nxt: "node base i + 56 = node base (Suc i)" "p0 + psz * i + psz = p0 + psz * Suc i"
    "psz * i + psz = psz * Suc i" "prev_node base (Suc i) = node base i"
    by (simp_all add: node_def prev_node_def)
  have run: "m' = table_loop new m2 (node base (Suc i)) (p0 + psz * Suc i) (psz * Suc i)
      (prev_node base (Suc i)) mx maxSize psz"
    unfolding step.prems nxt(4) using table_loop_step [OF go refl, where old = ?old and m = m and new = new]
    by (simp only: nxt(1-3) m1_def m2_def)
  note IH = step.IH [OF run]
  have lt: "node base i < 2 ^ 64" "p0 + psz * i < 2 ^ 64" "?old < 2 ^ 64"
  proof -
    have "psz * i \<le> psz * N" using step.hyps(2) by (intro mult_le_mono2) simp
    then show "p0 + psz * i < 2 ^ 64" using base(3) by linarith
    show "node base i < 2 ^ 64" using step.hyps(2) base(2) by (simp add: node_def)
    then show "?old < 2 ^ 64" by (auto simp: prev_node_def node_def)
  qed
  have m2i: "pg m2 base i f = (if f = Start then p0 + psz * i else if f = Prev then ?old
      else sn_field new f mod 256 ^ sn_wid f)" for f
    using lt by (cases f) (simp_all add: m2_def)
  have m2j: "pg m2 base j f = pg m1 base j f" if "j \<noteq> i" for j f
    using node_apart [OF that, of base] by (simp add: m2_def)
  have m1j: "pg m1 base j f = (if Suc j = i \<and> f = Next then node base i else pg m base j f)" if "j < i" for j f
    using that lt(1) \<open>base \<noteq> 0\<close> node_apart [of j "i - 1" base]
    by (cases "Suc j = i") (auto simp: m1_def prev_node_def)
  have out: "m2 x = m x" if "x < base \<or> node base N \<le> x" for x
  proof -
    have "sizeof_SpaceNode * Suc i \<le> sizeof_SpaceNode * N" using step.hyps(2) by (intro mult_le_mono2) simp
    then have "x < node base i \<or> node base i + 56 \<le> x" "x < ?old \<or> ?old + 56 \<le> x \<or> ?old = 0"
      using that by (auto simp: node_def prev_node_def)
    then show ?thesis by (auto simp: m2_def m1_def store_node_outside put_outside)
  qed
  have "pg m' base j f = table_field new base p0 psz N j f" if j: "i \<le> j" "j < N" for j f
  proof (cases "j = i")
    case True
    then have "pg m' base i f = (if f = Next \<and> Suc i < N then node base (Suc i) else pg m2 base i f)"
      using IH by (cases "f = Next") auto
    then show ?thesis using True m2i by (cases f) (auto simp: table_field_def)
  next
    case False
    then show ?thesis using IH j by simp
  qed
  moreover have "pg m' base j f = pg m base j f" if "j < i" "\<not> (Suc j = i \<and> f = Next)" for j f
    using IH that m2j [of j f] m1j [of j f] by auto
  moreover have "pg m' base (i - 1) Next = node base i" if "0 < i"
    using IH that m2j [of "i - 1" Next] m1j [of "i - 1" Next] by auto
  ultimately show ?case using IH out step.hyps(2) by auto
qed

lemma table_pages_ok:
  assumes mem: "mem \<noteq> 0" "0 < N" "sizeof_SpaceNode * N \<le> MEMORY_START" "frame mem psz N < 2 ^ 64"
    and psz: "sizeof_SpaceNode < psz" "psz < 2 ^ 31"
    and fills: "fills N mem mx maxSize psz" and new: "sn_next new = 0" "sn_size new = psz"
    and m': "m' = table_loop new m mem (mem + MEMORY_START) 0 0 mx maxSize psz"
  shows "pages_ok m' mem psz N"
    and "i < N \<Longrightarrow> f \<notin> {Start, Next, Prev} \<Longrightarrow> pg m' mem i f = sn_field new f mod 256 ^ sn_wid f"
    and "x < mem \<or> node mem N \<le> x \<Longrightarrow> m' x = m x"
proof -
  have "node mem N < 2 ^ 64" using mem(3,4) by (simp add: node_def frame_def)
  then have spec: "(\<forall>j f. 0 \<le> j \<longrightarrow> j < N \<longrightarrow> pg m' mem j f = table_field new mem (mem + MEMORY_START) psz N j f) \<and>
      (\<forall>x. x < mem \<or> node mem N \<le> x \<longrightarrow> m' x = m x)"
    using table_loop_spec [of mem N "mem + MEMORY_START" psz mx maxSize 0 m' new m] mem(1,4) fills m'
    by (simp add: frame_def prev_node_def)
  then show "pages_ok m' mem psz N"
    using assms by (simp add: pages_ok_def table_field_def frame_def prev_node_def)
  show "pg m' mem i f = sn_field new f mod 256 ^ sn_wid f" if "i < N" "f \<notin> {Start, Next, Prev}"
    using spec that by (cases f) (simp_all add: table_field_def)
  show "m' x = m x" if "x < mem \<or> node mem N \<le> x" by (rule conjunct2 [OF spec, rule_format, OF that])
qed

text \<open>A table of four free pages, for examples.\<close>

definition four_pages :: memory where
  "four_pages = table_loop (zero_node\<lparr>sn_free := 1, sn_size := 4096, sn_order := 1\<rparr>) zero_memory
     4096 (4096 + MEMORY_START) 0 0 4320 16384 4096"

lemma four_pages:
  "pages_ok four_pages 4096 4096 4"
  "i < 4 \<Longrightarrow> pg four_pages 4096 i Free = 1 \<and> pg four_pages 4096 i Order = 1 \<and> pg four_pages 4096 i Pid = 0"
proof -
  have i4: "i < 4 \<longleftrightarrow> i = 0 \<or> i = 1 \<or> i = 2 \<or> i = 3" for i :: nat by arith
  have f: "fills 4 4096 4320 16384 4096" by (auto simp: fills_def node_def i4)
  note t = table_pages_ok [OF _ _ _ _ _ _ f _ _ four_pages_def]
  show "pages_ok four_pages 4096 4096 4" by (rule t(1)) (simp_all add: frame_def zero_node_def)
  show "pg four_pages 4096 i Free = 1 \<and> pg four_pages 4096 i Order = 1 \<and> pg four_pages 4096 i Pid = 0"
    if i: "i < 4"
  proof -
    have "pg four_pages 4096 i f =
        sn_field (zero_node\<lparr>sn_free := 1, sn_size := 4096, sn_order := 1\<rparr>) f mod 256 ^ sn_wid f"
      if "f \<in> {Free, Order, Pid}" for f
      by (rule t(2)) (use i that in \<open>auto simp: frame_def zero_node_def\<close>)
    from this [of Free] this [of Order] this [of Pid] show ?thesis by (simp add: zero_node_def)
  qed
qed

end
