(* ===== verification/Swap_File.thy ===== *)
theory Swap_File
  imports Table_Init
begin

text \<open>
  The state of the memory manager and the swap file of vm.c. The swap file is a flat image
  of \<open>SWAP_SIZE\<close> bytes: a table of \<open>SpaceNode\<close>s at its start and page frames behind it.
  It is read into a static buffer before every use and written back as a whole.
\<close>

abbreviation SWAP_SIZE :: nat where
  "SWAP_SIZE \<equiv> 4000000"

abbreviation SWAP_MEMORY_START :: nat where
  "SWAP_MEMORY_START \<equiv> 1000000"

definition SWAP_STRATEGY :: nat where
  "SWAP_STRATEGY = 1"

definition USE_SWAP_F :: bool where
  "USE_SWAP_F = True"

definition USE_FIND_IN_SWAP :: bool where
  "USE_FIND_IN_SWAP = False"

definition VIRTUAL_MEMORY :: bool where
  "VIRTUAL_MEMORY = True"

text \<open>
  The globals of vm.c. \<open>bytes\<close> is the address space; \<open>memPtr\<close>, \<open>pgSize\<close> and
  \<open>shStart\<close> are \<open>mem\<close>, \<open>pageSize\<close> and \<open>sharedMemoryStart\<close>; \<open>swapFile\<close> is the content of the file
  \<open>swap\<close>, \<open>None\<close> when it cannot be opened for reading; \<open>swapWritable\<close> says whether it can
  be opened for writing; \<open>swapBuf\<close> and \<open>swapBuf2\<close> are the addresses of the static arrays
  \<open>swap\<close> of \<open>movePageToSwap\<close> and \<open>findPageInSwap\<close>, \<open>swapBuf0\<close> that of \<open>init\<close>; \<open>runningId\<close>
  is \<open>(*running)->id\<close>, \<open>None\<close> while \<open>running\<close> is \<open>NULL\<close>; \<open>prot\<close> holds the addresses
  under \<open>PROT_NONE\<close>; \<open>handlerSet\<close> says whether \<open>handler\<close> is installed for \<open>SIGSEGV\<close>.
\<close>

record vm =
  bytes :: memory
  memPtr :: addr
  pgSize :: nat
  shStart :: addr
  swapFile :: "memory option"
  swapWritable :: bool
  swapBuf :: addr
  swapBuf2 :: addr
  swapBuf0 :: addr
  runningId :: "nat option"
  prot :: "addr \<Rightarrow> bool"
  inHandler :: int
  handlerSet :: bool

text \<open>A memory manager with page table and pages at 4096 and no swap file, for examples.\<close>

definition example_vm :: "memory \<Rightarrow> vm" where
  "example_vm m = \<lparr>bytes = m, memPtr = 4096, pgSize = 4096, shStart = 9000000, swapFile = None,
     swapWritable = False, swapBuf = 0, swapBuf2 = 0, swapBuf0 = 0, runningId = None,
     prot = (\<lambda>_. False), inHandler = 0, handlerSet = False\<rparr>"

section \<open>Reading and writing the file\<close>

text \<open>The table loop bounds of \<open>fixSwapPtrs\<close> and of the swap part of \<open>init\<close>.\<close>

function fixSwapPtrs_loop ::
  "memory \<Rightarrow> addr \<Rightarrow> addr \<Rightarrow> nat \<Rightarrow> addr \<Rightarrow> addr \<Rightarrow> nat \<Rightarrow> nat \<Rightarrow> memory" where
  "fixSwapPtrs_loop m nodePtr ptr s old mx maxSize psz =
     (if nodePtr < mx \<and> s < maxSize then
        let m1 = put m Start nodePtr ptr;
            m2 = put m1 Prev nodePtr old;
            m3 = (if old \<noteq> 0 then put m2 Next old nodePtr else m2)
        in fixSwapPtrs_loop m3 (nodePtr + sizeof_SpaceNode) (ptr + psz) (s + psz) nodePtr mx maxSize psz
      else m)"
  by pat_completeness auto
termination
  by (relation "measure (\<lambda>(m, nodePtr, ptr, s, old, mx, maxSize, psz). mx - nodePtr)") auto

declare fixSwapPtrs_loop.simps [simp del]

definition fixSwapPtrs :: "memory \<Rightarrow> nat \<Rightarrow> addr \<Rightarrow> memory" where
  "fixSwapPtrs m psz swp =
     fixSwapPtrs_loop m swp (swp + SWAP_MEMORY_START) 0 0
       (swp + SWAP_MEMORY_START - sizeof_SpaceNode) (sub64 SWAP_SIZE (SWAP_MEMORY_START + psz)) psz"

definition getSwap :: "vm \<Rightarrow> addr \<Rightarrow> vm \<times> int" where
  "getSwap v swp =
     (case swapFile v of
        None \<Rightarrow> (v, 1)
      | Some img \<Rightarrow>
          (v\<lparr>bytes := fixSwapPtrs (copy_in (bytes v) swp img SWAP_SIZE) (pgSize v) swp\<rparr>, 0))"

definition writeSwap :: "vm \<Rightarrow> addr \<Rightarrow> vm \<times> int" where
  "writeSwap v swp =
     (if \<not> swapWritable v then (v, 1)
      else (v\<lparr>swapFile := Some (copy_out (bytes v) swp)\<rparr>, 0))"

section \<open>Choosing and moving a victim\<close>

text \<open>
  The second-chance loop. The statement after \<open>n = n->prev\<close> increments \<open>n->swapclock\<close>
  before the test for \<open>NULL\<close>, so stepping past the first page dereferences \<open>NULL\<close> and the
  restart from the last page is never reached.
\<close>

partial_function (option) victim_loop :: "memory \<Rightarrow> nat \<Rightarrow> addr \<Rightarrow> (memory \<times> addr) ret" where
  "victim_loop m pid n =
     (if n \<noteq> 0 \<and> get m Pid n = pid \<and> s8 (get m Swapclock n) < 3 then
        (let n' = get m Prev n in
         if n' = 0 then fail NullDeref
         else victim_loop (put m Swapclock n' (get m Swapclock n' + 1)) pid n')
      else retn (m, n))"

definition getVictimPage :: "memory \<Rightarrow> addr \<Rightarrow> nat \<Rightarrow> (memory \<times> addr) ret" where
  "getVictimPage m mem pid =
     bindR (getLastPage m mem) (\<lambda>lst.
       if SWAP_STRATEGY = 0
       then bindR (search (get m Prev) (\<lambda>n. get m Pid n \<noteq> pid) lst) (\<lambda>n. retn (m, n))
       else victim_loop m pid lst)"

definition movePageToSwap :: "vm \<Rightarrow> nat \<Rightarrow> (vm \<times> int) ret" where
  "movePageToSwap v pid =
     bindR (getVictimPage (bytes v) (memPtr v) pid) (\<lambda>(m0, evict).
       let v0 = v\<lparr>bytes := m0\<rparr> in
       if evict = 0 then retn (v0, 1)
       else case getSwap v0 (swapBuf v0) of (v1, r) \<Rightarrow>
         if r = 1 then retn (v1, 1)
         else bindR (search (get (bytes v1) Next) (\<lambda>n. get (bytes v1) Free n \<noteq> 0) (swapBuf v1))
           (\<lambda>fsp.
             if fsp = 0 then retn (v1, 1)
             else
               let m = bytes v1;
                   m1 = put m Pid fsp (get m Pid evict);
                   m2 = put m1 Free fsp 0;
                   m3 = put m2 Reference fsp (get m2 Reference evict);
                   m4 = put m3 DataStartsAnotherPage fsp (get m3 DataStartsAnotherPage evict);
                   m5 = put m4 Size fsp (get m4 Size evict);
                   m6 = put m5 Order fsp (get m5 Order evict);
                   m7 = memcpy m6 (get m6 Start fsp) (get m6 Start evict) (pgSize v1);
                   v2 = fst (writeSwap (v1\<lparr>bytes := m7\<rparr>) (swapBuf v1))
               in bindR (removeSpace (bytes v2) evict PAGE) (\<lambda>m8. retn (v2\<lparr>bytes := m8\<rparr>, 0))))"

section \<open>Getting a page\<close>

text \<open>
  \<open>getFreePage(size, pid)\<close>: the page found is handed out through the first node. \<open>order\<close>
  of the node is not written.
\<close>

partial_function (option) getFreePage :: "SpaceNode \<Rightarrow> vm \<Rightarrow> nat \<Rightarrow> (vm \<times> addr) ret" where
  "getFreePage junk v pid =
     bindR (findFreePage (bytes v) (memPtr v)) (\<lambda>n.
       if n = 0 then
         (if \<not> USE_SWAP_F then retn (v, 0)
          else bindR (movePageToSwap v pid) (\<lambda>(v', r).
            if r \<noteq> 0 then retn (v', 0) else getFreePage junk v' pid))
       else
         (let m1 = put (bytes v) Free n 0;
              m2 = put m1 Pid n pid;
              m3 = initializeSpace junk m2 (get m2 Start n) (get m2 Size n)
          in if VIRTUAL_MEMORY
             then bindR (swapPages m3 (pgSize v) (getFirstPage (memPtr v)) n) (\<lambda>m4.
                    retn (v\<lparr>bytes := m4\<rparr>, getFirstPage (memPtr v)))
             else retn (v\<lparr>bytes := m3\<rparr>, n)))"

definition findPageInSwap :: "SpaceNode \<Rightarrow> vm \<Rightarrow> nat \<Rightarrow> int \<Rightarrow> (vm \<times> addr) ret" where
  "findPageInSwap junk v pid order =
     (case getSwap v (swapBuf2 v) of (v1, r) \<Rightarrow>
       if r = 1 then retn (v1, 0)
       else bindR (search (get (bytes v1) Next)
           (\<lambda>n. pid = get (bytes v1) Pid n \<and> order = s32 (get (bytes v1) Order n) \<and>
                get (bytes v1) Free n = 0) (swapBuf2 v1)) (\<lambda>res.
         if res = 0 then retn (v1, 0)
         else bindR (getFreePage junk v1 pid) (\<lambda>(v2, temp).
           if temp = 0 then fail NullDeref
           else
             let m = bytes v2;
                 m1 = put m Reference temp (get m Reference res);
                 m2 = put m1 Order temp (u32 order);
                 m3 = put m2 Size temp (get m2 Size res);
                 m4 = put m3 DataStartsAnotherPage temp (get m3 DataStartsAnotherPage res);
                 m5 = memcpy m4 (get m4 Start temp) (get m4 Start res) (get m4 Size res)
             in bindR (removeSpace m5 res PAGE) (\<lambda>m6.
                  let v3 = fst (writeSwap (v2\<lparr>bytes := m6\<rparr>) (swapBuf2 v2))
                  in retn (v3\<lparr>bytes := put (bytes v3) Swapclock temp 0\<rparr>, temp)))))"

end
