(* ===== verification/Paging.thy ===== *)
theory Paging
  imports Swap_File
begin

text \<open>
  Handing pages to threads (vm.c): loading a thread's pages to the front of memory, growing
  a thread by one page, allocating an element for the running thread, and the page
  protections the scheduler sets.
\<close>

section \<open>Operations\<close>

text \<open>
  \<open>find_or_swap\<close> is the pair of lines \<open>p = findPage(pid, i); if (p == NULL &&
  USE_FIND_IN_SWAP) p = findPageInSwap(pid, i);\<close> that \<open>loadProcessPages\<close> repeats.
\<close>

definition find_or_swap :: "SpaceNode \<Rightarrow> vm \<Rightarrow> nat \<Rightarrow> int \<Rightarrow> (vm \<times> addr) ret" where
  "find_or_swap junk v pid i =
     bindR (findPage (bytes v) (memPtr v) pid i) (\<lambda>(m, p).
       let v1 = v\<lparr>bytes := m\<rparr> in
       if p = 0 \<and> USE_FIND_IN_SWAP then findPageInSwap junk v1 pid i else retn (v1, p))"

partial_function (option) load_loop ::
  "SpaceNode \<Rightarrow> vm \<Rightarrow> nat \<Rightarrow> addr \<Rightarrow> addr \<Rightarrow> int \<Rightarrow> vm ret" where
  "load_loop junk v pid p1 p2 i =
     (if p1 \<noteq> 0 \<and> p2 \<noteq> 0 then
        bindR (makeContiguous (bytes v) (memPtr v) (pgSize v) p1 p2) (\<lambda>m.
        bindR (find_or_swap junk (v\<lparr>bytes := m\<rparr>) pid i) (\<lambda>(v', p2').
          load_loop junk v' pid p2 p2' (i + 1)))
      else retn v)"

definition loadProcessPages :: "SpaceNode \<Rightarrow> vm \<Rightarrow> nat \<Rightarrow> vm ret" where
  "loadProcessPages junk v pid =
     bindR (find_or_swap junk v pid 1) (\<lambda>(v1, p1).
     bindR (swapPages (bytes v1) (pgSize v1) (getFirstPage (memPtr v1)) p1) (\<lambda>m.
     bindR (find_or_swap junk (v1\<lparr>bytes := m\<rparr>) pid 2) (\<lambda>(v2, p2).
       load_loop junk v2 pid (getFirstPage (memPtr v2)) p2 3)))"

text \<open>
  \<open>last = findPage(pid, 1); p = findPage(pid, 2); i = 3; while (p != NULL) { last = p;
  p = findPage(pid, i); i++; }\<close>
\<close>

partial_function (option) last_page_loop ::
  "memory \<Rightarrow> addr \<Rightarrow> nat \<Rightarrow> addr \<Rightarrow> addr \<Rightarrow> int \<Rightarrow> (memory \<times> addr) ret" where
  "last_page_loop m mp pid lst p i =
     (if p \<noteq> 0
      then bindR (findPage m mp pid i) (\<lambda>(m', p'). last_page_loop m' mp pid p p' (i + 1))
      else retn (m, lst))"

definition getLastProcessPage :: "memory \<Rightarrow> addr \<Rightarrow> nat \<Rightarrow> (memory \<times> addr) ret" where
  "getLastProcessPage m mp pid =
     bindR (findPage m mp pid 1) (\<lambda>(m1, lst).
     bindR (findPage m1 mp pid 2) (\<lambda>(m2, p). last_page_loop m2 mp pid lst p 3))"

text \<open>
  The second loop of \<open>joinFreeSpace\<close>: back from the last page to the page where its data
  starts. It returns \<open>(p, prev)\<close>.
\<close>

partial_function (option) data_start_loop ::
  "memory \<Rightarrow> addr \<Rightarrow> nat \<Rightarrow> addr \<Rightarrow> addr \<Rightarrow> int \<Rightarrow> (memory \<times> addr \<times> addr) ret" where
  "data_start_loop m mp pid p prv i =
     (if p \<noteq> 0 \<and> get m DataStartsAnotherPage p \<noteq> 0
      then bindR (findPage m mp pid i) (\<lambda>(m', p'). data_start_loop m' mp pid p' p (i - 1))
      else retn (m, p, prv))"

definition joinFreeSpace :: "memory \<Rightarrow> addr \<Rightarrow> addr \<Rightarrow> nat \<Rightarrow> memory ret" where
  "joinFreeSpace m mp newPage pid =
     bindR (getLastProcessPage m mp pid) (\<lambda>(m1, prv).
       if prv = 0 then fail NullDeref
       else bindR (data_start_loop m1 mp pid prv prv (s32 (get m1 Order prv) - 1)) (\<lambda>(m2, p, prv').
         if prv' \<noteq> 0 \<and> get m2 DataStartsAnotherPage prv' = 0
         then (if p = 0 then fail NullDeref
               else bindR (getLastElement m2 p) (\<lambda>e.
                 if e \<noteq> 0 \<and> get m2 Free e \<noteq> 0
                 then let m3 = put m2 DataStartsAnotherPage newPage 1
                      in retn (put m3 Size e (get m3 Size e + get m3 Size newPage))
                 else retn m2))
         else retn m2))"

definition reserveAnotherPage :: "SpaceNode \<Rightarrow> vm \<Rightarrow> nat \<Rightarrow> (vm \<times> int) ret" where
  "reserveAnotherPage junk v pid =
     bindR (getFreePage junk v pid) (\<lambda>(v1, newPage).
       if newPage = 0 then retn (v1, 1)
       else
         let m1 = put (bytes v1) Order newPage (u32 (- 1)) in
         bindR (joinFreeSpace m1 (memPtr v1) newPage pid) (\<lambda>m2.
         bindR (getLastProcessPage m2 (memPtr v1) pid) (\<lambda>(m3, lst).
           if lst = 0 then fail NullDeref
           else
             let m4 = put m3 Order newPage (u32 (s32 (get m3 Order lst) + 1)) in
             bindR (loadProcessPages junk (v1\<lparr>bytes := m4\<rparr>) pid) (\<lambda>v2. retn (v2, 0)))))"

text \<open>The search through pages 2, 3, \<dots> of the running thread for a free space.\<close>

partial_function (option) find_in_pages ::
  "memory \<Rightarrow> addr \<Rightarrow> nat \<Rightarrow> nat \<Rightarrow> addr \<Rightarrow> int \<Rightarrow> (memory \<times> addr) ret" where
  "find_in_pages m mp pid sz p i =
     (if p \<noteq> 0
      then bindR (findFreeSpace m (get m Start p) sz) (\<lambda>n.
           bindR (findPage m mp pid i) (\<lambda>(m', p').
             if n \<noteq> 0 then retn (m', n) else find_in_pages m' mp pid sz p' (i + 1)))
      else retn (m, 0))"

partial_function (option) getFreeElement :: "SpaceNode \<Rightarrow> vm \<Rightarrow> nat \<Rightarrow> (vm \<times> addr) ret" where
  "getFreeElement junk v sz =
     (let pid = (case runningId v of None \<Rightarrow> 1 | Some i \<Rightarrow> i) in
      bindR (if VIRTUAL_MEMORY
             then bindR (loadProcessPages junk v pid) (\<lambda>v'. retn (v', getFirstPage (memPtr v')))
             else bindR (findPage (bytes v) (memPtr v) pid 1) (\<lambda>(m, p). retn (v\<lparr>bytes := m\<rparr>, p)))
        (\<lambda>(v1, p).
         if p = 0 then retn (v1, 0)
         else
           (let m1 = put (bytes v1) Reference p 1 in
            bindR (findFreeSpace m1 (get m1 Start p) sz) (\<lambda>n.
              if n \<noteq> 0 then
                (case createSpace junk m1 n sz of
                   (m2, r) \<Rightarrow> retn (v1\<lparr>bytes := m2\<rparr>, if r \<noteq> 0 then 0 else get m2 Start n))
              else if \<not> VIRTUAL_MEMORY then retn (v1\<lparr>bytes := m1\<rparr>, 0)
              else
                bindR (findPage m1 (memPtr v1) pid 2) (\<lambda>(m2, p2).
                bindR (find_in_pages m2 (memPtr v1) pid sz p2 3) (\<lambda>(m3, n').
                  if n' \<noteq> 0 then
                    (case createSpace junk m3 n' sz of
                       (m4, r) \<Rightarrow> retn (v1\<lparr>bytes := m4\<rparr>, if r \<noteq> 0 then 0 else get m4 Start n'))
                  else
                    bindR (reserveAnotherPage junk (v1\<lparr>bytes := m3\<rparr>) pid) (\<lambda>(v2, r).
                      if r \<noteq> 0 then retn (v2, 0) else getFreeElement junk v2 sz)))))))"

section \<open>Protection\<close>

text \<open>
  \<open>mprotect\<close> rejects an address that is not page aligned and otherwise covers whole pages.
\<close>

definition mprotect :: "vm \<Rightarrow> addr \<Rightarrow> nat \<Rightarrow> bool \<Rightarrow> vm \<times> int" where
  "mprotect v a len none =
     (if a mod pgSize v \<noteq> 0 then (v, -1)
      else
        let hi = a + (len + pgSize v - 1) div pgSize v * pgSize v
        in (v\<lparr>prot := (\<lambda>x. if a \<le> x \<and> x < hi then none else prot v x)\<rparr>, 0))"

partial_function (option) protect_loop ::
  "vm \<Rightarrow> nat \<Rightarrow> bool \<Rightarrow> addr \<Rightarrow> int \<Rightarrow> (vm \<times> int) ret" where
  "protect_loop v pid none p i =
     (if p \<noteq> 0 then
        (case mprotect v (get (bytes v) Start p) (pgSize v) none of
           (v1, r) \<Rightarrow>
             if r \<noteq> 0 then retn (v1, 1)
             else bindR (findPage (bytes v1) (memPtr v1) pid i) (\<lambda>(m, p').
                    protect_loop (v1\<lparr>bytes := m\<rparr>) pid none p' (i + 1)))
      else retn (v, 0))"

definition memoryProtect :: "vm \<Rightarrow> nat \<Rightarrow> (vm \<times> int) ret" where
  "memoryProtect v pid =
     bindR (findPage (bytes v) (memPtr v) pid 1) (\<lambda>(m, p). protect_loop (v\<lparr>bytes := m\<rparr>) pid True p 2)"

definition memoryAllow :: "vm \<Rightarrow> nat \<Rightarrow> (vm \<times> int) ret" where
  "memoryAllow v pid =
     bindR (findPage (bytes v) (memPtr v) pid 1) (\<lambda>(m, p). protect_loop (v\<lparr>bytes := m\<rparr>) pid False p 2)"

abbreviation PHYSICAL_SIZE :: nat where
  "PHYSICAL_SIZE \<equiv> 8000000"

definition memoryAllowAll :: "vm \<Rightarrow> vm \<times> int" where
  "memoryAllowAll v =
     (case mprotect v (memPtr v + MEMORY_START) (sub64 (PHYSICAL_SIZE - MEMORY_START) (pgSize v * 4)) False of
        (v', r) \<Rightarrow> (v', if r \<noteq> 0 then 1 else 0))"

end
