(* ===== verification/Protection.thy ===== *)
theory Protection
  imports Paging
begin

text \<open>
  The work a context switch does on the page table: \<open>updateReference\<close> clears the reference
  bits and \<open>memoryProtect\<close> takes the pages of the outgoing thread away from it. Both are
  loops over the table, and both return.
\<close>

section \<open>Clearing reference bits\<close>

text \<open>\<open>differ m m' mem N fs\<close>: only the fields \<open>fs\<close> of the first \<open>N\<close> nodes may differ.\<close>

definition differ :: "memory \<Rightarrow> memory \<Rightarrow> addr \<Rightarrow> nat \<Rightarrow> field set \<Rightarrow> bool" where
  "differ m m' mem N fs \<longleftrightarrow>
     (\<forall>i<N. \<forall>f. f \<notin> fs \<longrightarrow> pg m' mem i f = pg m mem i f) \<and>
     (\<forall>x. x < mem \<or> mem + sizeof_SpaceNode * N \<le> x \<longrightarrow> m' x = m x)"

lemma differ_refl [simp]: "differ m m mem N fs"
  by (simp add: differ_def)

lemma differ_trans: "differ m m' mem N fs \<Longrightarrow> differ m' m'' mem N fs \<Longrightarrow> differ m m'' mem N fs"
  by (auto simp: differ_def)

lemma differ_mono: "differ m m' mem N fs \<Longrightarrow> fs \<subseteq> gs \<Longrightarrow> differ m m' mem N gs"
  by (auto simp: differ_def)

lemma node_inside: "i < N \<Longrightarrow> mem \<le> node mem i \<and> node mem i + sizeof_SpaceNode \<le> mem + sizeof_SpaceNode * N"
proof -
  assume "i < N"
  then have "sizeof_SpaceNode * Suc i \<le> sizeof_SpaceNode * N" by (intro mult_le_mono2) simp
  then show ?thesis by (simp add: node_def)
qed

lemma differ_put: "i < N \<Longrightarrow> f \<in> fs \<Longrightarrow> differ m (put m f (node mem i) v) mem N fs"
  using node_inside [of i N mem] by (auto simp: differ_def pg_put intro!: put_outside)

lemma differ_pages_ok:
  "pages_ok m mem psz N \<Longrightarrow> differ m m' mem N fs \<Longrightarrow> fs \<inter> {Next, Prev, Start, Size} = {} \<Longrightarrow>
   pages_ok m' mem psz N"
  by (erule pages_ok_cong) (auto simp: differ_def)

lemma differ_owns:
  "differ m m' mem N {Swapclock} \<Longrightarrow> i < N \<Longrightarrow> owns m' mem pid order i = owns m mem pid order i"
  by (simp add: differ_def owns_def)

lemma updateReference_loop_pages:
  assumes "pages_ok m mem psz N" "k \<le> N"
  shows "\<exists>m'. updateReference_loop m (if k < N then node mem k else 0) = retn m' \<and>
    differ m m' mem N {Reference} \<and> (\<forall>i. k \<le> i \<longrightarrow> i < N \<longrightarrow> pg m' mem i Reference = 0) \<and>
    (\<forall>i<k. pg m' mem i Reference = pg m mem i Reference)"
  using assms(2,1)
proof (induction k arbitrary: m rule: inc_induct)
  case base
  then show ?case by (subst updateReference_loop.simps) simp
next
  case (step k)
  let ?m = "put m Reference (node mem k) 0"
  have ok: "pages_ok ?m mem psz N" using step by (intro pages_ok_put) auto
  from step.IH [OF ok] obtain m' where m':
    "updateReference_loop ?m (if Suc k < N then node mem (Suc k) else 0) = retn m'"
    "differ ?m m' mem N {Reference}" "\<forall>i. Suc k \<le> i \<longrightarrow> i < N \<longrightarrow> pg m' mem i Reference = 0"
    "\<forall>i<Suc k. pg m' mem i Reference = pg ?m mem i Reference" by blast
  have nz: "node mem k \<noteq> 0" by (rule node_nonzero [OF step.prems])
  have "getNextSpace ?m (node mem k) = (if Suc k < N then node mem (Suc k) else 0)"
    using pages_okD(7) [OF ok, of k] step.hyps(2) pages_okD(1) [OF ok] by (simp add: getNextSpace_def)
  then have "updateReference_loop m (node mem k) = retn m'"
    using nz m'(1) by (subst updateReference_loop.simps) simp
  moreover have "differ m m' mem N {Reference}"
    by (rule differ_trans [OF differ_put m'(2)]) (use step.hyps(2) in auto)
  moreover have "pg m' mem i Reference = 0" if "k \<le> i" "i < N" for i
    using m'(3,4) that by (cases "i = k") (auto simp: pg_put)
  moreover have "pg m' mem i Reference = pg m mem i Reference" if "i < k" for i
    using m'(4) that by (simp add: pg_put)
  ultimately show ?case using step.hyps(2) by auto
qed

lemma updateReference_pages:
  assumes "pages_ok m mem psz N"
  shows "\<exists>m'. updateReference m mem = retn m' \<and> differ m m' mem N {Reference} \<and>
    (\<forall>i<N. pg m' mem i Reference = 0)"
  using updateReference_loop_pages [OF assms, of 0] pages_okD(2) [OF assms]
  by (auto simp: updateReference_def getFirstPage_def)

section \<open>The pages of a thread\<close>

text \<open>The index of the page a search finds.\<close>

definition page_at :: "memory \<Rightarrow> addr \<Rightarrow> nat \<Rightarrow> nat \<Rightarrow> int \<Rightarrow> nat option" where
  "page_at m mem N pid order = find (owns m mem pid order) [0..<N]"

definition page_ptr :: "addr \<Rightarrow> nat option \<Rightarrow> addr" where
  "page_ptr mem io = (case io of None \<Rightarrow> 0 | Some i \<Rightarrow> node mem i)"

text \<open>\<open>run_of_pages m mem N pid k\<close>: pages 1 to \<open>k\<close> of the thread are there and page \<open>k + 1\<close> is not.\<close>

definition run_of_pages :: "memory \<Rightarrow> addr \<Rightarrow> nat \<Rightarrow> nat \<Rightarrow> nat \<Rightarrow> bool" where
  "run_of_pages m mem N pid k \<longleftrightarrow>
     (\<forall>i. 1 \<le> i \<longrightarrow> i \<le> k \<longrightarrow> page_at m mem N pid (int i) \<noteq> None) \<and>
     page_at m mem N pid (int k + 1) = None"

lemma page_at_Some: "page_at m mem N pid order = Some i \<Longrightarrow> i < N \<and> owns m mem pid order i"
  by (simp add: page_at_def find_upt_Some)

lemma page_at_None: "page_at m mem N pid order = None \<longleftrightarrow> (\<forall>i<N. \<not> owns m mem pid order i)"
  by (simp add: page_at_def find_upt_None)

lemma page_at_cong:
  assumes "\<And>i. i < N \<Longrightarrow> owns m' mem pid order i = owns m mem pid order i"
  shows "page_at m' mem N pid order = page_at m mem N pid order"
  unfolding page_at_def by (intro find_cong) (use assms in auto)

lemma differ_page_at:
  "differ m m' mem N {Swapclock} \<Longrightarrow> page_at m' mem N pid order = page_at m mem N pid order"
  by (rule page_at_cong) (rule differ_owns)

lemma s32_bounds: "- (2 ^ 31) \<le> s32 v" "s32 v < 2 ^ 31"
proof -
  have "v mod 2 ^ 32 < 2 ^ 32" by simp
  then show "- (2 ^ 31) \<le> s32 v" "s32 v < 2 ^ 31" by (auto simp: s32_def Let_def)
qed

lemma run_of_pages_ex: "\<exists>k. run_of_pages m mem N pid k \<and> k < 2 ^ 31"
proof -
  let ?P = "\<lambda>k. page_at m mem N pid (int k + 1) = None"
  have top: "?P (2 ^ 31 - 1)"
  proof -
    have "\<not> owns m mem pid (2 ^ 31) i" for i
      using s32_bounds(2) [of "pg m mem i Order"] by (auto simp: owns_def)
    then show ?thesis by (simp add: page_at_None)
  qed
  define k where "k = (LEAST k. ?P k)"
  have k: "?P k" unfolding k_def by (rule LeastI [of ?P]) (rule top)
  have below: "page_at m mem N pid (int i) \<noteq> None" if i: "1 \<le> i" "i \<le> k" for i
  proof -
    have "i - 1 < (LEAST k. ?P k)" using i by (simp add: k_def)
    from not_less_Least [OF this] show ?thesis using i(1) by (simp add: of_nat_diff)
  qed
  have "k \<le> 2 ^ 31 - 1" unfolding k_def by (rule Least_le) (rule top)
  then have "k < 2 ^ 31" by simp
  then show ?thesis using k below by (auto simp: run_of_pages_def)
qed

lemma findPage_page_at:
  assumes "pages_ok m mem psz N"
  shows "\<exists>m'. findPage m mem pid order = retn (m', page_ptr mem (page_at m mem N pid order)) \<and>
    differ m m' mem N {Swapclock} \<and> pages_ok m' mem psz N"
proof (cases "page_at m mem N pid order")
  case None
  then show ?thesis
    using findPage_pages [OF assms, of pid order] assms by (auto simp: page_at_def page_ptr_def)
next
  case (Some i)
  let ?m = "put m Swapclock (node mem i) 0"
  have "differ m ?m mem N {Swapclock}" using page_at_Some [OF Some] by (intro differ_put) auto
  moreover have "pages_ok ?m mem psz N" using page_at_Some [OF Some] assms by (intro pages_ok_put) auto
  ultimately show ?thesis
    using findPage_pages [OF assms, of pid order] Some by (auto simp: page_at_def page_ptr_def)
qed

section \<open>Protecting pages\<close>

text \<open>The addresses of pages \<open>i\<close> to \<open>k\<close> of a thread.\<close>

definition covers :: "memory \<Rightarrow> addr \<Rightarrow> nat \<Rightarrow> nat \<Rightarrow> nat \<Rightarrow> int \<Rightarrow> int \<Rightarrow> addr \<Rightarrow> bool" where
  "covers m mem psz N pid i k x \<longleftrightarrow>
     (\<exists>j q. i \<le> j \<and> j \<le> k \<and> page_at m mem N pid j = Some q \<and>
            frame mem psz q \<le> x \<and> x < frame mem psz q + psz)"

lemma covers_step:
  assumes "page_at m mem N pid (int i) = Some q" "i \<le> k"
  shows "covers m mem psz N pid (int i) (int k) x \<longleftrightarrow>
    covers m mem psz N pid (int (Suc i)) (int k) x \<or> frame mem psz q \<le> x \<and> x < frame mem psz q + psz"
proof
  assume "covers m mem psz N pid (int i) (int k) x"
  then obtain j r where j: "int i \<le> j" "j \<le> int k" "page_at m mem N pid j = Some r"
    "frame mem psz r \<le> x" "x < frame mem psz r + psz" by (auto simp: covers_def)
  show "covers m mem psz N pid (int (Suc i)) (int k) x \<or> frame mem psz q \<le> x \<and> x < frame mem psz q + psz"
  proof (cases "j = int i")
    case True
    then show ?thesis using j assms(1) by simp
  next
    case False
    then have "int (Suc i) \<le> j" using j(1) by simp
    then show ?thesis using j unfolding covers_def by blast
  qed
next
  have "int i \<le> int k" "\<And>j. int (Suc i) \<le> j \<Longrightarrow> int i \<le> j" using assms(2) by simp_all
  then show "covers m mem psz N pid (int i) (int k) x"
    if "covers m mem psz N pid (int (Suc i)) (int k) x \<or> frame mem psz q \<le> x \<and> x < frame mem psz q + psz"
    using that assms(1) unfolding covers_def by blast
qed

lemma mprotect_frame:
  assumes "(memPtr v + MEMORY_START) mod pgSize v = 0" "0 < pgSize v"
  shows "mprotect v (frame (memPtr v) (pgSize v) i) (pgSize v) none =
    (v\<lparr>prot := (\<lambda>x. if frame (memPtr v) (pgSize v) i \<le> x \<and> x < frame (memPtr v) (pgSize v) i + pgSize v
        then none else prot v x)\<rparr>, 0)"
proof -
  have "frame (memPtr v) (pgSize v) i mod pgSize v = 0" using assms(1) by (simp add: frame_def)
  moreover have "(pgSize v + pgSize v - 1) div pgSize v * pgSize v = pgSize v"
  proof -
    have "(pgSize v + pgSize v - 1) div pgSize v = 1"
      by (rule div_nat_eqI) (use assms(2) in simp_all)
    then show ?thesis by (simp only: mult_1)
  qed
  ultimately show ?thesis by (simp only: mprotect_def Let_def) simp
qed

abbreviation vm_pages :: "vm \<Rightarrow> nat \<Rightarrow> bool" where
  "vm_pages v N \<equiv> pages_ok (bytes v) (memPtr v) (pgSize v) N"

lemma protect_loop_pages:
  assumes "int i + int d = int k + 1" "1 \<le> i" "vm_pages v N"
    and al: "(memPtr v + MEMORY_START) mod pgSize v = 0"
    and run: "run_of_pages (bytes v) (memPtr v) N pid k"
  shows "\<exists>m'. protect_loop v pid none (page_ptr (memPtr v) (page_at (bytes v) (memPtr v) N pid (int i))) (int i + 1) =
      retn (v\<lparr>bytes := m', prot := (\<lambda>x. if covers (bytes v) (memPtr v) (pgSize v) N pid (int i) (int k) x
          then none else prot v x)\<rparr>, 0) \<and>
    differ (bytes v) m' (memPtr v) N {Swapclock}"
  using assms
proof (induction d arbitrary: i v)
  case 0
  then have i: "i = Suc k" by simp
  then have "page_at (bytes v) (memPtr v) N pid (int i) = None" using 0 by (simp add: run_of_pages_def)
  moreover have "\<not> covers (bytes v) (memPtr v) (pgSize v) N pid (int i) (int k) x" for x
    using i by (auto simp: covers_def)
  ultimately show ?case
    by (subst protect_loop.simps) (auto simp: page_ptr_def intro!: exI [of _ "bytes v"])
next
  case (Suc d)
  let ?mp = "memPtr v" and ?psz = "pgSize v"
  have ik: "i \<le> k" using Suc.prems(1) by simp
  then obtain q where q: "page_at (bytes v) ?mp N pid (int i) = Some q"
    using Suc.prems(2,5) by (auto simp: run_of_pages_def)
  then have qN: "q < N" using page_at_Some by blast
  let ?v1 = "v\<lparr>prot := (\<lambda>x. if frame ?mp ?psz q \<le> x \<and> x < frame ?mp ?psz q + ?psz then none else prot v x)\<rparr>"
  have mp: "mprotect v (get (bytes v) Start (node ?mp q)) ?psz none = (?v1, 0)"
    using mprotect_frame [OF Suc.prems(4)] pages_okD(4,9) [OF Suc.prems(3)] qN by simp
  obtain m1 where m1: "findPage (bytes v) ?mp pid (int i + 1) =
      retn (m1, page_ptr ?mp (page_at (bytes v) ?mp N pid (int i + 1)))"
    "differ (bytes v) m1 ?mp N {Swapclock}" "pages_ok m1 ?mp ?psz N"
    using findPage_page_at [OF Suc.prems(3)] by blast
  let ?v2 = "?v1\<lparr>bytes := m1\<rparr>"
  have at: "page_at m1 ?mp N pid j = page_at (bytes v) ?mp N pid j" for j
    by (rule differ_page_at [OF m1(2)])
  have cov: "covers m1 ?mp ?psz N pid a b x = covers (bytes v) ?mp ?psz N pid a b x" for a b x
    by (simp add: covers_def at)
  have "run_of_pages m1 ?mp N pid k" using Suc.prems(5) by (simp add: run_of_pages_def at)
  then obtain m' where m': "protect_loop ?v2 pid none (page_ptr ?mp (page_at m1 ?mp N pid (int (Suc i)))) (int (Suc i) + 1) =
      retn (?v2\<lparr>bytes := m', prot := (\<lambda>x. if covers m1 ?mp ?psz N pid (int (Suc i)) (int k) x
          then none else prot ?v2 x)\<rparr>, 0)" "differ m1 m' ?mp N {Swapclock}"
    using Suc.IH [of "Suc i" ?v2] Suc.prems m1(3) by auto
  have nz: "node ?mp q \<noteq> 0" by (rule node_nonzero [OF Suc.prems(3)])
  have split: "covers (bytes v) ?mp ?psz N pid (int i) (int k) x \<longleftrightarrow>
      covers (bytes v) ?mp ?psz N pid (int (Suc i)) (int k) x \<or>
      frame ?mp ?psz q \<le> x \<and> x < frame ?mp ?psz q + ?psz" for x
    by (rule covers_step [OF q]) (use ik in simp)
  have "protect_loop v pid none (node ?mp q) (int i + 1) =
      protect_loop ?v2 pid none (page_ptr ?mp (page_at m1 ?mp N pid (int (Suc i)))) (int (Suc i) + 1)"
    using nz mp m1(1) by (subst protect_loop.simps) (simp add: at add.commute)
  moreover have "differ (bytes v) m' ?mp N {Swapclock}" by (rule differ_trans [OF m1(2) m'(2)])
  moreover have "(\<lambda>x. if covers m1 ?mp ?psz N pid (int (Suc i)) (int k) x then none else prot ?v2 x) =
      (\<lambda>x. if covers (bytes v) ?mp ?psz N pid (int i) (int k) x then none else prot v x)"
    unfolding cov split by (rule ext) simp
  ultimately show ?case
    unfolding q using m'(1) by (intro exI [of _ m']) (simp add: page_ptr_def)
qed

lemma protect_thread:
  assumes ok: "vm_pages v N" and al: "(memPtr v + MEMORY_START) mod pgSize v = 0"
    and run: "run_of_pages (bytes v) (memPtr v) N pid k"
  shows "\<exists>m'. bindR (findPage (bytes v) (memPtr v) pid 1) (\<lambda>(m, p). protect_loop (v\<lparr>bytes := m\<rparr>) pid none p 2) =
      retn (v\<lparr>bytes := m', prot := (\<lambda>x. if covers (bytes v) (memPtr v) (pgSize v) N pid 1 (int k) x
          then none else prot v x)\<rparr>, 0) \<and>
    differ (bytes v) m' (memPtr v) N {Swapclock} \<and> pages_ok m' (memPtr v) (pgSize v) N"
proof -
  obtain m1 where m1: "findPage (bytes v) (memPtr v) pid 1 =
      retn (m1, page_ptr (memPtr v) (page_at (bytes v) (memPtr v) N pid 1))"
    "differ (bytes v) m1 (memPtr v) N {Swapclock}" "pages_ok m1 (memPtr v) (pgSize v) N"
    using findPage_page_at [OF ok] by blast
  have at: "page_at m1 (memPtr v) N pid j = page_at (bytes v) (memPtr v) N pid j" for j
    by (rule differ_page_at [OF m1(2)])
  have "run_of_pages m1 (memPtr v) N pid k" using run by (simp add: run_of_pages_def at)
  then obtain m' where m': "protect_loop (v\<lparr>bytes := m1\<rparr>) pid none
        (page_ptr (memPtr v) (page_at m1 (memPtr v) N pid 1)) 2 =
      retn (v\<lparr>bytes := m', prot := (\<lambda>x. if covers m1 (memPtr v) (pgSize v) N pid 1 (int k) x
          then none else prot v x)\<rparr>, 0)" "differ m1 m' (memPtr v) N {Swapclock}"
    using protect_loop_pages [of 1 k k "v\<lparr>bytes := m1\<rparr>" N pid none] m1(3) al by auto
  have d: "differ (bytes v) m' (memPtr v) N {Swapclock}" by (rule differ_trans [OF m1(2) m'(2)])
  moreover have "pages_ok m' (memPtr v) (pgSize v) N" by (rule differ_pages_ok [OF ok d]) simp
  moreover have "covers m1 (memPtr v) (pgSize v) N pid 1 (int k) =
      covers (bytes v) (memPtr v) (pgSize v) N pid 1 (int k)"
    by (intro ext) (simp add: covers_def at)
  ultimately show ?thesis using m1(1) m'(1) by (intro exI [of _ m']) (simp add: at)
qed

section \<open>Properties\<close>

text \<open>
  \<open>memoryProtect(pid)\<close> returns 0 and takes away exactly the thread's own pages: when
  pages 1 to \<open>k\<close> of the thread are in memory and page \<open>k + 1\<close> is not, the addresses under
  \<open>PROT_NONE\<close> afterwards are those from before and the frames of these \<open>k\<close> pages. Of the page
  table only \<open>swapclock\<close> fields change.
\<close>

theorem memoryProtect_protects:
  assumes "vm_pages v N" "(memPtr v + MEMORY_START) mod pgSize v = 0"
    and "run_of_pages (bytes v) (memPtr v) N pid k"
  shows "\<exists>m'. memoryProtect v pid = retn (v\<lparr>bytes := m',
      prot := (\<lambda>x. covers (bytes v) (memPtr v) (pgSize v) N pid 1 (int k) x \<or> prot v x)\<rparr>, 0) \<and>
    differ (bytes v) m' (memPtr v) N {Swapclock}"
proof -
  have "(\<lambda>x. if covers (bytes v) (memPtr v) (pgSize v) N pid 1 (int k) x then True else prot v x) =
      (\<lambda>x. covers (bytes v) (memPtr v) (pgSize v) N pid 1 (int k) x \<or> prot v x)" by auto
  then show ?thesis using protect_thread [OF assms, of True] by (auto simp: memoryProtect_def)
qed

theorem memoryProtect_protects_witness:
  "\<exists>m m'. memoryProtect (example_vm m) 7 = retn ((example_vm m)\<lparr>bytes := m', prot := (\<lambda>x. 2105344 \<le> x \<and> x < 2109440)\<rparr>, 0)"
proof -
  define m where "m = put four_pages Pid (node 4096 1) 7"
  have ok: "pages_ok m 4096 4096 4"
    unfolding m_def by (rule pages_ok_put [OF four_pages(1)]) simp_all
  have own: "owns m 4096 7 order i \<longleftrightarrow> i = 1 \<and> order = 1" if "i < 4" for order i
    using four_pages(2) [OF that] by (auto simp: owns_def m_def pg_put s32_def Let_def)
  have at: "page_at m 4096 4 7 order = (if order = 1 then Some 1 else None)" for order
    by (auto simp: page_at_def find_upt_Some find_upt_None own)
  have "run_of_pages m 4096 4 7 1" by (simp add: run_of_pages_def at)
  moreover have "covers m 4096 4096 4 7 1 1 x \<longleftrightarrow> 2105344 \<le> x \<and> x < 2109440" for x
    by (auto simp: covers_def at frame_def split: if_splits)
  ultimately show ?thesis
    using memoryProtect_protects [of "example_vm m" 4 7 1] ok
    by (auto simp: example_vm_def)
qed

end
