(* ===== verification/Page_Moves.thy ===== *)
theory Page_Moves
  imports Protection
begin

text \<open>
  Pages on the move: what two exchanges do one after the other, how \<open>getFreePage\<close> hands out
  a page, and where \<open>loadProcessPages\<close> puts the pages of a thread.
\<close>

section \<open>Moves compose\<close>

text \<open>The part of \<open>moved\<close> that concerns the frame.\<close>

definition frame_moved :: "memory \<Rightarrow> memory \<Rightarrow> addr \<Rightarrow> nat \<Rightarrow> nat \<Rightarrow> nat \<Rightarrow> bool" where
  "frame_moved m m' mem psz i j \<longleftrightarrow>
     (\<forall>k<psz. (\<forall>a\<in>set (walk m (frame mem psz j) 0 psz). frame mem psz j + k \<notin> ptr_bytes a) \<longrightarrow>
        m' (frame mem psz i + k) = m (frame mem psz j + k)) \<and>
     rep m' (frame mem psz i) (reloc (frame mem psz j) (frame mem psz i) (page_elems m (frame mem psz j) psz))"

lemma moved_frame_moved: "moved m m' mem psz i j \<Longrightarrow> frame_moved m m' mem psz i j"
  by (simp add: moved_def frame_moved_def)

lemma walk_sizes:
  assumes "\<And>a. a \<in> set (walk m n s sz) \<Longrightarrow> get m' Size (n' + (a - n)) = get m Size a"
  shows "walk m' n' s sz = map (\<lambda>a. n' + (a - n)) (walk m n s sz)"
  using assms
proof (induction m n s sz arbitrary: n' rule: walk.induct)
  case (1 m n s sz)
  show ?case
  proof (cases "s < sz \<and> sz - s > sizeof_SpaceNode")
    case False
    then show ?thesis by (simp add: walk_stop [OF False])
  next
    case True
    let ?k = "56 + get m Size n"
    have ws: "walk m n s sz = n # walk m (n + ?k) (s + ?k) sz"
      using walk_step [OF True, of m n] by (simp add: add.assoc)
    have sz: "get m' Size n' = get m Size n" using "1.prems" [of n] ws by simp
    have same: "n' + ?k + (a - (n + ?k)) = n' + (a - n)" if "a \<in> set (walk m (n + ?k) (s + ?k) sz)" for a
      using walk_lower [OF that] by simp
    have "walk m' (n' + ?k) (s + ?k) sz =
        map (\<lambda>a. n' + ?k + (a - (n + ?k))) (walk m (n + ?k) (s + ?k) sz)"
      using "1.IH" [OF True, of "n' + ?k"] "1.prems" ws same by (simp add: add.assoc)
    moreover have "\<dots> = map (\<lambda>a. n' + (a - n)) (walk m (n + ?k) (s + ?k) sz)"
      using same by simp
    ultimately show ?thesis using ws sz walk_step [OF True, of m' n'] by (simp add: add.assoc)
  qed
qed

text \<open>The elements of a moved page are the same, at the new place.\<close>

lemma frame_moved_fields:
  assumes "frame_moved m m' mem psz i j" "a \<in> set (walk m (frame mem psz j) 0 psz)" "f \<in> {Free, Size}"
  shows "(get m' f (frame mem psz i + (a - frame mem psz j)) \<noteq> 0) = (get m f a \<noteq> 0)"
    and "f = Size \<Longrightarrow> get m' f (frame mem psz i + (a - frame mem psz j)) = get m f a"
proof -
  let ?n = "frame mem psz j" and ?n' = "frame mem psz i"
  have mem: "(?n' + (a - ?n), get m Free a \<noteq> 0, get m Size a) \<in>
      set (reloc ?n ?n' (page_elems m ?n psz))"
    using assms(2) by (force simp: reloc_def page_elems_def)
  have "rep m' ?n' (reloc ?n ?n' (page_elems m ?n psz))" using assms(1) by (simp add: frame_moved_def)
  from rep_block [OF this mem] show "(get m' f (?n' + (a - ?n)) \<noteq> 0) = (get m f a \<noteq> 0)"
    "f = Size \<Longrightarrow> get m' f (?n' + (a - ?n)) = get m f a"
    using assms(3) by auto
qed

lemma frame_moved_walk:
  assumes "frame_moved m m' mem psz i j"
  shows "walk m' (frame mem psz i) 0 psz =
    map (\<lambda>a. frame mem psz i + (a - frame mem psz j)) (walk m (frame mem psz j) 0 psz)"
  by (rule walk_sizes) (use frame_moved_fields(2) [OF assms] in auto)

lemma frame_moved_elems:
  assumes "frame_moved m m' mem psz i j"
  shows "page_elems m' (frame mem psz i) psz =
    reloc (frame mem psz j) (frame mem psz i) (page_elems m (frame mem psz j) psz)"
  using frame_moved_fields [OF assms] unfolding page_elems_def frame_moved_walk [OF assms]
  by (auto simp: reloc_def)

lemma reloc_reloc:
  assumes "\<And>b. b \<in> set bs \<Longrightarrow> from \<le> fst b"
  shows "reloc mid to (reloc from mid bs) = reloc from to bs"
  using assms by (auto simp: reloc_def)

lemma frame_moved_trans:
  assumes "frame_moved m m1 mem psz i j" "frame_moved m1 m2 mem psz h i"
  shows "frame_moved m m2 mem psz h j"
proof -
  let ?fj = "frame mem psz j" and ?fi = "frame mem psz i" and ?fh = "frame mem psz h"
  have "m2 (?fh + k) = m (?fj + k)"
    if k: "k < psz" "\<forall>a\<in>set (walk m ?fj 0 psz). ?fj + k \<notin> ptr_bytes a" for k
  proof -
    have "?fi + k \<notin> ptr_bytes (?fi + (a - ?fj))" if "a \<in> set (walk m ?fj 0 psz)" for a
      using k(2) that walk_lower [OF that] by (auto simp: ptr_bytes_def)
    then have "\<forall>a\<in>set (walk m1 ?fi 0 psz). ?fi + k \<notin> ptr_bytes a"
      by (auto simp: frame_moved_walk [OF assms(1)])
    then show ?thesis using assms k by (simp add: frame_moved_def)
  qed
  moreover have "reloc ?fi ?fh (page_elems m1 ?fi psz) = reloc ?fj ?fh (page_elems m ?fj psz)"
    unfolding frame_moved_elems [OF assms(1)] by (rule reloc_reloc) (rule page_elems_bounds)
  ultimately show ?thesis using assms(2) by (simp add: frame_moved_def)
qed

lemma frame_moved_cong:
  assumes "frame_moved m m1 mem psz i j" "\<And>k. k < psz \<Longrightarrow> m2 (frame mem psz i + k) = m1 (frame mem psz i + k)"
  shows "frame_moved m m2 mem psz i j"
proof -
  let ?bs = "reloc (frame mem psz j) (frame mem psz i) (page_elems m (frame mem psz j) psz)"
  have "frame mem psz i \<le> fst b \<and> fst b + sizeof_SpaceNode \<le> frame mem psz i + psz" if "b \<in> set ?bs" for b
    using that page_elems_bounds [of b m1] by (simp flip: frame_moved_elems [OF assms(1)])
  then have "rep m2 (frame mem psz i) ?bs"
    using assms rep_frame_cong [of psz m2 "frame mem psz i" m1 ?bs] by (auto simp: frame_moved_def)
  then show ?thesis using assms by (simp add: frame_moved_def)
qed

lemma frame_moved_src_cong:
  assumes "frame_moved m1 m' mem psz i j" "\<And>k. k < psz \<Longrightarrow> m1 (frame mem psz j + k) = m (frame mem psz j + k)"
  shows "frame_moved m m' mem psz i j"
proof -
  have "walk m1 (frame mem psz j) 0 psz = walk m (frame mem psz j) 0 psz"
    using walk_reloc [of psz 0 m1 "frame mem psz j" m "frame mem psz j"] assms(2) walk_lower
    by (simp add: map_idI)
  moreover have "page_elems m1 (frame mem psz j) psz = page_elems m (frame mem psz j) psz"
    using page_elems_reloc [of psz m1 "frame mem psz j" m "frame mem psz j"] assms(2) page_elems_bounds(1)
    by (auto simp: reloc_def intro!: map_idI)
  ultimately show ?thesis using assms by (simp add: frame_moved_def)
qed

section \<open>Getting a page\<close>

lemma store_node_pg:
  assumes "pages_ok m mem psz N" "i < N"
  shows "pg (store_node m (frame mem psz k) s) mem i f = pg m mem i f"
  using node_frame_disjnt [OF assms, of k sizeof_SpaceNode]
  by (intro get_store_node_apart) (auto simp: disjnt_def apart_def)

lemma store_node_frame:
  assumes "pages_ok m mem psz N" "i \<noteq> k" "x < psz"
  shows "store_node m (frame mem psz k) s (frame mem psz i + x) = m (frame mem psz i + x)"
  using frame_disjnt [OF assms(2), of mem psz] pages_okD(4) [OF assms(1)] assms(3)
  by (intro store_node_outside) (auto simp: disjnt_def)

lemma fresh_page:
  assumes ok: "pages_ok m mem psz N" and "k < N"
  shows "page_elems (initializeSpace junk m (frame mem psz k) psz) (frame mem psz k) psz =
      [(frame mem psz k, True, psz - sizeof_SpaceNode)]"
    and "rep (initializeSpace junk m (frame mem psz k) psz) (frame mem psz k)
      [(frame mem psz k, True, psz - sizeof_SpaceNode)]"
proof -
  let ?f = "frame mem psz k" and ?m = "initializeSpace junk m (frame mem psz k) psz"
  note b = pages_okD(4,5) [OF ok] frame_end [OF assms] frame_nonzero [OF ok]
  have f: "get ?m Free ?f = 1" "get ?m Size ?f = psz - 56" "get ?m Start ?f = ?f + 56" "get ?m Next ?f = 0"
    using b by (simp_all add: initializeSpace_def sub64_le)
  then show "rep ?m ?f [(?f, True, psz - 56)]" using b by simp
  have "walk ?m ?f 0 psz = ?f # walk ?m (?f + 56 + (psz - 56)) (0 + 56 + (psz - 56)) psz"
    using walk_step [of 0 psz ?m ?f] b(1) f(2) by simp
  also have "\<dots> = [?f]" using b(1) by (simp add: walk_stop)
  finally show "page_elems ?m ?f psz = [(?f, True, psz - 56)]" using f by (simp add: page_elems_def)
qed

lemma untouched_trans: "untouched m m1 mem psz k \<Longrightarrow> untouched m1 m2 mem psz k \<Longrightarrow> untouched m m2 mem psz k"
  by (simp add: untouched_def)

text \<open>The page that \<open>getFreePage\<close> takes, before it moves it to the front.\<close>

definition claimed :: "SpaceNode \<Rightarrow> memory \<Rightarrow> addr \<Rightarrow> nat \<Rightarrow> nat \<Rightarrow> nat \<Rightarrow> memory" where
  "claimed junk m mem psz k pid =
     initializeSpace junk (put (put m Free (node mem k) 0) Pid (node mem k) pid) (frame mem psz k) psz"

lemma claimed_pages:
  assumes ok: "pages_ok m mem psz N" and k: "k < N" and pid: "pid < 2 ^ 32"
    and m3: "m3 = claimed junk m mem psz k pid"
  shows "pages_ok m3 mem psz N"
    and "pg m3 mem k f = (if f = Free then 0 else if f = Pid then pid else pg m mem k f)"
    and "j < N \<Longrightarrow> j \<noteq> k \<Longrightarrow> untouched m m3 mem psz j"
    and "page_elems m3 (frame mem psz k) psz = [(frame mem psz k, True, psz - sizeof_SpaceNode)]"
    and "rep m3 (frame mem psz k) [(frame mem psz k, True, psz - sizeof_SpaceNode)]"
proof -
  define m2 where "m2 = put (put m Free (node mem k) 0) Pid (node mem k) pid"
  have m3': "m3 = initializeSpace junk m2 (frame mem psz k) psz" by (simp add: m3 claimed_def m2_def)
  have ok2: "pages_ok m2 mem psz N"
    unfolding m2_def by (intro pages_ok_put ok) (use k in auto)
  have pg3: "pg m3 mem i f = pg m2 mem i f" if "i < N" for i f
    unfolding m3' initializeSpace_def by (rule store_node_pg [OF ok2 that])
  show "pages_ok m3 mem psz N" by (rule pages_ok_cong [OF ok2]) (rule pg3)
  show "pg m3 mem k f = (if f = Free then 0 else if f = Pid then pid else pg m mem k f)"
    using pid by (simp add: pg3 [OF k] m2_def)
  have "m2 (frame mem psz i + x) = m (frame mem psz i + x)" for i x
    using node_bytes [OF ok k, of 55 i] unfolding m2_def by (simp add: put_outside)
  then show "untouched m m3 mem psz j" if "j < N" "j \<noteq> k"
    using that store_node_frame [OF ok2 that(2)] pg3 [OF that(1)]
    by (simp add: untouched_def m3' initializeSpace_def m2_def pg_put)
  show "page_elems m3 (frame mem psz k) psz = [(frame mem psz k, True, psz - 56)]"
    "rep m3 (frame mem psz k) [(frame mem psz k, True, psz - 56)]"
    unfolding m3' by (rule fresh_page [OF ok2 k])+
qed

lemma getFreePage_run:
  assumes ok: "vm_pages v N" and free: "find (\<lambda>i. pg (bytes v) (memPtr v) i Free \<noteq> 0) [0..<N] = Some k"
  shows "getFreePage junk v pid =
    bindR (swapPages (claimed junk (bytes v) (memPtr v) (pgSize v) k pid) (pgSize v) (node (memPtr v) 0) (node (memPtr v) k))
      (\<lambda>m. retn (v\<lparr>bytes := m\<rparr>, memPtr v))"
proof -
  let ?m2 = "put (put (bytes v) Free (node (memPtr v) k) 0) Pid (node (memPtr v) k) pid"
  have k: "k < N" using free by (simp add: find_upt_Some)
  then have "pages_ok ?m2 (memPtr v) (pgSize v) N" by (intro pages_ok_put ok) auto
  then have "get ?m2 Start (node (memPtr v) k) = frame (memPtr v) (pgSize v) k"
    "get ?m2 Size (node (memPtr v) k) = pgSize v" using pages_okD(9,10) k by blast+
  moreover have "findFreePage (bytes v) (memPtr v) = retn (node (memPtr v) k)"
    using findFreePage_pages [OF ok] free by simp
  ultimately show ?thesis
    using node_nonzero [OF ok, of k]
    by (subst getFreePage.simps)
      (simp add: Let_def VIRTUAL_MEMORY_def getFirstPage_def claimed_def del: node_eq_0)
qed

lemma getFreePage_pages:
  assumes ok: "vm_pages v N" and free: "find (\<lambda>i. pg (bytes v) (memPtr v) i Free \<noteq> 0) [0..<N] = Some k"
    and pid: "pid < 2 ^ 32"
  shows "\<exists>m'. getFreePage junk v pid = retn (v\<lparr>bytes := m'\<rparr>, memPtr v) \<and>
    pages_ok m' (memPtr v) (pgSize v) N \<and>
    pg m' (memPtr v) 0 Pid = pid \<and> pg m' (memPtr v) 0 Free = 0 \<and>
    (\<forall>f. f \<notin> {Start, Next, Prev, Pid, Free} \<longrightarrow> pg m' (memPtr v) 0 f = pg (bytes v) (memPtr v) k f) \<and>
    rep m' (frame (memPtr v) (pgSize v) 0)
      [(frame (memPtr v) (pgSize v) 0, True, pgSize v - sizeof_SpaceNode)] \<and>
    (k \<noteq> 0 \<longrightarrow> moved (bytes v) m' (memPtr v) (pgSize v) k 0) \<and>
    (\<forall>j<N. j \<noteq> 0 \<longrightarrow> j \<noteq> k \<longrightarrow> untouched (bytes v) m' (memPtr v) (pgSize v) j)"
proof -
  let ?m = "bytes v" and ?mp = "memPtr v" and ?psz = "pgSize v"
  have k: "k < N" "0 < N" using free pages_okD(2) [OF ok] by (auto simp: find_upt_Some)
  define m3 where "m3 = claimed junk ?m ?mp ?psz k pid"
  note c = claimed_pages [OF ok k(1) pid m3_def]
  note run = getFreePage_run [OF ok free, of junk pid, folded m3_def]
  show ?thesis
  proof (cases "k = 0")
    case True
    then have "getFreePage junk v pid = retn (v\<lparr>bytes := m3\<rparr>, ?mp)"
      by (simp add: run swapPages_def)
    then show ?thesis using c True by (intro exI [of _ m3]) auto
  next
    case False
    obtain m4 where m4: "swapPages m3 ?psz (node ?mp 0) (node ?mp k) = retn m4"
      "pages_ok m4 ?mp ?psz N" "moved m3 m4 ?mp ?psz 0 k" "moved m3 m4 ?mp ?psz k 0"
      "\<forall>j<N. j \<noteq> 0 \<longrightarrow> j \<noteq> k \<longrightarrow> untouched m3 m4 ?mp ?psz j"
      using swapPages_pages [OF c(1) k(2,1)] False by blast
    have u0: "untouched ?m m3 ?mp ?psz 0" using c(3) k(2) False by simp
    have "frame_moved ?m m4 ?mp ?psz k 0"
      by (rule frame_moved_src_cong [OF moved_frame_moved [OF m4(4)]]) (use u0 in \<open>simp add: untouched_def\<close>)
    moreover have "pg m4 ?mp k f = pg ?m ?mp 0 f" if "f \<notin> {Start, Next, Prev}" for f
      using m4(4) that u0 by (simp add: moved_def untouched_def)
    ultimately have "moved ?m m4 ?mp ?psz k 0" by (simp add: moved_def frame_moved_def)
    moreover have "rep m4 (frame ?mp ?psz 0) [(frame ?mp ?psz 0, True, ?psz - 56)]"
      using m4(3) by (simp add: moved_def c(4) reloc_def)
    moreover have "pg m4 ?mp 0 f = pg m3 ?mp k f" if "f \<notin> {Start, Next, Prev}" for f
      using m4(3) that by (simp add: moved_def)
    moreover have "untouched ?m m4 ?mp ?psz j" if "j < N" "j \<noteq> 0" "j \<noteq> k" for j
      by (rule untouched_trans [OF c(3)]) (use m4(5) that in auto)
    ultimately show ?thesis
      using run m4(1,2) c(2) by (intro exI [of _ m4]) auto
  qed
qed

section \<open>Loading the pages of a thread\<close>

lemma find_or_swap_pages:
  assumes "vm_pages v N"
  shows "\<exists>m'. find_or_swap junk v pid order =
      retn (v\<lparr>bytes := m'\<rparr>, page_ptr (memPtr v) (page_at (bytes v) (memPtr v) N pid order)) \<and>
    differ (bytes v) m' (memPtr v) N {Swapclock} \<and> pages_ok m' (memPtr v) (pgSize v) N"
  using findPage_page_at [OF assms, of pid order] by (auto simp: find_or_swap_def USE_FIND_IN_SWAP_def Let_def)

text \<open>
  What becomes of the data of a page: the same bytes apart from list pointers, the same
  elements at the new place, and still a proper list if it was one.
\<close>

definition carried :: "memory \<Rightarrow> memory \<Rightarrow> addr \<Rightarrow> nat \<Rightarrow> nat \<Rightarrow> nat \<Rightarrow> bool" where
  "carried m m' mem psz i j \<longleftrightarrow>
     (\<forall>k<psz. (\<forall>a\<in>set (walk m (frame mem psz j) 0 psz). frame mem psz j + k \<notin> ptr_bytes a) \<longrightarrow>
        m' (frame mem psz i + k) = m (frame mem psz j + k)) \<and>
     page_elems m' (frame mem psz i) psz =
       reloc (frame mem psz j) (frame mem psz i) (page_elems m (frame mem psz j) psz) \<and>
     (rep m (frame mem psz j) (page_elems m (frame mem psz j) psz) \<longrightarrow>
        rep m' (frame mem psz i) (page_elems m' (frame mem psz i) psz))"

lemma frame_moved_carried: "frame_moved m m' mem psz i j \<Longrightarrow> carried m m' mem psz i j"
  using frame_moved_elems [of m m' mem psz i j] by (simp add: carried_def frame_moved_def)

lemma page_elems_walk: "map fst (page_elems m n sz) = walk m n 0 sz"
  by (simp add: page_elems_def comp_def)

lemma carried_walk:
  assumes "carried m m' mem psz i j"
  shows "walk m' (frame mem psz i) 0 psz =
    map (\<lambda>a. frame mem psz i + (a - frame mem psz j)) (walk m (frame mem psz j) 0 psz)"
  using assms unfolding carried_def page_elems_walk [symmetric] by (auto simp: reloc_def)

lemma carried_same:
  assumes "\<And>k. k < psz \<Longrightarrow> m' (frame mem psz i + k) = m (frame mem psz i + k)"
  shows "carried m m' mem psz i i"
proof -
  have e: "page_elems m' (frame mem psz i) psz = page_elems m (frame mem psz i) psz"
    using page_elems_reloc [of psz m' "frame mem psz i" m "frame mem psz i"] assms page_elems_bounds(1)
    by (auto simp: reloc_def intro!: map_idI)
  have "rep m' (frame mem psz i) (page_elems m (frame mem psz i) psz) \<longleftrightarrow>
      rep m (frame mem psz i) (page_elems m (frame mem psz i) psz)"
    by (rule rep_frame_cong [of psz]) (use assms page_elems_bounds in auto)
  moreover have "reloc (frame mem psz i) (frame mem psz i) (page_elems m (frame mem psz i) psz) =
      page_elems m (frame mem psz i) psz"
    using page_elems_bounds(1) by (auto simp: reloc_def intro!: map_idI)
  ultimately show ?thesis using assms e by (simp add: carried_def)
qed

lemma carried_trans:
  assumes "carried m m1 mem psz i j" "carried m1 m2 mem psz h i"
  shows "carried m m2 mem psz h j"
proof -
  let ?fj = "frame mem psz j" and ?fi = "frame mem psz i" and ?fh = "frame mem psz h"
  have "m2 (?fh + k) = m (?fj + k)"
    if k: "k < psz" "\<forall>a\<in>set (walk m ?fj 0 psz). ?fj + k \<notin> ptr_bytes a" for k
  proof -
    have "?fi + k \<notin> ptr_bytes (?fi + (a - ?fj))" if "a \<in> set (walk m ?fj 0 psz)" for a
      using k(2) that walk_lower [OF that] by (auto simp: ptr_bytes_def)
    then have "\<forall>a\<in>set (walk m1 ?fi 0 psz). ?fi + k \<notin> ptr_bytes a"
      by (auto simp: carried_walk [OF assms(1)])
    then show ?thesis using assms k by (simp add: carried_def)
  qed
  moreover have "page_elems m2 ?fh psz = reloc ?fj ?fh (page_elems m ?fj psz)"
  proof -
    have "page_elems m2 ?fh psz = reloc ?fi ?fh (reloc ?fj ?fi (page_elems m ?fj psz))"
      using assms by (simp add: carried_def)
    also have "\<dots> = reloc ?fj ?fh (page_elems m ?fj psz)" by (rule reloc_reloc) (rule page_elems_bounds)
    finally show ?thesis .
  qed
  moreover have "rep m ?fj (page_elems m ?fj psz) \<longrightarrow> rep m2 ?fh (page_elems m2 ?fh psz)"
    using assms unfolding carried_def by blast
  ultimately show ?thesis unfolding carried_def by blast
qed

text \<open>\<open>arranged m m' mem psz N \<pi>\<close>: page \<open>k\<close> of \<open>m'\<close> is page \<open>\<pi> k\<close> of \<open>m\<close>.\<close>

definition arranged :: "memory \<Rightarrow> memory \<Rightarrow> addr \<Rightarrow> nat \<Rightarrow> nat \<Rightarrow> (nat \<Rightarrow> nat) \<Rightarrow> bool" where
  "arranged m m' mem psz N \<pi> \<longleftrightarrow>
     (\<forall>k<N. \<pi> k < N \<and> (\<forall>pid order. owns m' mem pid order k = owns m mem pid order (\<pi> k)) \<and>
            carried m m' mem psz k (\<pi> k))"

lemma arranged_refl: "arranged m m mem psz N id"
  by (simp add: arranged_def carried_same)

lemma arranged_trans:
  assumes "arranged m m1 mem psz N \<pi>" "arranged m1 m2 mem psz N \<sigma>"
  shows "arranged m m2 mem psz N (\<pi> \<circ> \<sigma>)"
  unfolding arranged_def
proof (intro allI impI)
  fix k
  assume "k < N"
  then have 2: "\<sigma> k < N" "\<forall>pid order. owns m2 mem pid order k = owns m1 mem pid order (\<sigma> k)"
    "carried m1 m2 mem psz k (\<sigma> k)" using assms(2) by (auto simp: arranged_def)
  then have 1: "\<pi> (\<sigma> k) < N" "\<forall>pid order. owns m1 mem pid order (\<sigma> k) = owns m mem pid order (\<pi> (\<sigma> k))"
    "carried m m1 mem psz (\<sigma> k) (\<pi> (\<sigma> k))" using assms(1) by (auto simp: arranged_def)
  show "(\<pi> \<circ> \<sigma>) k < N \<and> (\<forall>pid order. owns m2 mem pid order k = owns m mem pid order ((\<pi> \<circ> \<sigma>) k)) \<and>
      carried m m2 mem psz k ((\<pi> \<circ> \<sigma>) k)"
    using 1 2 carried_trans [OF 1(3) 2(3)] by simp
qed

lemma differ_arranged:
  assumes "pages_ok m mem psz N" "differ m m' mem N {Swapclock}"
  shows "arranged m m' mem psz N id"
proof -
  have "m' (frame mem psz k + x) = m (frame mem psz k + x)" for k x
    using assms pages_okD(3) [OF assms(1)] by (auto simp: differ_def frame_def)
  then show ?thesis using differ_owns [OF assms(2)] by (simp add: arranged_def carried_same)
qed

definition swapped :: "nat \<Rightarrow> nat \<Rightarrow> nat \<Rightarrow> nat" where
  "swapped i j k = (if k = i then j else if k = j then i else k)"

lemma swapPages_arranged:
  assumes ok: "pages_ok m mem psz N" and ij: "i < N" "j < N"
  shows "\<exists>m'. swapPages m psz (node mem i) (node mem j) = retn m' \<and> pages_ok m' mem psz N \<and>
    arranged m m' mem psz N (swapped i j)"
proof (cases "i = j")
  case True
  then have "swapped i j = id" by (auto simp: swapped_def)
  then show ?thesis using ok True arranged_refl by (simp add: swapPages_def)
next
  case False
  obtain m' where m': "swapPages m psz (node mem i) (node mem j) = retn m'" "pages_ok m' mem psz N"
    "moved m m' mem psz i j" "moved m m' mem psz j i"
    "\<forall>k<N. k \<noteq> i \<longrightarrow> k \<noteq> j \<longrightarrow> untouched m m' mem psz k"
    using swapPages_pages [OF ok ij False] by blast
  have "owns m' mem pid order k = owns m mem pid order (swapped i j k)" if "k < N" for k pid order
    using m'(3-5) that by (auto simp: owns_def moved_def untouched_def swapped_def)
  moreover have "carried m m' mem psz k (swapped i j k)" if "k < N" for k
    using m'(3-5) that moved_frame_moved frame_moved_carried carried_same
    by (auto simp: swapped_def untouched_def)
  ultimately show ?thesis using m'(1,2) ij by (auto simp: arranged_def swapped_def)
qed

section \<open>Properties\<close>

text \<open>
  C15. \<open>swapPages\<close> exchanges two pages and nothing else. On a well-formed page table it
  returns, keeps the table well-formed, gives each of the two nodes the data of the other,
  moves the bytes of each frame to the other frame, and repairs the element lists so that
  the same elements form the same list at the new addresses. Every other page is untouched.
\<close>

theorem swapPages_exchanges:
  assumes "pages_ok m mem psz N" "i < N" "j < N" "i \<noteq> j"
  shows "\<exists>m'. swapPages m psz (node mem i) (node mem j) = retn m' \<and> pages_ok m' mem psz N \<and>
    moved m m' mem psz i j \<and> moved m m' mem psz j i \<and>
    (\<forall>k<N. k \<noteq> i \<longrightarrow> k \<noteq> j \<longrightarrow> untouched m m' mem psz k)"
  by (rule swapPages_pages [OF assms])

theorem swapPages_exchanges_witness:
  "\<exists>m'. swapPages four_pages 4096 4096 (4096 + 3 * sizeof_SpaceNode) = retn m' \<and>
     moved four_pages m' 4096 4096 0 3 \<and> moved four_pages m' 4096 4096 3 0 \<and>
     untouched four_pages m' 4096 4096 1"
  using swapPages_exchanges [OF four_pages(1), of 0 3] by (auto simp: node_def)

text \<open>
  Swapping twice gives every page its data back: after \<open>swapPages(p, q)\<close> and again
  \<open>swapPages(p, q)\<close> every page has its owner, its order, its elements and all bytes that are
  not list pointers.
\<close>

theorem swapPages_twice:
  assumes "pages_ok m mem psz N" "i < N" "j < N"
  shows "\<exists>m'. bindR (swapPages m psz (node mem i) (node mem j)) (\<lambda>m1.
      swapPages m1 psz (node mem i) (node mem j)) = retn m' \<and> arranged m m' mem psz N id"
proof -
  obtain m1 where m1: "swapPages m psz (node mem i) (node mem j) = retn m1" "pages_ok m1 mem psz N"
    "arranged m m1 mem psz N (swapped i j)" using swapPages_arranged [OF assms] by blast
  obtain m2 where m2: "swapPages m1 psz (node mem i) (node mem j) = retn m2"
    "arranged m1 m2 mem psz N (swapped i j)" using swapPages_arranged [OF m1(2) assms(2,3)] by blast
  have "swapped i j \<circ> swapped i j = id" by (auto simp: swapped_def)
  then show ?thesis using arranged_trans [OF m1(3) m2(2)] m1(1) m2(1) by simp
qed

theorem swapPages_twice_witness:
  "\<exists>m'. bindR (swapPages four_pages 4096 4096 4264) (\<lambda>m1. swapPages m1 4096 4096 4264) = retn m' \<and>
     arranged four_pages m' 4096 4096 4 id"
  using swapPages_twice [OF four_pages(1), of 0 3] by (simp add: node_def)

text \<open>
  \<open>getFreePage\<close> when a page is free. It takes the first free page \<open>k\<close>, makes the
  thread its owner, empties it to one free element, and moves it to the front, so the node
  returned is the first one; the page that was in front is now at \<open>k\<close> with its data, and no
  other page changes. The \<open>order\<close> of the page is the one it happened to have.
\<close>

theorem getFreePage_front:
  assumes "vm_pages v N" "pid < 2 ^ 32"
    and "find (\<lambda>i. pg (bytes v) (memPtr v) i Free \<noteq> 0) [0..<N] = Some k"
  shows "\<exists>m'. getFreePage junk v pid = retn (v\<lparr>bytes := m'\<rparr>, memPtr v) \<and>
    pages_ok m' (memPtr v) (pgSize v) N \<and>
    pg m' (memPtr v) 0 Pid = pid \<and> pg m' (memPtr v) 0 Free = 0 \<and>
    pg m' (memPtr v) 0 Order = pg (bytes v) (memPtr v) k Order \<and>
    rep m' (frame (memPtr v) (pgSize v) 0)
      [(frame (memPtr v) (pgSize v) 0, True, pgSize v - sizeof_SpaceNode)] \<and>
    (k \<noteq> 0 \<longrightarrow> moved (bytes v) m' (memPtr v) (pgSize v) k 0) \<and>
    (\<forall>j<N. j \<noteq> 0 \<longrightarrow> j \<noteq> k \<longrightarrow> untouched (bytes v) m' (memPtr v) (pgSize v) j)"
proof -
  have "Order \<notin> {Start, Next, Prev, Pid, Free}" by simp
  then show ?thesis using getFreePage_pages [OF assms(1,3,2), of junk] by blast
qed

theorem getFreePage_front_witness:
  "\<exists>m'. getFreePage zero_node (example_vm four_pages) 7 =
      retn ((example_vm four_pages)\<lparr>bytes := m'\<rparr>, 4096) \<and>
    get m' Pid 4096 = 7 \<and> get m' Order 4096 = 1 \<and> rep m' 2101248 [(2101248, True, 4040)]"
proof -
  have "find (\<lambda>i. pg four_pages 4096 i Free \<noteq> 0) [0..<4] = Some 0"
    using four_pages(2) [of 0] by (simp add: find_upt_Some)
  then show ?thesis
    using getFreePage_front [of "example_vm four_pages" 4 7 0 zero_node] four_pages(1) four_pages(2) [of 0]
    by (auto simp: example_vm_def frame_def)
qed

end
