(* ===== verification/Page_Load.thy ===== *)
theory Page_Load
  imports Page_Moves
begin

text \<open>
  Where \<open>loadProcessPages\<close> puts the pages of a thread. The routine is refined to one on
  permutations of page labels, which shows that it places the first two pages and where it
  goes wrong from the third on.
\<close>

section \<open>The routine on labels\<close>

text \<open>
  \<open>lab\<close> gives the (thread, order) label of every original page, \<open>\<pi> k\<close> is the original page
  now at index \<open>k\<close>.
\<close>

definition where_is :: "nat \<Rightarrow> (nat \<Rightarrow> nat \<times> int) \<Rightarrow> (nat \<Rightarrow> nat) \<Rightarrow> nat \<Rightarrow> int \<Rightarrow> nat option" where
  "where_is N lab \<pi> pid i = find (\<lambda>k. lab (\<pi> k) = (pid, i)) [0..<N]"

partial_function (option) aload_loop ::
  "nat \<Rightarrow> (nat \<Rightarrow> nat \<times> int) \<Rightarrow> nat \<Rightarrow> (nat \<Rightarrow> nat) \<Rightarrow> nat \<Rightarrow> nat option \<Rightarrow> int \<Rightarrow> (nat \<Rightarrow> nat) ret" where
  "aload_loop N lab pid \<pi> p1 p2 i =
     (case p2 of
        None \<Rightarrow> retn \<pi>
      | Some q \<Rightarrow>
          bindR (if p1 = q then retn \<pi>
                 else if Suc p1 < N then retn (\<pi> \<circ> swapped (Suc p1) q)
                 else fail NullDeref) (\<lambda>\<pi>'.
            aload_loop N lab pid \<pi>' q (where_is N lab \<pi>' pid i) (i + 1)))"

definition aload :: "nat \<Rightarrow> (nat \<Rightarrow> nat \<times> int) \<Rightarrow> nat \<Rightarrow> (nat \<Rightarrow> nat) ret" where
  "aload N lab pid =
     (case where_is N lab id pid 1 of
        None \<Rightarrow> fail NullDeref
      | Some a \<Rightarrow> aload_loop N lab pid (swapped 0 a) 0 (where_is N lab (swapped 0 a) pid 2) 3)"

definition label :: "memory \<Rightarrow> addr \<Rightarrow> nat \<Rightarrow> nat \<times> int" where
  "label m mem k = (pg m mem k Pid, s32 (pg m mem k Order))"

lemma label_owns: "label m mem k = (pid, i) \<longleftrightarrow> owns m mem pid i k"
  by (auto simp: label_def owns_def)

lemma arranged_where_is:
  assumes "arranged m m1 mem psz N \<pi>"
  shows "page_at m1 mem N pid i = where_is N (label m mem) \<pi> pid i"
proof -
  have "owns m1 mem pid i k = (label m mem (\<pi> k) = (pid, i))" if "k < N" for k
    using assms that by (simp add: arranged_def label_owns)
  then show ?thesis unfolding page_at_def where_is_def by (intro find_cong) auto
qed

lemma where_is_lt: "where_is N lab \<pi> pid i = Some q \<Longrightarrow> q < N"
  by (simp add: where_is_def find_upt_Some)

lemma where_is_top: "2 ^ 31 \<le> i \<Longrightarrow> where_is N (label m mem) \<pi> pid i = None"
proof -
  assume i: "2 ^ 31 \<le> i"
  have "label m mem k \<noteq> (pid, i)" for k
    using s32_bounds(2) [of "pg m mem k Order"] i by (auto simp: label_def)
  then show ?thesis by (simp add: where_is_def find_upt_None)
qed

section \<open>Refinement\<close>

text \<open>
  \<open>load_ok v N r a\<close>: the outcome \<open>r\<close> is the outcome \<open>a\<close> on labels, with the page table in
  order and the pages and their data where the permutation says.
\<close>

definition load_ok :: "vm \<Rightarrow> nat \<Rightarrow> vm ret \<Rightarrow> (nat \<Rightarrow> nat) ret \<Rightarrow> bool" where
  "load_ok v N r a \<longleftrightarrow>
     (case a of
        None \<Rightarrow> False
      | Some (Inl e) \<Rightarrow> r = fail e
      | Some (Inr \<pi>) \<Rightarrow> (\<exists>m'. r = retn (v\<lparr>bytes := m'\<rparr>) \<and> pages_ok m' (memPtr v) (pgSize v) N \<and>
          arranged (bytes v) m' (memPtr v) (pgSize v) N \<pi>))"

lemma makeContiguous_pages:
  assumes ok: "pages_ok m mem psz N" and "p < N" "q < N"
  shows "if p = q then makeContiguous m mem psz (node mem p) (node mem q) = retn m
    else if Suc p < N
    then \<exists>m'. makeContiguous m mem psz (node mem p) (node mem q) = retn m' \<and> pages_ok m' mem psz N \<and>
      arranged m m' mem psz N (swapped (Suc p) q)
    else makeContiguous m mem psz (node mem p) (node mem q) = fail NullDeref"
proof -
  have nz: "node mem q \<noteq> 0" by (rule node_nonzero [OF ok])
  then have "swapPages m psz 0 (node mem q) = fail NullDeref" by (simp add: swapPages_def)
  moreover have "makeContiguous m mem psz (node mem p) (node mem q) =
      (if p = q then retn m else swapPages m psz (if Suc p < N then node mem (Suc p) else 0) (node mem q))"
    using getContiguousPage_pages [OF ok assms(2)] by (simp add: makeContiguous_def)
  ultimately show ?thesis using swapPages_arranged [OF ok, of "Suc p" q] assms(3) by auto
qed

lemma load_loop_refines:
  assumes "2 ^ 31 + 1 \<le> i + int d" "pages_ok m1 (memPtr v) (pgSize v) N" "p1 < N"
    and "arranged (bytes v) m1 (memPtr v) (pgSize v) N \<pi>"
  shows "load_ok v N
    (load_loop junk (v\<lparr>bytes := m1\<rparr>) pid (node (memPtr v) p1)
      (page_ptr (memPtr v) (where_is N (label (bytes v) (memPtr v)) \<pi> pid (i - 1))) i)
    (aload_loop N (label (bytes v) (memPtr v)) pid \<pi> p1
      (where_is N (label (bytes v) (memPtr v)) \<pi> pid (i - 1)) i)"
  using assms
proof (induction d arbitrary: i m1 p1 \<pi>)
  case 0
  then have "where_is N (label (bytes v) (memPtr v)) \<pi> pid (i - 1) = None"
    by (intro where_is_top) simp
  then show ?case using 0
    by (subst load_loop.simps, subst aload_loop.simps) (auto simp: load_ok_def page_ptr_def)
next
  case (Suc d)
  let ?mp = "memPtr v" and ?lab = "label (bytes v) (memPtr v)" and ?psz = "pgSize v"
  show ?case
  proof (cases "where_is N ?lab \<pi> pid (i - 1)")
    case None
    then show ?thesis using Suc.prems
      by (subst load_loop.simps, subst aload_loop.simps) (auto simp: load_ok_def page_ptr_def)
  next
    case (Some q)
    have q: "q < N" using where_is_lt [OF Some] .
    have nz: "node ?mp k \<noteq> 0" for k by (rule node_nonzero [OF Suc.prems(2)])
    have next_step: "load_ok v N
        (bindR (find_or_swap junk (v\<lparr>bytes := m2\<rparr>) pid i) (\<lambda>(v', p2'). load_loop junk v' pid (node ?mp q) p2' (i + 1)))
        (aload_loop N ?lab pid \<sigma> q (where_is N ?lab \<sigma> pid i) (i + 1))"
      if m2: "pages_ok m2 ?mp ?psz N" "arranged (bytes v) m2 ?mp ?psz N \<sigma>" for m2 \<sigma>
    proof -
      obtain m3 where m3: "find_or_swap junk (v\<lparr>bytes := m2\<rparr>) pid i =
          retn (v\<lparr>bytes := m3\<rparr>, page_ptr ?mp (page_at m2 ?mp N pid i))"
        "differ m2 m3 ?mp N {Swapclock}" "pages_ok m3 ?mp ?psz N"
        using find_or_swap_pages [of "v\<lparr>bytes := m2\<rparr>" N junk pid i] m2(1) by auto
      have "arranged (bytes v) m3 ?mp ?psz N \<sigma>"
        using arranged_trans [OF m2(2) differ_arranged [OF m2(1) m3(2)]] by simp
      moreover have "2 ^ 31 + 1 \<le> i + 1 + int d" using Suc.prems(1) by simp
      ultimately show ?thesis
        using Suc.IH [of "i + 1" m3 q \<sigma>] m3(1,3) q by (simp add: arranged_where_is [OF m2(2)])
    qed
    have unfold_c: "load_loop junk (v\<lparr>bytes := m1\<rparr>) pid (node ?mp p1) (node ?mp q) i =
        bindR (makeContiguous m1 ?mp ?psz (node ?mp p1) (node ?mp q)) (\<lambda>m2.
          bindR (find_or_swap junk (v\<lparr>bytes := m2\<rparr>) pid i) (\<lambda>(v', p2'). load_loop junk v' pid (node ?mp q) p2' (i + 1)))"
      using nz by (subst load_loop.simps) (simp del: node_eq_0)
    note mk = makeContiguous_pages [OF Suc.prems(2,3) q]
    show ?thesis
    proof (cases "p1 = q \<or> Suc p1 < N")
      case True
      then obtain m2 \<sigma> where m2: "makeContiguous m1 ?mp ?psz (node ?mp p1) (node ?mp q) = retn m2"
        "pages_ok m2 ?mp ?psz N" "arranged (bytes v) m2 ?mp ?psz N \<sigma>"
        "\<sigma> = (if p1 = q then \<pi> else \<pi> \<circ> swapped (Suc p1) q)"
        using mk Suc.prems(2,4) arranged_trans [OF Suc.prems(4)] by (cases "p1 = q") auto
      have "aload_loop N ?lab pid \<pi> p1 (Some q) i = aload_loop N ?lab pid \<sigma> q (where_is N ?lab \<sigma> pid i) (i + 1)"
        using True m2(4) by (subst aload_loop.simps) auto
      then show ?thesis using next_step [OF m2(2,3)] Some by (simp add: page_ptr_def unfold_c m2(1))
    next
      case False
      then have "makeContiguous m1 ?mp ?psz (node ?mp p1) (node ?mp q) = fail NullDeref" using mk by auto
      moreover have "aload_loop N ?lab pid \<pi> p1 (Some q) i = fail NullDeref"
        using False by (subst aload_loop.simps) auto
      ultimately show ?thesis using Some by (simp add: page_ptr_def unfold_c load_ok_def)
    qed
  qed
qed

lemma loadProcessPages_load_ok:
  assumes ok: "vm_pages v N"
  shows "load_ok v N (loadProcessPages junk v pid) (aload N (label (bytes v) (memPtr v)) pid)"
proof -
  let ?mp = "memPtr v" and ?lab = "label (bytes v) (memPtr v)" and ?psz = "pgSize v"
  obtain m1 where m1: "find_or_swap junk v pid 1 =
      retn (v\<lparr>bytes := m1\<rparr>, page_ptr ?mp (where_is N ?lab id pid 1))"
    "differ (bytes v) m1 ?mp N {Swapclock}" "pages_ok m1 ?mp ?psz N"
    using find_or_swap_pages [OF ok, of junk pid 1] arranged_where_is [OF arranged_refl] by auto
  show ?thesis
  proof (cases "where_is N ?lab id pid 1")
    case None
    then show ?thesis using m1(1) pages_okD(1) [OF ok]
      by (simp add: load_ok_def aload_def loadProcessPages_def page_ptr_def swapPages_def getFirstPage_def)
  next
    case (Some a)
    have a: "a < N" "0 < N" using where_is_lt [OF Some] by auto
    obtain m2 where m2: "swapPages m1 ?psz (node ?mp 0) (node ?mp a) = retn m2" "pages_ok m2 ?mp ?psz N"
      "arranged m1 m2 ?mp ?psz N (swapped 0 a)"
      using swapPages_arranged [OF m1(3) a(2,1)] by blast
    have arr: "arranged (bytes v) m2 ?mp ?psz N (swapped 0 a)"
      using arranged_trans [OF differ_arranged [OF ok m1(2)] m2(3)] by simp
    obtain m3 where m3: "find_or_swap junk (v\<lparr>bytes := m2\<rparr>) pid 2 =
        retn (v\<lparr>bytes := m3\<rparr>, page_ptr ?mp (where_is N ?lab (swapped 0 a) pid 2))"
      "differ m2 m3 ?mp N {Swapclock}" "pages_ok m3 ?mp ?psz N"
      using find_or_swap_pages [of "v\<lparr>bytes := m2\<rparr>" N junk pid 2] m2(2) arranged_where_is [OF arr] by auto
    have "arranged (bytes v) m3 ?mp ?psz N (swapped 0 a)"
      using arranged_trans [OF arr differ_arranged [OF m2(2) m3(2)]] by simp
    from load_loop_refines [of 3 "2 ^ 31", OF _ m3(3) a(2) this, of junk pid]
    show ?thesis using m1(1) m2(1) m3(1) Some
      by (simp add: loadProcessPages_def aload_def page_ptr_def getFirstPage_def)
  qed
qed

section \<open>Two pages and three\<close>

lemma where_is_unique:
  assumes "\<And>k. k < N \<Longrightarrow> lab (\<pi> k) = (pid, i) \<longleftrightarrow> k = q" "q < N"
  shows "where_is N lab \<pi> pid i = Some q"
  using assms by (auto simp: where_is_def find_upt_Some)

lemma where_is_none:
  assumes "\<And>k. k < N \<Longrightarrow> lab (\<pi> k) \<noteq> (pid, i)"
  shows "where_is N lab \<pi> pid i = None"
  using assms by (simp add: where_is_def find_upt_None)

lemma swapped_lt: "i < N \<Longrightarrow> j < N \<Longrightarrow> k < N \<Longrightarrow> swapped i j k < N"
  by (simp add: swapped_def)

lemma swapped_eq: "swapped i j k = l \<longleftrightarrow> k = swapped i j l"
  by (auto simp: swapped_def)

lemma aload_two:
  assumes a: "a < N" "\<And>k. k < N \<Longrightarrow> lab k = (pid, 1) \<longleftrightarrow> k = a"
    and b: "b < N" "\<And>k. k < N \<Longrightarrow> lab k = (pid, 2) \<longleftrightarrow> k = b"
    and c: "\<And>k. k < N \<Longrightarrow> lab k \<noteq> (pid, 3)"
  shows "\<exists>\<pi>. aload N lab pid = retn \<pi> \<and> \<pi> 0 = a \<and> \<pi> 1 = b"
proof -
  have ab: "a \<noteq> b" using a b by fastforce
  define q where "q = swapped 0 a b"
  have q: "q < N" "q \<noteq> 0" using a(1) b(1) ab by (auto simp: q_def swapped_def)
  have "where_is N lab id pid 1 = Some a" by (rule where_is_unique) (use a in auto)
  moreover have 2: "where_is N lab (swapped 0 a) pid 2 = Some q"
  proof (rule where_is_unique)
    show "lab (swapped 0 a k) = (pid, 2) \<longleftrightarrow> k = q" if "k < N" for k
      using b(2) [OF swapped_lt [of 0 N a k]] a(1) that by (simp add: q_def swapped_eq)
  qed (rule q(1))
  let ?\<pi> = "swapped 0 a \<circ> swapped 1 q"
  have "where_is N lab ?\<pi> pid 3 = None"
    by (rule where_is_none) (use c a(1) q swapped_lt in auto)
  then have "aload_loop N lab pid (swapped 0 a) 0 (Some q) 3 = retn ?\<pi>"
    using q by (subst aload_loop.simps, subst aload_loop.simps) auto
  moreover have "?\<pi> 0 = a" "?\<pi> 1 = b" using q ab by (auto simp: swapped_def q_def)
  ultimately show ?thesis using 2 by (auto simp: aload_def)
qed

text \<open>
  Six pages: two of thread 8, then page 3, page 1 and page 2 of thread 7, and a free page.
\<close>

definition six_labels :: "(nat \<times> int) list" where
  "six_labels = [(8, 1), (8, 2), (7, 3), (7, 1), (7, 2), (0, 1)]"

lemma upt_6: "[0..<6] = [0, 1, 2, 3, 4, 5 :: nat]"
  by (simp add: upt_rec)

lemma aload_six:
  assumes "\<And>k. k < 6 \<Longrightarrow> lab k = six_labels ! k"
  shows "\<exists>\<pi>. aload 6 lab 7 = retn \<pi> \<and> \<pi> 0 = 3 \<and> \<pi> 1 = 4 \<and> \<pi> 2 = 5 \<and> \<pi> 5 = 2"
proof -
  note l = assms [of 0] assms [of 1] assms [of 2] assms [of 3] assms [of 4] assms [of 5]
  note l6 = l [unfolded six_labels_def, simplified]
  have 1: "where_is 6 lab id 7 1 = Some 3"
    unfolding where_is_def upt_6 by (simp add: l6)
  have 2: "where_is 6 lab (swapped 0 3) 7 2 = Some 4"
    unfolding where_is_def upt_6 by (simp add: l6 swapped_def)
  let ?\<pi> = "swapped 0 3 \<circ> swapped 1 4"
  have 3: "where_is 6 lab ?\<pi> 7 3 = Some 2"
    unfolding where_is_def upt_6 by (simp add: l6 swapped_def)
  let ?\<rho> = "?\<pi> \<circ> swapped 5 2"
  have 4: "where_is 6 lab ?\<rho> 7 4 = None"
    unfolding where_is_def upt_6 by (simp add: l6 swapped_def)
  have "aload_loop 6 lab 7 ?\<rho> 2 None 5 = retn ?\<rho>" by (subst aload_loop.simps) simp
  then have "aload_loop 6 lab 7 ?\<pi> 4 (Some 2) 4 = retn ?\<rho>"
    using 4 by (subst aload_loop.simps) simp
  then have "aload_loop 6 lab 7 (swapped 0 3) 0 (Some 4) 3 = retn ?\<rho>"
    using 3 by (subst aload_loop.simps) simp
  then have "aload 6 lab 7 = retn ?\<rho>" using 1 2 by (simp add: aload_def)
  then show ?thesis by (auto simp: swapped_def)
qed

text \<open>A page table with given owners and orders, for examples.\<close>

fun label_pages :: "memory \<Rightarrow> nat \<Rightarrow> (nat \<times> int) list \<Rightarrow> memory" where
  "label_pages m i [] = m"
| "label_pages m i ((p, r) # ls) =
     label_pages (put (put m Pid (node 4096 i) p) Order (node 4096 i) (u32 r)) (Suc i) ls"

definition example_pages :: "(nat \<times> int) list \<Rightarrow> memory" where
  "example_pages ls = label_pages (table_loop (zero_node\<lparr>sn_size := 4096\<rparr>) zero_memory
     4096 (4096 + MEMORY_START) 0 0 (node 4096 (length ls)) (4096 * length ls) 4096) 0 ls"

lemma label_pages_spec:
  assumes "pages_ok m 4096 4096 N" "i + length ls \<le> N"
    and "list_all (\<lambda>(p, r). p < 2 ^ 32 \<and> - (2 ^ 31) \<le> r \<and> r < 2 ^ 31) ls"
  shows "pages_ok (label_pages m i ls) 4096 4096 N \<and>
    (\<forall>k<length ls. label (label_pages m i ls) 4096 (i + k) = ls ! k) \<and>
    (\<forall>k<i. label (label_pages m i ls) 4096 k = label m 4096 k)"
  using assms
proof (induction m i ls rule: label_pages.induct)
  case (1 m i)
  then show ?case by simp
next
  case (2 m i p r ls)
  let ?m = "put (put m Pid (node 4096 i) p) Order (node 4096 i) (u32 r)"
  have "pages_ok ?m 4096 4096 N" by (intro pages_ok_put "2.prems"(1)) (use "2.prems"(2) in auto)
  then have IH: "pages_ok (label_pages ?m (Suc i) ls) 4096 4096 N"
    "\<forall>k<length ls. label (label_pages ?m (Suc i) ls) 4096 (Suc i + k) = ls ! k"
    "\<forall>k<Suc i. label (label_pages ?m (Suc i) ls) 4096 k = label ?m 4096 k"
    using "2.IH" "2.prems" by auto
  have pr: "p < 2 ^ 32" "- (2 ^ 31) \<le> r" "r < 2 ^ 31" using "2.prems"(3) by auto
  have "label ?m 4096 i = (p, r)"
    using pr u32_less [of r] by (simp add: label_def s32_u32)
  then have "label (label_pages ?m (Suc i) ls) 4096 (i + k) = ((p, r) # ls) ! k"
    if "k < length ((p, r) # ls)" for k using that IH(2,3) by (cases k) auto
  moreover have "label (label_pages ?m (Suc i) ls) 4096 k = label m 4096 k" if "k < i" for k
  proof -
    have "label (label_pages ?m (Suc i) ls) 4096 k = label ?m 4096 k" using IH(3) that by simp
    also have "\<dots> = label m 4096 k" using that by (simp add: label_def pg_put)
    finally show ?thesis .
  qed
  ultimately show ?case using IH(1) by simp
qed

lemma example_pages_ok:
  assumes "ls \<noteq> []" "length ls \<le> 1000"
    and "list_all (\<lambda>(p, r). p < 2 ^ 32 \<and> - (2 ^ 31) \<le> r \<and> r < 2 ^ 31) ls"
  shows "pages_ok (example_pages ls) 4096 4096 (length ls)"
    and "k < length ls \<Longrightarrow> label (example_pages ls) 4096 k = ls ! k"
proof -
  let ?N = "length ls"
  let ?t = "table_loop (zero_node\<lparr>sn_size := 4096\<rparr>) zero_memory
     4096 (4096 + MEMORY_START) 0 0 (node 4096 ?N) (4096 * ?N) 4096"
  have "fills ?N 4096 (node 4096 ?N) (4096 * ?N) 4096" by (simp add: fills_def node_def)
  then have "pages_ok ?t 4096 4096 ?N"
    by (intro table_pages_ok(1) [OF _ _ _ _ _ _ _ _ _ refl])
      (use assms(1,2) in \<open>auto simp: frame_def zero_node_def\<close>)
  from label_pages_spec [OF this, of 0 ls] assms(3)
  show "pages_ok (example_pages ls) 4096 4096 ?N"
    "k < ?N \<Longrightarrow> label (example_pages ls) 4096 k = ls ! k"
    by (auto simp: example_pages_def)
qed

lemma six_pages:
  "pages_ok (example_pages six_labels) 4096 4096 6"
  "k < 6 \<Longrightarrow> label (example_pages six_labels) 4096 k = six_labels ! k"
proof -
  have "six_labels \<noteq> []" "length six_labels = 6"
    "list_all (\<lambda>(p, r). p < 2 ^ 32 \<and> - (2 ^ 31) \<le> r \<and> r < 2 ^ 31) six_labels"
    by (simp_all add: six_labels_def)
  then show "pages_ok (example_pages six_labels) 4096 4096 6"
    "k < 6 \<Longrightarrow> label (example_pages six_labels) 4096 k = six_labels ! k"
    using example_pages_ok [of six_labels] by simp_all
qed

section \<open>Properties\<close>

text \<open>
  C6. \<open>loadProcessPages\<close> always ends, and does to the page table what \<open>aload\<close> does to
  the labels: it stops with a \<open>NULL\<close> dereference exactly when \<open>aload\<close> says so, and otherwise
  permutes whole pages, owners, orders and data together.
\<close>

theorem loadProcessPages_refines:
  assumes "vm_pages v N"
  shows "load_ok v N (loadProcessPages junk v pid) (aload N (label (bytes v) (memPtr v)) pid)"
  by (rule loadProcessPages_load_ok [OF assms])

theorem loadProcessPages_refines_witness:
  "load_ok (example_vm (example_pages six_labels)) 6
     (loadProcessPages zero_node (example_vm (example_pages six_labels)) 7)
     (aload 6 (label (example_pages six_labels) 4096) 7)"
  using loadProcessPages_refines [of "example_vm (example_pages six_labels)" 6 zero_node 7]
    six_pages(1)
  by (simp add: example_vm_def)

text \<open>
  A thread with two pages is loaded: when pages \<open>a\<close> and \<open>b\<close> are the only ones with its
  orders 1 and 2 and none has order 3, then afterwards page 1 with its data is at the front
  and page 2 with its data right behind it.
\<close>

theorem loadProcessPages_two:
  assumes ok: "vm_pages v N" and "a < N" "b < N"
    and "\<forall>k<N. owns (bytes v) (memPtr v) pid 1 k \<longleftrightarrow> k = a"
    and "\<forall>k<N. owns (bytes v) (memPtr v) pid 2 k \<longleftrightarrow> k = b"
    and "\<forall>k<N. \<not> owns (bytes v) (memPtr v) pid 3 k"
  shows "\<exists>m'. loadProcessPages junk v pid = retn (v\<lparr>bytes := m'\<rparr>) \<and> pages_ok m' (memPtr v) (pgSize v) N \<and>
    owns m' (memPtr v) pid 1 0 \<and> carried (bytes v) m' (memPtr v) (pgSize v) 0 a \<and>
    owns m' (memPtr v) pid 2 1 \<and> carried (bytes v) m' (memPtr v) (pgSize v) 1 b"
proof -
  obtain \<pi> where \<pi>: "aload N (label (bytes v) (memPtr v)) pid = retn \<pi>" "\<pi> 0 = a" "\<pi> 1 = b"
    using aload_two [of a N "label (bytes v) (memPtr v)" pid b] assms(2-6) by (auto simp: label_owns)
  have "owns (bytes v) (memPtr v) pid 1 a" "owns (bytes v) (memPtr v) pid 2 b" using assms(2-5) by simp_all
  then have "a \<noteq> b" by (auto simp: owns_def)
  then have "1 < N" using assms(2,3) by simp
  then show ?thesis
    using loadProcessPages_load_ok [OF ok, of junk pid] \<pi> assms(2-5)
    by (auto simp: load_ok_def arranged_def)
qed

theorem loadProcessPages_two_witness:
  "\<exists>m'. loadProcessPages zero_node (example_vm (example_pages six_labels)) 8 =
      retn ((example_vm (example_pages six_labels))\<lparr>bytes := m'\<rparr>) \<and>
    owns m' 4096 8 1 0 \<and> owns m' 4096 8 2 1"
proof -
  have k6: "k < 6 \<longleftrightarrow> k = 0 \<or> k = 1 \<or> k = 2 \<or> k = 3 \<or> k = 4 \<or> k = 5" for k :: nat by arith
  have "owns (example_pages six_labels) 4096 8 i k \<longleftrightarrow> k = 0 \<and> i = 1 \<or> k = 1 \<and> i = 2"
    if "k < 6" for i k
    using six_pages(2) [OF that] that unfolding label_owns [symmetric] k6 six_labels_def by auto
  then show ?thesis
    using loadProcessPages_two [of "example_vm (example_pages six_labels)" 6 0 1 8 zero_node] six_pages(1)
    by (auto simp: example_vm_def)
qed

text \<open>
  C34. A thread with three pages can be torn apart. With page 3 of the thread at index 2 and
  pages 1 and 2 at indices 3 and 4, \<open>loadProcessPages\<close> puts pages 1 and 2 in front but moves
  page 3, which would already be in place, from index 2 to index 5.
\<close>

theorem loadProcessPages_three_torn:
  assumes "vm_pages v 6" "\<forall>k<6. label (bytes v) (memPtr v) k = six_labels ! k"
  shows "\<exists>m'. loadProcessPages junk v 7 = retn (v\<lparr>bytes := m'\<rparr>) \<and>
    owns m' (memPtr v) 7 1 0 \<and> owns m' (memPtr v) 7 2 1 \<and>
    \<not> owns m' (memPtr v) 7 3 2 \<and> owns m' (memPtr v) 7 3 5"
proof -
  obtain \<pi> where \<pi>: "aload 6 (label (bytes v) (memPtr v)) 7 = retn \<pi>" "\<pi> 0 = 3" "\<pi> 1 = 4" "\<pi> 2 = 5" "\<pi> 5 = 2"
    using aload_six [of "label (bytes v) (memPtr v)"] assms(2) by auto
  from loadProcessPages_load_ok [OF assms(1), of junk 7] \<pi>(1) obtain m' where
    m': "loadProcessPages junk v 7 = retn (v\<lparr>bytes := m'\<rparr>)"
      "arranged (bytes v) m' (memPtr v) (pgSize v) 6 \<pi>" by (auto simp: load_ok_def)
  have "owns m' (memPtr v) 7 i k \<longleftrightarrow> six_labels ! \<pi> k = (7, i)" if "k < 6" for i k
    using m'(2) that assms(2) by (simp add: arranged_def flip: label_owns)
  then show ?thesis using m'(1) \<pi> by (intro exI [of _ m']) (simp add: six_labels_def)
qed

theorem loadProcessPages_three_torn_witness:
  "\<exists>m'. loadProcessPages zero_node (example_vm (example_pages six_labels)) 7 =
      retn ((example_vm (example_pages six_labels))\<lparr>bytes := m'\<rparr>) \<and>
    \<not> owns m' 4096 7 3 2 \<and> owns m' 4096 7 3 5"
  using loadProcessPages_three_torn [of "example_vm (example_pages six_labels)" zero_node] six_pages
  by (auto simp: example_vm_def)

text \<open>
  A thread without a first page in memory is fatal: \<open>loadProcessPages\<close> passes the
  \<open>NULL\<close> that the search returns to \<open>swapPages\<close>, which dereferences it.
\<close>

theorem loadProcessPages_no_page:
  assumes "vm_pages v N" "\<forall>k<N. \<not> owns (bytes v) (memPtr v) pid 1 k"
  shows "loadProcessPages junk v pid = fail NullDeref"
proof -
  have "where_is N (label (bytes v) (memPtr v)) id pid 1 = None"
    by (rule where_is_none) (use assms(2) in \<open>simp add: label_owns\<close>)
  then show ?thesis
    using loadProcessPages_load_ok [OF assms(1), of junk pid] by (simp add: load_ok_def aload_def)
qed

theorem loadProcessPages_no_page_witness:
  "loadProcessPages zero_node (example_vm four_pages) 7 = fail NullDeref"
  by (rule loadProcessPages_no_page [where N = 4])
    (use four_pages in \<open>simp_all add: example_vm_def owns_def\<close>)

end
