(* ===== verification/VM_Api.thy ===== *)
theory VM_Api
  imports Paging
begin

text \<open>
  The entry points of vm.c: \<open>init\<close>, the \<open>SIGSEGV\<close> handler, \<open>myallocate\<close>,
  \<open>mydeallocate\<close> and \<open>shalloc\<close>, and the memory side of \<open>initOS\<close> of my_pthread.c, which the
  first \<open>malloc\<close> of a program runs.
\<close>

abbreviation THREADREQ :: int where "THREADREQ \<equiv> 0"
abbreviation OSREQ :: int where "OSREQ \<equiv> - 1"
abbreviation SWAPREQ :: int where "SWAPREQ \<equiv> - 2"
abbreviation SHALLOC :: int where "SHALLOC \<equiv> - 3"

abbreviation OSRESERVED_START :: nat where
  "OSRESERVED_START \<equiv> 1000000"

text \<open>
  What the C library and the kernel decide: \<open>alignedMem\<close> is the block that
  \<open>posix_memalign\<close> returns, \<open>None\<close> when it fails; \<open>sysPageSize\<close> is
  \<open>sysconf(_SC_PAGE_SIZE)\<close>; \<open>sigactionOk\<close> says whether \<open>sigaction\<close> succeeds;
  \<open>sizeofUcontext\<close>, \<open>sizeofSigaction\<close> and \<open>sizeofItimerval\<close> are the sizes of library
  structs; \<open>now\<close> is \<open>time(NULL)\<close>; \<open>stackNode\<close> is the content of an uninitialised
  \<open>SpaceNode\<close> on the stack; \<open>interruptAddr\<close> is the address of the function \<open>interrupt\<close>.
\<close>

record platform =
  alignedMem :: "addr option"
  sysPageSize :: nat
  sigactionOk :: bool
  sizeofUcontext :: nat
  sizeofSigaction :: nat
  sizeofItimerval :: nat
  now :: nat
  stackNode :: SpaceNode
  interruptAddr :: addr

section \<open>init\<close>

text \<open>The loop ends only for a positive page size.\<close>

partial_function (option) free_pages_loop ::
  "SpaceNode \<Rightarrow> memory \<Rightarrow> addr \<Rightarrow> nat \<Rightarrow> nat \<Rightarrow> addr \<Rightarrow> memory ret" where
  "free_pages_loop i m start freeSpace psz prv =
     (if psz \<le> freeSpace then
        let m1 = store_node m start (i\<lparr>sn_start := start + sizeof_SpaceNode, sn_prev := prv\<rparr>);
            m2 = (if prv \<noteq> 0 then put m1 Next prv start else m1)
        in free_pages_loop i m2 (start + psz) (freeSpace - psz) psz start
      else retn m)"

definition initializeFreePages :: "SpaceNode \<Rightarrow> memory \<Rightarrow> addr \<Rightarrow> nat \<Rightarrow> nat \<Rightarrow> memory ret" where
  "initializeFreePages junk m start freeSpace psz =
     free_pages_loop
       (junk\<lparr>sn_free := 1, sn_reference := 0, sn_order := 1, sn_next := 0, sn_prev := 0,
             sn_size := sub64 psz sizeof_SpaceNode, sn_pid := 0\<rparr>) m start freeSpace psz 0"

definition setSIGSEGV :: "platform \<Rightarrow> vm \<Rightarrow> vm ret" where
  "setSIGSEGV e v = (if sigactionOk e then retn (v\<lparr>handlerSet := True\<rparr>) else fail (ExitCall 1))"

definition init :: "platform \<Rightarrow> vm \<Rightarrow> vm ret" where
  "init e v =
     (case alignedMem e of
        None \<Rightarrow> fail (ExitCall 1)
      | Some mp \<Rightarrow>
          let psz = sysPageSize e;
              sharedSize = psz * 4;
              sh = mp + PHYSICAL_SIZE - sharedSize
          in bindR (initializeFreePages (stackNode e) (bytes v) sh sharedSize psz) (\<lambda>m1.
             let os = (stackNode e)\<lparr>sn_free := 1, sn_next := 0, sn_prev := 0,
                    sn_size := MEMORY_START - OSRESERVED_START - sizeof_SpaceNode,
                    sn_start := mp + OSRESERVED_START + sizeof_SpaceNode,
                    sn_pid := 0, sn_order := 1, sn_swapclock := 0\<rparr>;
                 m2 = store_node m1 (mp + OSRESERVED_START) os;
                 pn = os\<lparr>sn_size := psz, sn_dataStartsAnotherPage := 0\<rparr>;
                 m3 = table_loop pn m2 mp (mp + MEMORY_START) 0 0
                        (mp + OSRESERVED_START - sizeof_SpaceNode)
                        (sub64 (sub64 PHYSICAL_SIZE sharedSize) MEMORY_START) psz
             in bindR (if VIRTUAL_MEMORY
                       then setSIGSEGV e (v\<lparr>bytes := m3, memPtr := mp, pgSize := psz, shStart := sh\<rparr>)
                       else retn (v\<lparr>bytes := m3, memPtr := mp, pgSize := psz, shStart := sh\<rparr>)) (\<lambda>v1.
                let m4 = table_loop (pn\<lparr>sn_order := 0\<rparr>) (bytes v1) (swapBuf0 v1)
                           (swapBuf0 v1 + SWAP_MEMORY_START) 0 0
                           (swapBuf0 v1 + SWAP_MEMORY_START - sizeof_SpaceNode)
                           (sub64 SWAP_SIZE (SWAP_MEMORY_START + psz)) psz
                in retn (fst (writeSwap (v1\<lparr>bytes := m4\<rparr>) (swapBuf0 v1))))))"

section \<open>The fault handler\<close>

definition handler :: "SpaceNode \<Rightarrow> vm \<Rightarrow> addr \<Rightarrow> vm ret" where
  "handler junk v si_addr =
     (if inHandler v = 1 then fail (ExitCall 1)
      else
        let v1 = v\<lparr>inHandler := 1\<rparr> in
        bindR (if memPtr v1 + MEMORY_START \<le> si_addr \<and> si_addr < shStart v1
               then (case runningId v1 of
                       None \<Rightarrow> fail NullDeref
                     | Some pid \<Rightarrow> loadProcessPages junk (fst (memoryAllowAll v1)) pid)
               else retn (v1\<lparr>handlerSet := False\<rparr>))
          (\<lambda>v2. retn (v2\<lparr>inHandler := 0\<rparr>)))"

section \<open>Allocation requests\<close>

text \<open>
  The body of \<open>myallocate\<close>, with the function it calls as \<open>initOS\<close> left open. Blocking and
  restoring \<open>SIGPROF\<close> around it is the atomicity of this definition.
\<close>

definition allocate_request ::
  "(vm \<Rightarrow> vm ret) \<Rightarrow> platform \<Rightarrow> vm \<Rightarrow> nat \<Rightarrow> int \<Rightarrow> (vm \<times> addr) ret" where
  "allocate_request boot e v sz request =
     bindR (if memPtr v = 0 then init e v else retn v) (\<lambda>v0.
       let v1 = fst (memoryAllowAll v0) in
       if request = SHALLOC then
         bindR (getFreeElementFrom (stackNode e) (bytes v1) (shStart v1) sz)
           (\<lambda>(m, p). retn (v1\<lparr>bytes := m\<rparr>, p))
       else if request = THREADREQ then
         bindR (if runningId v1 = None then boot v1 else retn v1) (\<lambda>v2.
           getFreeElement (stackNode e) v2 sz)
       else if request = OSREQ then
         bindR (getFreeElementFrom (stackNode e) (bytes v1) (memPtr v1 + OSRESERVED_START) sz)
           (\<lambda>(m, p). retn (v1\<lparr>bytes := m\<rparr>, p))
       else getFreePage (stackNode e) v1 (u32 request))"

text \<open>
  \<open>os_alloc e v sz\<close> is \<open>myallocate(sz, \<dots>, OSREQ)\<close>, a request that never runs \<open>initOS\<close>;
  \<open>os_new\<close> is one whose result the caller dereferences.
\<close>

definition os_alloc :: "platform \<Rightarrow> vm \<Rightarrow> nat \<Rightarrow> (vm \<times> addr) ret" where
  "os_alloc e v sz = allocate_request (\<lambda>_. None) e v sz OSREQ"

definition os_new :: "platform \<Rightarrow> vm \<Rightarrow> nat \<Rightarrow> (vm \<times> addr) ret" where
  "os_new e v sz = bindR (os_alloc e v sz) (\<lambda>(v', p). if p = 0 then fail NullDeref else retn (v', p))"

abbreviation store :: "vm \<Rightarrow> addr \<Rightarrow> nat \<Rightarrow> nat \<Rightarrow> vm" where
  "store v a k x \<equiv> v\<lparr>bytes := wr (bytes v) a k x\<rparr>"

text \<open>
  The struct \<open>sthread\<close>: \<open>id\<close> at 0, \<open>priority\<close> at 4, \<open>born\<close> at 8, the context at 16, then
  \<open>function\<close>, \<open>arg\<close>, \<open>res\<close>, \<open>finished\<close> and \<open>waitJoin\<close>.
\<close>

definition sizeof_sthread :: "platform \<Rightarrow> nat" where
  "sizeof_sthread e = 56 + sizeofUcontext e"

text \<open>
  \<open>setMyScheduler\<close>: the two structs for the timer signal, in the layout of x86-64 Linux. The handler is at 0, the mask of
  128 bytes at 8 and the flags at 136 of \<open>struct sigaction\<close>; \<open>it_interval\<close> is at 0 and \<open>it_value\<close> at 16 of
  \<open>struct itimerval\<close>, each with \<open>tv_sec\<close> and \<open>tv_usec\<close> of 8 bytes. \<open>sigaddset\<close> of signal \<open>n\<close> sets bit \<open>n - 1\<close>. That
  \<open>sigaction\<close> and \<open>setitimer\<close> take effect is that \<open>interrupt\<close> can happen from then on.
\<close>

abbreviation SIGPROF :: nat where "SIGPROF \<equiv> 27"
abbreviation QUANTUM :: nat where "QUANTUM \<equiv> 25000"

definition setMyScheduler :: "platform \<Rightarrow> vm \<Rightarrow> addr \<Rightarrow> (vm \<times> addr \<times> addr) ret" where
  "setMyScheduler e v nSchedulings =
     (let v1 = store v nSchedulings 4 0 in
      bindR (os_new e v1 (sizeofSigaction e)) (\<lambda>(v2, sa).
      bindR (os_new e v2 (sizeofItimerval e)) (\<lambda>(v3, timer).
        let v4 = store v3 sa 8 (interruptAddr e);
            v5 = store v4 (sa + 8) 128 (2 ^ (SIGPROF - 1));
            v6 = store v5 (sa + 136) 4 0;
            v7 = store v6 (timer + 16) 8 0;
            v8 = store v7 (timer + 24) 8 QUANTUM;
            v9 = store v8 timer 8 0;
            v10 = store v9 (timer + 8) 8 QUANTUM
        in retn (v10, sa, timer))))"

text \<open>
  \<open>initOS\<close> as the memory sees it: the allocations and the writes to the new objects. \<open>set_main\<close> fills the record of the main
  thread. \<open>running\<close> is set from here on.
\<close>

record os_objects =
  obj_run :: addr
  obj_nextId :: addr
  obj_mainThread :: addr
  obj_running :: addr
  obj_nSchedulings :: addr
  obj_sa :: addr
  obj_timer :: addr

definition set_main :: "platform \<Rightarrow> vm \<Rightarrow> addr \<Rightarrow> addr \<Rightarrow> vm" where
  "set_main e v nextId mainThread =
     (let f = mainThread + 16 + sizeofUcontext e;
          v1 = store v mainThread 4 (rd (bytes v) nextId 4);
          v2 = store v1 (mainThread + 4) 4 0;
          v3 = store v2 (mainThread + 8) 8 (now e);
          v4 = store v3 f 8 0;
          v5 = store v4 (f + 8) 8 0
      in store v5 (f + 24) 4 0)"

definition initOS_memory :: "platform \<Rightarrow> vm \<Rightarrow> (vm \<times> os_objects) ret" where
  "initOS_memory e v =
     bindR (os_alloc e v 24) (\<lambda>(v1, run).
     bindR (os_new e v1 4) (\<lambda>(v2, nextId).
     let v2 = store v2 nextId 4 1 in
     bindR (os_new e v2 (sizeof_sthread e)) (\<lambda>(v3, mainThread).
     let v3 = set_main e v3 nextId mainThread
     in bindR (allocate_request (\<lambda>_. None) e v3 0 (s32 (rd (bytes v3) nextId 4))) (\<lambda>(v4, _).
     let v4 = store v4 nextId 4 (rd (bytes v4) nextId 4 + 1) in
     bindR (os_new e v4 8) (\<lambda>(v5, running).
     let v5 = store v5 running 8 mainThread;
         v5 = v5\<lparr>runningId := Some (rd (bytes v5) mainThread 4)\<rparr>
     in bindR (os_new e v5 4) (\<lambda>(v6, nSchedulings).
     let v6 = store v6 nSchedulings 4 0 in
     bindR (setMyScheduler e v6 nSchedulings) (\<lambda>(v7, sa, timer).
       retn (v7, \<lparr>obj_run = run, obj_nextId = nextId, obj_mainThread = mainThread, obj_running = running,
         obj_nSchedulings = nSchedulings, obj_sa = sa, obj_timer = timer\<rparr>))))))))"

definition myallocate :: "platform \<Rightarrow> vm \<Rightarrow> nat \<Rightarrow> int \<Rightarrow> (vm \<times> addr) ret" where
  "myallocate e v sz request = allocate_request (\<lambda>v. bindR (initOS_memory e v) (\<lambda>(v', _). retn v')) e v sz request"

definition shalloc :: "platform \<Rightarrow> vm \<Rightarrow> nat \<Rightarrow> (vm \<times> addr) ret" where
  "shalloc e v sz = myallocate e v sz SHALLOC"

definition mydeallocate :: "vm \<Rightarrow> addr \<Rightarrow> int \<Rightarrow> vm ret" where
  "mydeallocate v ptr request =
     bindR (removeSpace (bytes v) ptr
         (if request = THREADREQ then ELEMENT else if request = OSREQ then ELEMENT else PAGE))
       (\<lambda>m. retn (v\<lparr>bytes := m\<rparr>))"

end
