(* ===== verification/VM_Start.thy ===== *)
theory VM_Start
  imports VM_Api Protection
begin

text \<open>
  What \<open>init\<close> of vm.c leaves in memory: the page table in front, the region of the thread library, the
  shared region at the end, and the table of the swap file.
\<close>

section \<open>The shared region\<close>

lemma get_eq_bytes: "(\<And>x. p \<le> x \<Longrightarrow> x < p + sizeof_SpaceNode \<Longrightarrow> m' x = m x) \<Longrightarrow> get m' f p = get m f p"
  by (rule sn.gt_cong) auto

lemma free_pages_step:
  "psz \<le> fs \<Longrightarrow> free_pages_loop i m start fs psz prv =
     (let m1 = store_node m start (i\<lparr>sn_start := start + sizeof_SpaceNode, sn_prev := prv\<rparr>)
      in free_pages_loop i (if prv \<noteq> 0 then put m1 Next prv start else m1) (start + psz) (fs - psz) psz start)"
  by (subst free_pages_loop.simps) (simp add: Let_def)

lemma free_pages_stop: "fs < psz \<Longrightarrow> free_pages_loop i m start fs psz prv = retn m"
  by (subst free_pages_loop.simps) simp

lemma initializeFreePages_rep:
  assumes "sizeof_SpaceNode < psz" "psz < 2 ^ 31" "sh \<noteq> 0" "sh + 4 * psz < 2 ^ 64"
  obtains m' where "initializeFreePages junk m sh (psz * 4) psz = retn m'"
    "rep m' sh (map (\<lambda>k. (sh + psz * k, True, psz - sizeof_SpaceNode)) [0, 1, 2, 3])"
    "\<And>x. x < sh \<or> sh + 4 * psz \<le> x \<Longrightarrow> m' x = m x"
proof -
  define i where "i = junk\<lparr>sn_free := 1, sn_reference := 0, sn_order := 1, sn_next := 0, sn_prev := 0,
     sn_size := sub64 psz sizeof_SpaceNode, sn_pid := 0\<rparr>"
  define n1 n2 n3 where n: "n1 = sh + psz" "n2 = sh + psz + psz" "n3 = sh + psz + psz + psz"
  define nd where "nd p q = i\<lparr>sn_start := p + sizeof_SpaceNode, sn_prev := q\<rparr>" for p q
  define m' where "m' = put (store_node (put (store_node (put (store_node (store_node m sh (nd sh 0)) n1 (nd n1 sh)) Next sh n1)
     n2 (nd n2 n1)) Next n1 n2) n3 (nd n3 n2)) Next n2 n3"
  have sub: "sub64 psz sizeof_SpaceNode = psz - sizeof_SpaceNode" using assms(1,2) by (simp add: cint_simps)
  have ap: "napart sh n1" "napart sh n2" "napart sh n3" "napart n1 n2" "napart n1 n3" "napart n2 n3"
    using assms(1) by (simp_all add: n apart_def)
  have nz: "n1 \<noteq> 0" "n2 \<noteq> 0" "n3 \<noteq> 0" using assms(3) by (simp_all add: n)
  have run: "initializeFreePages junk m sh (psz * 4) psz = retn m'"
    using assms nz n by (simp add: initializeFreePages_def free_pages_step free_pages_stop Let_def m'_def nd_def i_def)
  have lt: "n1 < 2 ^ 64" "n2 < 2 ^ 64" "n3 < 2 ^ 64" "sh + sizeof_SpaceNode < 2 ^ 64" "n1 + sizeof_SpaceNode < 2 ^ 64"
    "n2 + sizeof_SpaceNode < 2 ^ 64" "n3 + sizeof_SpaceNode < 2 ^ 64" using assms by (simp_all add: n)
  have fields: "sn_free (nd p q) = 1" "sn_size (nd p q) = psz - sizeof_SpaceNode" "sn_next (nd p q) = 0"
    "sn_start (nd p q) = p + sizeof_SpaceNode" for p q using sub by (simp_all add: nd_def i_def)
  have "rep m' sh [(sh, True, psz - sizeof_SpaceNode), (n1, True, psz - sizeof_SpaceNode),
      (n2, True, psz - sizeof_SpaceNode), (n3, True, psz - sizeof_SpaceNode)]"
    using assms(2,3) lt nz ap by (simp add: m'_def fields)
  moreover have "map (\<lambda>k. (sh + psz * k, True, psz - sizeof_SpaceNode)) [0, 1, 2, 3] = [(sh, True, psz - sizeof_SpaceNode),
      (n1, True, psz - sizeof_SpaceNode), (n2, True, psz - sizeof_SpaceNode), (n3, True, psz - sizeof_SpaceNode)]"
    by (simp add: n)
  moreover have "m' x = m x" if "x < sh \<or> sh + 4 * psz \<le> x" for x
  proof -
    have "x < sh \<or> sh + 56 \<le> x" "x < n1 \<or> n1 + 56 \<le> x" "x < n2 \<or> n2 + 56 \<le> x" "x < n3 \<or> n3 + 56 \<le> x"
      using that assms(1) by (auto simp: n)
    then show ?thesis by (simp add: m'_def put_outside store_node_outside)
  qed
  ultimately show ?thesis using run that [of m'] by simp
qed

section \<open>The page tables\<close>

lemma fills_by_size:
  assumes "0 < psz" "N = (maxSize + psz - 1) div psz" "\<forall>i<N. node base i < mx"
  shows "fills N base mx maxSize psz"
proof -
  have "psz * i < maxSize" if "i < N" for i
  proof -
    have "Suc i * psz \<le> maxSize + psz - 1"
      using that unfolding assms(2) Suc_le_eq [symmetric] by (simp only: less_eq_div_iff_mult_less_eq [OF assms(1)])
    then show ?thesis using assms(1) by (simp add: mult.commute)
  qed
  moreover have "maxSize \<le> psz * N"
  proof -
    have "maxSize + psz - 1 < psz * N + psz"
      using assms(1) unfolding assms(2) by (metis add.commute dividend_less_times_div)
    then show ?thesis using assms(1) by simp
  qed
  ultimately show ?thesis using assms(3) by (auto simp: fills_def)
qed

text \<open>The number of frames that a region of \<open>maxSize\<close> bytes starts.\<close>

definition frames_in :: "nat \<Rightarrow> nat \<Rightarrow> nat" where
  "frames_in maxSize psz = (maxSize + psz - 1) div psz"

lemma frames_in_le: "4096 \<le> psz \<Longrightarrow> maxSize \<le> 5902848 \<Longrightarrow> frames_in maxSize psz \<le> 1442"
  unfolding frames_in_def
  by (rule less_Suc_eq_le [THEN iffD1], rule div_less_iff_less_mult [THEN iffD2]) auto

lemma table_outside:
  assumes "base \<noteq> 0" "4096 \<le> psz" "psz \<le> 65536" "maxSize \<le> 5902848" "p0 + maxSize + psz < 2 ^ 64"
    and "base + sizeof_SpaceNode * 1442 < mx" "mx < 2 ^ 64"
    and "m' = table_loop new m base p0 0 0 mx maxSize psz"
  shows "\<forall>j<frames_in maxSize psz. \<forall>f. pg m' base j f = table_field new base p0 psz (frames_in maxSize psz) j f"
    "x < base \<or> base + sizeof_SpaceNode * 1442 \<le> x \<Longrightarrow> m' x = m x"
    "fills (frames_in maxSize psz) base mx maxSize psz"
proof -
  let ?N = "frames_in maxSize psz"
  have N: "?N \<le> 1442" using assms(2,4) by (rule frames_in_le)
  have node: "node base i < mx" if "i \<le> ?N" for i
  proof -
    have "sizeof_SpaceNode * i \<le> sizeof_SpaceNode * 1442" using that N by (intro mult_le_mono2) simp
    then show ?thesis using assms(6) by (simp add: node_def)
  qed
  show fills: "fills ?N base mx maxSize psz"
    by (rule fills_by_size) (use assms(2) node in \<open>auto simp: frames_in_def\<close>)
  have "psz * ?N \<le> maxSize + psz" unfolding frames_in_def by (rule order.trans [OF times_div_less_eq_dividend]) simp
  then have "p0 + psz * ?N < 2 ^ 64" using assms(5) by simp
  moreover have "node base ?N < 2 ^ 64" using node [of ?N] assms(7) by simp
  ultimately have spec: "(\<forall>j f. 0 \<le> j \<longrightarrow> j < ?N \<longrightarrow> pg m' base j f = table_field new base p0 psz ?N j f) \<and>
      (\<forall>x. x < base \<or> node base ?N \<le> x \<longrightarrow> m' x = m x)"
    using table_loop_spec [of base ?N p0 psz mx maxSize 0 m' new m] fills assms(1,8)
    by (simp add: node_def prev_node_def)
  show "\<forall>j<?N. \<forall>f. pg m' base j f = table_field new base p0 psz ?N j f" using spec by simp
  have "node base ?N \<le> base + sizeof_SpaceNode * 1442" using N by (simp add: node_def)
  then show "m' x = m x" if "x < base \<or> base + sizeof_SpaceNode * 1442 \<le> x"
    using spec that by (meson le_trans)
qed

section \<open>The start\<close>

text \<open>What \<open>init\<close> needs of the block it gets and of the static swap buffer.\<close>

definition start_ok :: "platform \<Rightarrow> vm \<Rightarrow> addr \<Rightarrow> bool" where
  "start_ok e v mp \<longleftrightarrow>
     alignedMem e = Some mp \<and> mp \<noteq> 0 \<and> mp + PHYSICAL_SIZE < 2 ^ 64 \<and> sigactionOk e \<and>
     4096 \<le> sysPageSize e \<and> sysPageSize e \<le> 65536 \<and>
     swapBuf0 v \<noteq> 0 \<and> swapBuf0 v + SWAP_SIZE < 2 ^ 64 \<and>
     (swapBuf0 v + SWAP_SIZE \<le> mp \<or> mp + PHYSICAL_SIZE \<le> swapBuf0 v)"

text \<open>The frames for threads, and those of the swap file.\<close>

definition thread_frames :: "nat \<Rightarrow> nat" where
  "thread_frames psz = frames_in (PHYSICAL_SIZE - psz * 4 - MEMORY_START) psz"

definition swap_frames :: "nat \<Rightarrow> nat" where
  "swap_frames psz = frames_in (SWAP_SIZE - (SWAP_MEMORY_START + psz)) psz"

lemma init_spec:
  assumes ok: "start_ok e v mp" and psz: "psz = sysPageSize e"
  obtains v' where "init e v = retn v'" "memPtr v' = mp" "pgSize v' = psz" "shStart v' = mp + PHYSICAL_SIZE - psz * 4"
    "handlerSet v'" "vm_pages v' (thread_frames psz)"
    "\<forall>i<thread_frames psz. pg (bytes v') mp i Free = 1 \<and> pg (bytes v') mp i Pid = 0 \<and> pg (bytes v') mp i Order = 1"
    "rep (bytes v') (mp + OSRESERVED_START) [(mp + OSRESERVED_START, True, MEMORY_START - OSRESERVED_START - sizeof_SpaceNode)]"
    "rep (bytes v') (shStart v') (map (\<lambda>k. (shStart v' + psz * k, True, psz - sizeof_SpaceNode)) [0, 1, 2, 3])"
    "swapWritable v \<Longrightarrow> \<exists>img. swapFile v' = Some img \<and>
       (\<forall>i < swap_frames psz. pg img 0 i Free = 1 \<and> pg img 0 i Pid = 0 \<and> pg img 0 i Size = psz)"
proof -
  define sh where "sh = mp + PHYSICAL_SIZE - psz * 4"
  define os where "os = (stackNode e)\<lparr>sn_free := 1, sn_next := 0, sn_prev := 0,
    sn_size := MEMORY_START - OSRESERVED_START - sizeof_SpaceNode,
    sn_start := mp + OSRESERVED_START + sizeof_SpaceNode, sn_pid := 0, sn_order := 1, sn_swapclock := 0\<rparr>"
  define pn where "pn = os\<lparr>sn_size := psz, sn_dataStartsAnotherPage := 0\<rparr>"
  have p: "4096 \<le> psz" "psz \<le> 65536" "mp \<noteq> 0" "mp + 8000000 < 2 ^ 64" "alignedMem e = Some mp" "sigactionOk e"
    using ok psz by (simp_all add: start_ok_def)
  let ?s = "swapBuf0 v"
  have q: "?s \<noteq> 0" "?s + 4000000 < 2 ^ 64" "?s + 4000000 \<le> mp \<or> mp + 8000000 \<le> ?s"
    using ok by (simp_all add: start_ok_def)
  obtain m1 where m1: "initializeFreePages (stackNode e) (bytes v) sh (psz * 4) psz = retn m1"
    "rep m1 sh (map (\<lambda>k. (sh + psz * k, True, psz - sizeof_SpaceNode)) [0, 1, 2, 3])"
    using initializeFreePages_rep [of psz sh "stackNode e" "bytes v"] p by (auto simp: sh_def)
  define m2 where "m2 = store_node m1 (mp + OSRESERVED_START) os"
  define m3 where "m3 = table_loop pn m2 mp (mp + MEMORY_START) 0 0 (mp + OSRESERVED_START - sizeof_SpaceNode)
    (PHYSICAL_SIZE - psz * 4 - MEMORY_START) psz"
  define m4 where "m4 = table_loop (pn\<lparr>sn_order := 0\<rparr>) m3 ?s (?s + SWAP_MEMORY_START) 0 0
    (?s + SWAP_MEMORY_START - sizeof_SpaceNode) (SWAP_SIZE - (SWAP_MEMORY_START + psz)) psz"
  define v1 where "v1 = v\<lparr>memPtr := mp, pgSize := psz, shStart := sh, handlerSet := True, bytes := m4\<rparr>"
  have subs: "sub64 (sub64 PHYSICAL_SIZE (psz * 4)) MEMORY_START = PHYSICAL_SIZE - psz * 4 - MEMORY_START"
    "sub64 SWAP_SIZE (SWAP_MEMORY_START + psz) = SWAP_SIZE - (SWAP_MEMORY_START + psz)"
    using p by (simp_all add: cint_simps)
  have run: "init e v = retn (fst (writeSwap v1 ?s))"
    using p m1(1) subs unfolding m4_def v1_def m3_def m2_def pn_def os_def sh_def psz
    by (simp add: init_def Let_def setSIGSEGV_def VIRTUAL_MEMORY_def)
  have b0: "mp + sizeof_SpaceNode * 1442 < mp + OSRESERVED_START - sizeof_SpaceNode"
    "?s + sizeof_SpaceNode * 1442 < ?s + SWAP_MEMORY_START - sizeof_SpaceNode" by simp_all
  note t4 = table_outside [OF q(1) p(1,2) _ _ b0(2) _ m4_def]
  have out4: "m4 x = m3 x" if "mp \<le> x" "x < mp + 8000000" for x
    by (rule t4(2)) (use q p that in auto)
  note t3 = table_outside [OF p(3,1,2) _ _ b0(1) _ m3_def]
  have out3: "m3 x = m2 x" if "mp + OSRESERVED_START \<le> x" for x
    by (rule t3(2)) (use p that in auto)
  have get4: "get m4 f a = get m3 f a" if "mp \<le> a" "a + 56 \<le> mp + 8000000" for f a
    by (rule get_eq_bytes, rule out4) (use that in auto)
  have get3: "get m3 f a = get m2 f a" if "mp + OSRESERVED_START \<le> a" for f a
    by (rule get_eq_bytes, rule out3) (use that in auto)
  have tabs: "thread_frames psz \<le> 1442" "swap_frames psz \<le> 1442"
    unfolding thread_frames_def swap_frames_def using p by (auto intro!: frames_in_le)
  have table3: "pages_ok m3 mp psz (thread_frames psz)"
    "\<And>i f. i < thread_frames psz \<Longrightarrow> f \<notin> {Start, Next, Prev} \<Longrightarrow> pg m3 mp i f = sn_field pn f mod 256 ^ sn_wid f"
  proof -
    have f: "fills (thread_frames psz) mp (mp + OSRESERVED_START - sizeof_SpaceNode) (PHYSICAL_SIZE - psz * 4 - MEMORY_START) psz"
      unfolding thread_frames_def by (rule t3(3)) (use p in simp_all)
    have "psz * thread_frames psz \<le> 5902848 - psz * 4 + psz" unfolding thread_frames_def frames_in_def
      by (rule order.trans [OF times_div_less_eq_dividend]) simp
    then have l: "frame mp psz (thread_frames psz) < 2 ^ 64" using p by (simp add: frame_def)
    have n: "0 < thread_frames psz" using p by (simp add: thread_frames_def frames_in_def div_greater_zero_iff)
    note t = table_pages_ok [OF p(3) n _ l _ _ f _ _ m3_def]
    show "pages_ok m3 mp psz (thread_frames psz)" by (rule t(1)) (use p tabs(1) in \<open>simp_all add: pn_def os_def\<close>)
    show "pg m3 mp i f = sn_field pn f mod 256 ^ sn_wid f" if "i < thread_frames psz" "f \<notin> {Start, Next, Prev}" for i f
      by (rule t(2)) (use p tabs(1) that in \<open>simp_all add: pn_def os_def\<close>)
  qed
  have pg4: "pg m4 mp i f = pg m3 mp i f" if "i < thread_frames psz" for i f
    by (rule get4) (use that tabs(1) in \<open>simp_all add: node_def\<close>)
  have pages: "pages_ok m4 mp psz (thread_frames psz)" by (rule pages_ok_cong [OF table3(1)]) (simp add: pg4)
  have free: "pg m4 mp i Free = 1 \<and> pg m4 mp i Pid = 0 \<and> pg m4 mp i Order = 1" if "i < thread_frames psz" for i
    using table3(2) [OF that, of Free] table3(2) [OF that, of Pid] table3(2) [OF that, of Order] pg4 [OF that]
    by (simp add: pn_def os_def)
  have "get m4 f (mp + OSRESERVED_START) = sn_field os f mod 256 ^ sn_wid f" for f
    using get4 [of "mp + OSRESERVED_START" f] get3 [of "mp + OSRESERVED_START" f] by (simp add: m2_def)
  then have osr: "rep m4 (mp + OSRESERVED_START)
      [(mp + OSRESERVED_START, True, MEMORY_START - OSRESERVED_START - sizeof_SpaceNode)]"
    using p by (simp add: os_def)
  have same: "get m4 f (sh + psz * k) = get m1 f (sh + psz * k)" if "k \<le> 3" for f k
  proof -
    have "psz * k \<le> psz * 3" using that by simp
    moreover have "mp + 7000000 \<le> sh" "sh + psz * 4 = mp + 8000000" using p by (simp_all add: sh_def)
    ultimately have k: "mp + 7000000 \<le> sh + psz * k" "sh + psz * k + 56 \<le> mp + 8000000"
      using p(1) by linarith+
    then have "napart (mp + OSRESERVED_START) (sh + psz * k)" unfolding apart_def by simp
    then show ?thesis
      using get4 [of "sh + psz * k" f] get3 [of "sh + psz * k" f] k by (simp add: m2_def)
  qed
  let ?sh = "map (\<lambda>k. (sh + psz * k, True, psz - sizeof_SpaceNode)) [0, 1, 2, 3]"
  have "get m4 f (fst b) = get m1 f (fst b)" if b: "b \<in> set ?sh" for b f
  proof -
    obtain k where k: "b = (sh + psz * k, True, psz - sizeof_SpaceNode)" "k \<in> set [0, 1, 2, 3]"
      using b unfolding set_map by (rule imageE)
    have "k \<le> 3" using k(2) by auto
    then show ?thesis unfolding k(1) fst_conv by (rule same)
  qed
  then have shr: "rep m4 sh ?sh" using rep_cong [of ?sh m4 m1 sh] m1(2) by blast
  have swp: "pg (copy_out m4 ?s) 0 i Free = 1 \<and> pg (copy_out m4 ?s) 0 i Pid = 0 \<and> pg (copy_out m4 ?s) 0 i Size = psz"
    if "i < swap_frames psz" for i
  proof -
    have "pg m4 ?s i f = table_field (pn\<lparr>sn_order := 0\<rparr>) ?s (?s + SWAP_MEMORY_START) psz (swap_frames psz) i f" for f
      using t4(1) q p that by (simp add: swap_frames_def)
    then show ?thesis using p by (simp add: sn.gt_copy_out node_def table_field_def pn_def os_def)
  qed
  let ?v = "fst (writeSwap v1 ?s)"
  have fin: "bytes ?v = m4" "memPtr ?v = mp" "pgSize ?v = psz" "shStart ?v = sh" "handlerSet ?v"
    by (simp_all add: writeSwap_def v1_def)
  show ?thesis
  proof (rule that [OF run])
    show "rep (bytes ?v) (shStart ?v) (map (\<lambda>k. (shStart ?v + psz * k, True, psz - sizeof_SpaceNode)) [0, 1, 2, 3])"
      unfolding fin by (rule shr)
    show "\<exists>img. swapFile ?v = Some img \<and>
       (\<forall>i < swap_frames psz. pg img 0 i Free = 1 \<and> pg img 0 i Pid = 0 \<and> pg img 0 i Size = psz)" if "swapWritable v"
      using that swp by (simp add: writeSwap_def v1_def)
    show "vm_pages ?v (thread_frames psz)" unfolding fin by (rule pages)
    show "rep (bytes ?v) (mp + OSRESERVED_START) [(mp + OSRESERVED_START, True, MEMORY_START - OSRESERVED_START - sizeof_SpaceNode)]"
      unfolding fin by (rule osr)
  qed (use free in \<open>simp_all add: fin sh_def\<close>)
qed

lemma frames_in_end: "0 < psz \<Longrightarrow> psz * frames_in x psz = x + (psz - x mod psz) mod psz"
proof -
  assume p: "0 < psz"
  show ?thesis
  proof (cases "x mod psz = 0")
    case True
    then obtain k where "x = psz * k" by auto
    moreover have "(psz * k + psz - 1) div psz = k" by (rule div_nat_eqI) (use p in simp_all)
    ultimately show ?thesis using p by (simp add: frames_in_def)
  next
    case False
    have x: "x = psz * (x div psz) + x mod psz" by simp
    have "(x + psz - 1) div psz = Suc (x div psz)"
    proof (rule div_nat_eqI)
      have "x mod psz < psz" using p by simp
      then show "psz * Suc (x div psz) \<le> x + psz - 1" "x + psz - 1 < psz * Suc (Suc (x div psz))"
        using x False p by (simp_all, linarith+)
    qed
    moreover have "psz * Suc (x div psz) = x + (psz - x mod psz)"
      unfolding mult_Suc_right using x mod_less_divisor [OF p, of x] by linarith
    moreover have "(psz - x mod psz) mod psz = psz - x mod psz" using False p by simp
    ultimately show ?thesis by (simp only: frames_in_def)
  qed
qed

text \<open>
  C20. \<open>init\<close> lays out the memory, for any page size from 4096 to 65536: it returns, every page of the table
  is linked to its neighbours, free and owned by no thread, so that the page operations start from a
  well-formed table; the region for the thread library is one free block; the shared region is a list of four
  free blocks; the handler is set; and if the swap file can be written, its table has only free pages. The frames
  of the last page do not end where the shared region starts: they reach \<open>(psz - 5902848 mod psz) mod psz\<close>
  bytes into it, 3584 for a page size of 4096.
\<close>

theorem init_lays_out:
  assumes "start_ok e v mp" "psz = sysPageSize e" "N = thread_frames psz"
  shows "\<exists>v'. init e v = retn v' \<and> memPtr v' = mp \<and> pgSize v' = psz \<and> handlerSet v' \<and> vm_pages v' N \<and>
    (\<forall>i<N. pg (bytes v') mp i Free = 1 \<and> pg (bytes v') mp i Pid = 0 \<and> pg (bytes v') mp i Order = 1) \<and>
    rep (bytes v') (mp + OSRESERVED_START) [(mp + OSRESERVED_START, True, MEMORY_START - OSRESERVED_START - sizeof_SpaceNode)] \<and>
    rep (bytes v') (shStart v') (map (\<lambda>k. (shStart v' + psz * k, True, psz - sizeof_SpaceNode)) [0, 1, 2, 3]) \<and>
    shStart v' + 4 * psz = mp + PHYSICAL_SIZE \<and>
    frame mp psz N = shStart v' + (psz - 5902848 mod psz) mod psz \<and>
    (swapWritable v \<longrightarrow> (\<exists>img. swapFile v' = Some img \<and>
       (\<forall>i < swap_frames psz. pg img 0 i Free = 1 \<and> pg img 0 i Pid = 0 \<and> pg img 0 i Size = psz)))"
proof -
  have p: "4096 \<le> psz" "psz \<le> 65536" using assms(1,2) by (simp_all add: start_ok_def)
  have "(5902848 - psz * 4) mod psz = 5902848 mod psz"
    using p mod_mult_self1 [of "5902848 - psz * 4" 4 psz] by (simp add: mult.commute)
  then have "psz * N = 5902848 - psz * 4 + (psz - 5902848 mod psz) mod psz"
    using frames_in_end [of psz "5902848 - psz * 4"] p by (simp add: assms(3) thread_frames_def)
  then have e: "frame mp psz N = mp + PHYSICAL_SIZE - psz * 4 + (psz - 5902848 mod psz) mod psz"
    using p by (simp add: frame_def)
  show ?thesis
    apply (rule init_spec [OF assms(1,2)])
    subgoal premises v for v'
      unfolding assms(3) [symmetric]
      by (rule exI [of _ v'], intro conjI impI; (rule v [folded assms(3)])?) (use p e v(4) in simp_all)
    done
qed

definition plain_platform :: platform where
  "plain_platform = \<lparr>alignedMem = Some 4096, sysPageSize = 4096, sigactionOk = True, sizeofUcontext = 936,
     sizeofSigaction = 152, sizeofItimerval = 32, now = 0, stackNode = zero_node, interruptAddr = 77\<rparr>"

theorem init_lays_out_witness:
  "\<exists>v'. init plain_platform ((example_vm zero_memory)\<lparr>memPtr := 0, swapBuf0 := 9000000, swapWritable := True\<rparr>) = retn v' \<and>
     vm_pages v' 1438 \<and> frame 4096 4096 1438 = shStart v' + 3584 \<and> swapFile v' \<noteq> None"
proof -
  let ?v = "(example_vm zero_memory)\<lparr>memPtr := 0, swapBuf0 := 9000000, swapWritable := True\<rparr>"
  have "start_ok plain_platform ?v 4096" "4096 = sysPageSize plain_platform" "1438 = thread_frames 4096"
    by (simp_all add: start_ok_def plain_platform_def example_vm_def thread_frames_def frames_in_def)
  note w = init_lays_out [OF this]
  have "swapWritable ?v" "(4096 - 5902848 mod 4096) mod 4096 = (3584 :: nat)" by simp_all
  with w show ?thesis by (elim exE conjE impE) (assumption, metis option.distinct(1))
qed

end
