(* ===== verification/Thread_Heap.thy ===== *)
theory Thread_Heap
  imports Page_Load VM_Start
begin

text \<open>
  \<open>malloc\<close> of a thread: \<open>myallocate\<close> with a thread request loads the pages of the running thread and takes
  the first space that fits from its first page.
\<close>

section \<open>Lists of spaces that move\<close>

lemma reloc_Cons: "reloc from to ((a, fr, s) # bs) = (to + (a - from), fr, s) # reloc from to bs"
  by (simp add: reloc_def)

lemma reloc_append: "reloc from to (xs @ ys) = reloc from to xs @ reloc from to ys"
  by (simp add: reloc_def)

lemma split_block_reloc:
  "from \<le> a \<Longrightarrow> split_block (to + a - from) s sz = reloc from to (split_block a s sz)"
  by (auto simp: split_block_def reloc_def)

lemma first_fit_reloc:
  assumes "\<forall>b\<in>set bs. from \<le> fst b"
  shows "first_fit sz (reloc from to bs) =
    map_option (\<lambda>(bs', r). (reloc from to bs', to + (r - from))) (first_fit sz bs)"
  using assms
proof (induction sz bs rule: first_fit.induct)
  case (2 sz a fr s bs)
  then show ?case
    by (cases "first_fit sz bs")
      (auto simp: reloc_Cons reloc_append split_block_reloc)
qed (simp add: reloc_def)

lemma spaced_reloc: "spaced bs \<Longrightarrow> \<forall>b\<in>set bs. from \<le> fst b \<Longrightarrow> spaced (reloc from to bs)"
  unfolding spaced_def reloc_def sorted_wrt_map by (rule sorted_wrt_mono_rel) auto

lemma reloc_bounds:
  assumes "b \<in> set (reloc from to bs)" "to \<le> from" "\<forall>b\<in>set bs. from \<le> fst b"
  obtains c where "c \<in> set bs" "snd b = snd c" "fst b \<le> fst c" "to \<le> fst b"
  using assms by (force simp: reloc_def)

section \<open>What an allocation leaves alone\<close>

lemma getFreeElementFrom_below:
  assumes rep: "rep m p bs" and lo: "\<forall>b\<in>set bs. lo \<le> fst b \<and> snd (snd b) < 2 ^ 31"
    and run: "getFreeElementFrom junk m p sz = retn (m', r)" and "x < lo"
  shows "m' x = m x"
proof (cases "find (fits sz) bs")
  case None
  then show ?thesis using run findFreeSpace_rep [OF rep, of sz] by (simp add: getFreeElementFrom_def)
next
  case (Some b)
  have fit: "b \<in> set bs" "fits sz b" using Some by (auto simp: find_Some_iff)
  then obtain n s where b: "b \<in> set bs" "b = (n, True, s)" "sz \<le> s" by (metis fits_def prod.collapse)
  have n: "get m Free n \<noteq> 0" "get m Size n = s" "get m Start n = n + sizeof_SpaceNode" "lo \<le> n" "s < 2 ^ 31"
    using rep_block [OF rep] b lo by fastforce+
  have "m' = fst (createSpace junk m n sz)"
    using run findFreeSpace_rep [OF rep, of sz] Some b(2) rep_nonzero [OF rep b(1)]
    by (auto simp: getFreeElementFrom_def case_prod_beta split: if_splits)
  then show ?thesis
    using createSpace_free [OF n(1) _ _ n(3), of sz junk] n b(3) \<open>x < lo\<close>
    by (simp add: put_outside store_node_outside)
qed


section \<open>malloc\<close>

lemma aload_one:
  assumes "where_is N lab id pid 1 = Some a" "\<And>k. k < N \<Longrightarrow> lab k \<noteq> (pid, 2)"
  shows "aload N lab pid = retn (swapped 0 a)"
proof -
  have "a < N" using assms(1) by (rule where_is_lt)
  then have "where_is N lab (swapped 0 a) pid 2 = None"
    using assms(2) by (intro where_is_none) (auto simp: swapped_def)
  then show ?thesis using assms(1) by (simp add: aload_def aload_loop.simps)
qed

lemma getFreeElement_hit:
  assumes run: "loadProcessPages junk v pid = retn v1" "runningId v = Some pid"
    and m1: "m1 = put (bytes v1) Reference (memPtr v1) 1" "memPtr v1 \<noteq> 0"
    and hit: "getFreeElementFrom junk m1 (get m1 Start (memPtr v1)) sz = retn (m2, r)" "r \<noteq> 0"
  shows "getFreeElement junk v sz = retn (v1\<lparr>bytes := m2\<rparr>, r)"
proof -
  obtain n where n: "findFreeSpace m1 (get m1 Start (memPtr v1)) sz = retn n" "n \<noteq> 0"
    "createSpace junk m1 n sz = (m2, 0)" "r = get m2 Start n"
    using hit by (auto simp: getFreeElementFrom_def bindR_eq_retn case_prod_beta prod_eq_iff split: if_splits)
  show ?thesis
    by (subst getFreeElement.simps) (use run m1 n in \<open>simp add: Let_def VIRTUAL_MEMORY_def getFirstPage_def\<close>)
qed

lemma load_one_page:
  assumes ok: "vm_pages v N" and pid: "page_at (bytes v) (memPtr v) N pid 1 = Some a" "page_at (bytes v) (memPtr v) N pid 2 = None"
  obtains m where "loadProcessPages junk v pid = retn (v\<lparr>bytes := m\<rparr>)" "pages_ok m (memPtr v) (pgSize v) N"
    "owns m (memPtr v) pid 1 0" "carried (bytes v) m (memPtr v) (pgSize v) 0 a"
proof -
  have "aload N (label (bytes v) (memPtr v)) pid = retn (swapped 0 a)"
  proof (rule aload_one)
    show "where_is N (label (bytes v) (memPtr v)) id pid 1 = Some a"
      using pid(1) by (simp add: where_is_def page_at_def label_owns)
    show "label (bytes v) (memPtr v) k \<noteq> (pid, 2)" if "k < N" for k
      using pid(2) that by (simp add: page_at_None label_owns)
  qed
  then obtain m where m: "loadProcessPages junk v pid = retn (v\<lparr>bytes := m\<rparr>)" "pages_ok m (memPtr v) (pgSize v) N"
    "arranged (bytes v) m (memPtr v) (pgSize v) N (swapped 0 a)"
    using loadProcessPages_load_ok [OF ok, of junk pid] by (auto simp: load_ok_def)
  have N: "0 < N" using ok by (simp add: pages_ok_def)
  have "owns m (memPtr v) pid 1 0" "carried (bytes v) m (memPtr v) (pgSize v) 0 a"
    using m(3) [unfolded arranged_def, rule_format, OF N] page_at_Some [OF pid(1)] by (simp_all add: swapped_def)
  then show ?thesis using that m(1,2) by blast
qed

lemma alloc_in_front:
  assumes ok: "pages_ok m mem psz N" and rep: "rep m (frame mem psz 0) bs" "spaced bs"
    and bs: "\<forall>b\<in>set bs. frame mem psz 0 \<le> fst b \<and> snd (snd b) < 2 ^ 31 \<and> claimed_end b < 2 ^ 64"
    and fit: "first_fit sz bs = Some (bs', r)" and m1: "m1 = put m Reference mem 1"
  obtains m2 where "getFreeElementFrom junk m1 (get m1 Start mem) sz = retn (m2, r)" "r \<noteq> 0"
    "rep m2 (frame mem psz 0) bs'" "pages_ok m2 mem psz N" "\<And>pid order i. i < N \<Longrightarrow> owns m2 mem pid order i = owns m mem pid order i"
proof -
  let ?f0 = "frame mem psz 0"
  have N: "0 < N" using ok by (simp add: pages_ok_def)
  have ok1: "pages_ok m1 mem psz N" using pages_ok_put [OF ok _ N, of Reference 1] by (simp add: m1)
  have start: "get m1 Start mem = ?f0" using ok1 N unfolding pages_ok_def by (metis node_0)
  have "rep m1 ?f0 bs \<longleftrightarrow> rep m ?f0 bs"
    by (rule rep_cong) (use bs in \<open>fastforce simp: m1 frame_def apart_def intro!: get_put_apart\<close>)
  then have rep1: "rep m1 ?f0 bs" using rep(1) by simp
  obtain m2 where m2: "getFreeElementFrom junk m1 ?f0 sz = retn (m2, r)" "rep m2 ?f0 bs'"
    using getFreeElementFrom_rep [OF rep1 rep(2), where sz = sz and junk = junk] bs fit by auto
  have same: "pg m2 mem i f = pg m1 mem i f" if "i < N" for i f
  proof (rule get_eq_bytes)
    fix x
    assume "x < node mem i + sizeof_SpaceNode"
    moreover have "sizeof_SpaceNode * Suc i \<le> sizeof_SpaceNode * N" using that by (intro mult_le_mono2) simp
    ultimately have x: "x < ?f0" using ok by (simp add: pages_ok_def node_def frame_def)
    show "m2 x = m1 x" by (rule getFreeElementFrom_below [OF rep1 _ m2(1) x]) (use bs in auto)
  qed
  have "pages_ok m2 mem psz N" by (rule pages_ok_cong [OF ok1]) (simp add: same)
  moreover have "owns m2 mem pid order i = owns m mem pid order i" if "i < N" for pid order i
    using same [OF that] pg_put [of m Reference mem 0 1, where i = i] by (simp add: owns_def m1)
  moreover have "r \<noteq> 0" using fit by (auto simp: first_fit_Some)
  ultimately show ?thesis using that m2 start by simp
qed

lemma memoryAllowAll_allows:
  assumes "(memPtr v + MEMORY_START) mod pgSize v = 0" "pgSize v \<noteq> 0" "pgSize v \<le> 65536"
    and "memPtr v + MEMORY_START \<le> x" "x < memPtr v + PHYSICAL_SIZE - 4 * pgSize v"
  shows "\<not> prot (fst (memoryAllowAll v)) x"
proof -
  let ?len = "PHYSICAL_SIZE - MEMORY_START - pgSize v * 4"
  have "?len \<le> (?len + pgSize v - 1) div pgSize v * pgSize v"
    using frames_in_end [of "pgSize v" ?len] assms(2) by (simp add: frames_in_def mult.commute)
  then have "x < memPtr v + MEMORY_START + (?len + pgSize v - 1) div pgSize v * pgSize v" using assms(3,5) by linarith
  moreover have "sub64 (PHYSICAL_SIZE - MEMORY_START) (pgSize v * 4) = ?len" using assms(3) by (simp add: cint_simps)
  ultimately show ?thesis using assms(1,4) by (simp add: memoryAllowAll_def mprotect_def Let_def)
qed

lemma getFreeElement_first_fit:
  assumes ok: "vm_pages v N"
    and pid: "runningId v = Some pid" "page_at (bytes v) (memPtr v) N pid 1 = Some a" "page_at (bytes v) (memPtr v) N pid 2 = None"
    and bs: "bs = page_elems (bytes v) (frame (memPtr v) (pgSize v) a) (pgSize v)"
      "rep (bytes v) (frame (memPtr v) (pgSize v) a) bs" "spaced bs"
      "\<forall>b\<in>set bs. snd (snd b) < 2 ^ 31 \<and> claimed_end b < 2 ^ 64"
    and fit: "first_fit sz bs = Some (bs', r)"
  obtains m' where "getFreeElement junk v sz =
      retn (v\<lparr>bytes := m'\<rparr>, frame (memPtr v) (pgSize v) 0 + (r - frame (memPtr v) (pgSize v) a))"
    "pages_ok m' (memPtr v) (pgSize v) N" "page_at m' (memPtr v) N pid 1 = Some 0"
    "rep m' (frame (memPtr v) (pgSize v) 0) (reloc (frame (memPtr v) (pgSize v) a) (frame (memPtr v) (pgSize v) 0) bs')"
proof -
  let ?mp = "memPtr v" and ?psz = "pgSize v"
  let ?f0 = "frame ?mp ?psz 0" and ?fa = "frame ?mp ?psz a"
  have mp: "?mp \<noteq> 0" "?psz \<noteq> 0" "0 < N" using ok(1) by (simp_all add: pages_ok_def)
  obtain m where m: "loadProcessPages junk v pid = retn (v\<lparr>bytes := m\<rparr>)" "pages_ok m ?mp ?psz N"
    "owns m ?mp pid 1 0" "carried (bytes v) m ?mp ?psz 0 a"
    using load_one_page [of v N pid a junk] ok(1) pid by auto
  let ?bs = "reloc ?fa ?f0 bs"
  have bounds: "\<forall>b\<in>set bs. ?fa \<le> fst b" using page_elems_bounds(1) bs(1) by simp
  have small: "\<forall>b\<in>set ?bs. ?f0 \<le> fst b \<and> snd (snd b) < 2 ^ 31 \<and> claimed_end b < 2 ^ 64"
  proof
    fix b
    assume "b \<in> set ?bs"
    then obtain c where "c \<in> set bs" "snd b = snd c" "fst b \<le> fst c" "?f0 \<le> fst b"
      by (rule reloc_bounds) (use bounds in \<open>simp_all add: frame_def\<close>)
    then show "?f0 \<le> fst b \<and> snd (snd b) < 2 ^ 31 \<and> claimed_end b < 2 ^ 64" using bs(4) by fastforce
  qed
  have elems: "page_elems m ?f0 ?psz = ?bs" using m(4) bs(1) by (simp add: carried_def)
  then have "rep m ?f0 ?bs" using m(4) bs(1,2) by (metis carried_def)
  moreover have "first_fit sz ?bs = Some (reloc ?fa ?f0 bs', ?f0 + (r - ?fa))"
    using first_fit_reloc [OF bounds] fit by simp
  ultimately obtain m2 where m2:
    "getFreeElementFrom junk (put m Reference ?mp 1) (get (put m Reference ?mp 1) Start ?mp) sz = retn (m2, ?f0 + (r - ?fa))"
    "?f0 + (r - ?fa) \<noteq> 0" "rep m2 ?f0 (reloc ?fa ?f0 bs')" "pages_ok m2 ?mp ?psz N"
    "\<And>pid order i. i < N \<Longrightarrow> owns m2 ?mp pid order i = owns m ?mp pid order i"
    using alloc_in_front [OF m(2) _ spaced_reloc [OF bs(3) bounds] small _ refl, where junk = junk] by metis
  have own: "page_at m2 ?mp N pid 1 = Some 0" using mp(3) m(3) m2(5) by (simp add: page_at_def find_upt_Some)
  have "getFreeElement junk v sz = retn ((v\<lparr>bytes := m\<rparr>)\<lparr>bytes := m2\<rparr>, ?f0 + (r - ?fa))"
    by (rule getFreeElement_hit [OF m(1) pid(1) refl]) (use m2(1,2) mp in simp_all)
  then show ?thesis using that [of m2] m2(3,4) own by simp
qed

text \<open>
  C10. \<open>malloc\<close> in a thread that has one page: let the page of the running thread be at index \<open>a\<close>, with a
  proper list \<open>bs\<close> of spaces in it, and let first fit find room for the request, which is not 0, there. Then \<open>myallocate\<close> returns the
  address that first fit gives, moved with the page to the first frame; the page table stays well formed, the page is
  at the front, and the list in it is the one first fit leaves. As a side effect, the protection of all threads' frames is gone.
\<close>

theorem malloc_first_fit:
  assumes ok: "vm_pages v N" "(memPtr v + MEMORY_START) mod pgSize v = 0" "pgSize v \<le> 65536"
    and pid: "runningId v = Some pid" "page_at (bytes v) (memPtr v) N pid 1 = Some a" "page_at (bytes v) (memPtr v) N pid 2 = None"
    and bs: "bs = page_elems (bytes v) (frame (memPtr v) (pgSize v) a) (pgSize v)"
      "rep (bytes v) (frame (memPtr v) (pgSize v) a) bs" "spaced bs"
      "\<forall>b\<in>set bs. snd (snd b) < 2 ^ 31 \<and> claimed_end b < 2 ^ 64"
    and fit: "0 < sz" "first_fit sz bs = Some (bs', r)"
  shows "\<exists>v'. myallocate e v sz THREADREQ =
        retn (v', frame (memPtr v) (pgSize v) 0 + (r - frame (memPtr v) (pgSize v) a)) \<and>
      vm_pages v' N \<and> page_at (bytes v') (memPtr v') N pid 1 = Some 0 \<and>
      rep (bytes v') (frame (memPtr v) (pgSize v) 0)
        (reloc (frame (memPtr v) (pgSize v) a) (frame (memPtr v) (pgSize v) 0) bs') \<and>
      (\<forall>x. memPtr v + MEMORY_START \<le> x \<and> x < memPtr v + PHYSICAL_SIZE - 4 * pgSize v \<longrightarrow> \<not> prot v' x)"
proof -
  let ?mp = "memPtr v" and ?psz = "pgSize v"
  let ?f0 = "frame ?mp ?psz 0" and ?fa = "frame ?mp ?psz a"
  define v1 where "v1 = fst (memoryAllowAll v)"
  have mp: "?mp \<noteq> 0" "?psz \<noteq> 0" using ok(1) by (simp_all add: pages_ok_def)
  have v1: "bytes v1 = bytes v" "memPtr v1 = ?mp" "pgSize v1 = ?psz" "runningId v1 = Some pid"
    using ok(2) pid(1) by (simp_all add: v1_def memoryAllowAll_def mprotect_def case_prod_beta Let_def)
  obtain m where m: "getFreeElement (stackNode e) v1 sz = retn (v1\<lparr>bytes := m\<rparr>, ?f0 + (r - ?fa))"
    "pages_ok m ?mp ?psz N" "page_at m ?mp N pid 1 = Some 0" "rep m ?f0 (reloc ?fa ?f0 bs')"
    by (rule getFreeElement_first_fit [of v1 N pid a bs sz bs' r "stackNode e", unfolded v1, OF ok(1) refl pid(2,3) bs fit(2)])
  have "myallocate e v sz THREADREQ = retn (v1\<lparr>bytes := m\<rparr>, ?f0 + (r - ?fa))"
    using m(1) mp(1) v1(2,4) by (simp add: myallocate_def allocate_request_def Let_def v1_def [symmetric])
  moreover have "\<not> prot v1 x" if "?mp + MEMORY_START \<le> x" "x < ?mp + PHYSICAL_SIZE - 4 * ?psz" for x
    unfolding v1_def by (rule memoryAllowAll_allows [OF ok(2) mp(2) ok(3) that])
  ultimately show ?thesis using m(2-4) v1 by (intro exI [of _ "v1\<lparr>bytes := m\<rparr>"]) simp
qed

theorem malloc_first_fit_witness:
  "\<exists>v'. myallocate plain_platform
      ((example_vm (claimed zero_node four_pages 4096 4096 2 7))\<lparr>runningId := Some 7\<rparr>) 100 THREADREQ = retn (v', 2101304) \<and>
    rep (bytes v') 2101248 [(2101248, False, 100), (2101404, True, 3940)]"
proof -
  define m where "m = claimed zero_node four_pages 4096 4096 2 7"
  let ?v = "(example_vm m)\<lparr>runningId := Some 7\<rparr>"
  have v: "bytes ?v = m" "memPtr ?v = 4096" "pgSize ?v = 4096" "runningId ?v = Some 7" by (simp_all add: example_vm_def)
  note c = claimed_pages [OF four_pages(1) _ _ m_def]
  have own: "owns m 4096 7 i k \<longleftrightarrow> k = 2 \<and> i = 1" if "k < 4" for i k
    using c(2) [of Pid] c(2) [of Order] c(3) [OF _ _ that] four_pages(2) [OF that] four_pages(2) [of 2]
    by (cases "k = 2") (auto simp: owns_def untouched_def s32_small)
  have "page_at m 4096 4 7 1 = Some 2" "page_at m 4096 4 7 2 = None"
    using own by (auto simp: page_at_def find_upt_Some find_upt_None)
  moreover have "first_fit 100 [(frame 4096 4096 2, True, 4040)] =
      Some ([(frame 4096 4096 2, False, 100), (frame 4096 4096 2 + 156, True, 3940)], frame 4096 4096 2 + 56)"
    by (simp add: split_block_def)
  ultimately show ?thesis
    using malloc_first_fit [of ?v 4 7 2 "[(frame 4096 4096 2, True, 4040)]" 100 _ _ plain_platform] c(1,4,5)
    unfolding v m_def [symmetric] by (simp add: spaced_def frame_def reloc_def) blast
qed

end
