(* ===== verification/Lib_Region.thy ===== *)
theory Lib_Region
  imports Thread_Heap
begin

text \<open>
  The region of the thread library. It is only ever allocated from at its end, so its list of spaces is a row of objects
  in use and one free space behind them. What an allocation, a write to an object and a request for a page do to it.
\<close>

section \<open>A row of objects\<close>

text \<open>
  \<open>objs m p os b z\<close>: the list of spaces at \<open>p\<close> has the objects \<open>os\<close>, given by the addresses of their headers and their
  sizes, and then one free space with its header at \<open>b\<close> and the size \<open>z\<close>.
\<close>

abbreviation in_use :: "(addr \<times> nat) list \<Rightarrow> block list" where
  "in_use os \<equiv> map (\<lambda>(a, s). (a, False, s)) os"

definition objs :: "memory \<Rightarrow> addr \<Rightarrow> (addr \<times> nat) list \<Rightarrow> addr \<Rightarrow> nat \<Rightarrow> bool" where
  "objs m p os b z \<longleftrightarrow>
     rep m p (in_use os @ [(b, True, z)]) \<and> spaced (in_use os) \<and>
     (\<forall>(a, s)\<in>set os. p \<le> a \<and> a + sizeof_SpaceNode + s \<le> b \<and> s < 2 ^ 31) \<and> p \<le> b \<and> z < 2 ^ 31"

lemma objs_cong_headers:
  assumes o: "objs m p os b z"
    and eq: "\<And>a x. a \<in> insert b (fst ` set os) \<Longrightarrow> a \<le> x \<Longrightarrow> x < a + sizeof_SpaceNode \<Longrightarrow> m' x = m x"
  shows "objs m' p os b z"
proof -
  have "rep m' p (in_use os @ [(b, True, z)]) \<longleftrightarrow> rep m p (in_use os @ [(b, True, z)])"
  proof (rule rep_cong)
    fix c f
    assume "c \<in> set (in_use os @ [(b, True, z)])"
    then have "fst c \<in> insert b (fst ` set os)" by force
    then show "get m' f (fst c) = get m f (fst c)" by (intro get_eq_bytes) (rule eq)
  qed
  then show ?thesis using o by (simp add: objs_def)
qed

lemma objs_cong:
  assumes "objs m p os b z" "\<And>x. p \<le> x \<Longrightarrow> x < b + sizeof_SpaceNode \<Longrightarrow> m' x = m x"
  shows "objs m' p os b z"
proof (rule objs_cong_headers [OF assms(1)], rule assms(2))
  fix a x
  assume a: "a \<in> insert b (fst ` set os)" "a \<le> x" "x < a + sizeof_SpaceNode"
  have "p \<le> a \<and> a \<le> b" using a(1) assms(1) by (fastforce simp: objs_def)
  then show "p \<le> x" "x < b + sizeof_SpaceNode" using a(2,3) by simp_all
qed

text \<open>Writes inside an object.\<close>

lemma spaced_ends:
  assumes "spaced bs" "x \<in> set bs" "y \<in> set bs"
  shows "x = y \<or> claimed_end x \<le> fst y \<or> claimed_end y \<le> fst x"
  using assms by (induction bs) (auto simp: spaced_Cons split_paired_all)

lemma objs_write:
  assumes o: "objs m p os b z" and a: "(a, s) \<in> set os"
    and eq: "\<And>x. x < a + sizeof_SpaceNode \<or> a + sizeof_SpaceNode + s \<le> x \<Longrightarrow> m' x = m x"
  shows "objs m' p os b z"
proof (rule objs_cong_headers [OF o], rule eq)
  fix c x
  assume c: "c \<in> insert b (fst ` set os)" and x: "c \<le> x" "x < c + sizeof_SpaceNode"
  show "x < a + sizeof_SpaceNode \<or> a + sizeof_SpaceNode + s \<le> x"
  proof (cases "c = b")
    case True
    then show ?thesis using o a x(1) by (fastforce simp: objs_def)
  next
    case False
    then obtain t where "(c, t) \<in> set os" using c by auto
    then have "(c, False, t) \<in> set (in_use os)" "(a, False, s) \<in> set (in_use os)" using a by force+
    then show ?thesis using spaced_ends [of "in_use os" "(c, False, t)" "(a, False, s)"] o x by (auto simp: objs_def)
  qed
qed

text \<open>An allocation takes the front of the free space and writes two headers.\<close>

lemma objs_alloc:
  assumes o: "objs m p os b z" and sz: "sz + sizeof_SpaceNode < z" and top: "b + 2 * sizeof_SpaceNode + z < 2 ^ 64"
  obtains m' where "getFreeElementFrom junk m p sz = retn (m', b + sizeof_SpaceNode)"
    "objs m' p (os @ [(b, sz)]) (b + sizeof_SpaceNode + sz) (z - sz)"
    "\<And>x. x < b \<or> b + sizeof_SpaceNode + sz + sizeof_SpaceNode \<le> x \<Longrightarrow> m' x = m x"
proof -
  let ?bs = "in_use os @ [(b, True, z)]" and ?bs' = "in_use (os @ [(b, sz)]) @ [(b + sizeof_SpaceNode + sz, True, z - sz)]"
  have xs: "rep m p ?bs" "spaced (in_use os)" "\<forall>(a, s)\<in>set os. p \<le> a \<and> a + sizeof_SpaceNode + s \<le> b \<and> s < 2 ^ 31"
    "p \<le> b" "z < 2 ^ 31" using o by (simp_all add: objs_def)
  have sp: "spaced ?bs" "spaced (in_use (os @ [(b, sz)]))"
    using xs(2,3) by (auto simp: spaced_append spaced_Cons) (simp_all add: spaced_def)
  have "first_fit sz ?bs = Some (?bs', b + sizeof_SpaceNode)"
    unfolding first_fit_Some using sz
    by (intro exI [of _ "in_use os"] exI [of _ b] exI [of _ z] exI [of _ "[]"]) (auto simp: fits_def split_block_def)
  moreover have "\<forall>c\<in>set ?bs. snd (snd c) < 2 ^ 31 \<and> claimed_end c < 2 ^ 64" using xs(3,5) top by fastforce
  ultimately obtain m' where m': "getFreeElementFrom junk m p sz = retn (m', b + sizeof_SpaceNode)" "rep m' p ?bs'"
    using getFreeElementFrom_rep [OF xs(1) sp(1), where sz = sz and junk = junk] by auto
  have "objs m' p (os @ [(b, sz)]) (b + sizeof_SpaceNode + sz) (z - sz)"
    unfolding objs_def by (intro conjI) (use m'(2) sp(2) xs sz in auto)
  moreover have "m' x = m x" if x: "x < b \<or> b + sizeof_SpaceNode + sz + sizeof_SpaceNode \<le> x" for x
  proof -
    have "find (fits sz) (in_use os @ xs) = find (fits sz) xs" for xs by (induction os) (auto simp: fits_def)
    then have "find (fits sz) ?bs = Some (b, True, z)" using sz by (simp add: fits_def)
    moreover have n: "get m Free b \<noteq> 0" "get m Size b = z" "get m Start b = b + sizeof_SpaceNode" "b \<noteq> 0"
      using rep_block [OF xs(1), of b True z] rep_nonzero [OF xs(1), of "(b, True, z)"] by auto
    ultimately have "m' = fst (createSpace junk m b sz)"
      using m'(1) findFreeSpace_rep [OF xs(1), of sz] by (auto simp: getFreeElementFrom_def case_prod_beta split: if_splits)
    then show ?thesis
      using createSpace_free [OF n(1) _ _ n(3), of sz junk] n(2) sz xs(5) x by (auto simp: put_outside store_node_outside)
  qed
  ultimately show ?thesis using that m'(1) by blast
qed

section \<open>Taking a page leaves the region alone\<close>

lemma swapPages_between:
  assumes ok: "pages_ok m mem psz N" and ij: "i < N" "j < N"
    and run: "swapPages m psz (node mem i) (node mem j) = retn m'"
    and x: "node mem N \<le> x" "x < frame mem psz 0"
  shows "m' x = m x"
proof (cases "i = j")
  case True
  then show ?thesis using run by (simp add: swapPages_def)
next
  case False
  define m6 where "m6 = exchange m psz (node mem i) (node mem j)"
  let ?fi = "frame mem psz i" and ?fj = "frame mem psz j"
  have out: "node mem k + sizeof_SpaceNode \<le> x" "x < frame mem psz k" if "k < N" for k
  proof -
    have "sizeof_SpaceNode * Suc k \<le> sizeof_SpaceNode * N" using that by (intro mult_le_mono2) simp
    then show "node mem k + sizeof_SpaceNode \<le> x" using x(1) by (simp add: node_def)
    show "x < frame mem psz k" using x(2) by (simp add: frame_def)
  qed
  have st: "get m Start (node mem i) = ?fi" "get m Start (node mem j) = ?fj" using pages_okD(9) [OF ok] ij by auto
  have "m6 x = m x"
    unfolding m6_def
    by (rule exchange_spec(5) [of "node mem i" "node mem j" m psz, unfolded st, OF node_apart [OF False]
      node_frame_disjnt [OF ok ij(1)] node_frame_disjnt [OF ok ij(1)] node_frame_disjnt [OF ok ij(2)]
      node_frame_disjnt [OF ok ij(2)] frame_disjnt [OF False]]) (use out ij in auto)
  note ex = exchange_pages [OF ok ij False m6_def]
  have s6: "get m6 Start (node mem i) = ?fi" "get m6 Size (node mem i) = psz"
    "get m6 Start (node mem j) = ?fj" "get m6 Size (node mem j) = psz"
    using ex(1,2) pages_okD(9,10) [OF ok] ij by auto
  note fr = frame_nonzero [OF ok] pages_okD(4) [OF ok] frame_end [OF ok]
  obtain m7 where m7: "restoreElementsPointers m6 ?fi psz = retn m7" "only_links m6 m7 ?fi psz"
    using restoreElementsPointers_spec [of ?fi psz m6] fr ij by blast
  obtain m8 where m8: "restoreElementsPointers m7 ?fj psz = retn m8" "only_links m7 m8 ?fj psz"
    using restoreElementsPointers_spec [of ?fj psz m7] fr ij by blast
  have "m' = m8"
    using run swapPages_exchange [OF _ _ _ m6_def] ij False pages_okD(1) [OF ok] s6 m7(1) m8(1)
      only_links_pg [OF ok ij(2) m7(2)] by simp
  then show ?thesis
    using \<open>m6 x = m x\<close> only_links_outside [OF m7(2), of x] only_links_outside [OF m8(2), of x] out ij by simp
qed

lemma getFreePage_between:
  assumes ok: "vm_pages v N" and free: "find (\<lambda>i. pg (bytes v) (memPtr v) i Free \<noteq> 0) [0..<N] = Some k"
    and pid: "pid < 2 ^ 32" and run: "getFreePage junk v pid = retn (v', p)"
    and x: "node (memPtr v) N \<le> x" "x < frame (memPtr v) (pgSize v) 0"
  shows "bytes v' x = bytes v x"
proof -
  let ?mp = "memPtr v" and ?psz = "pgSize v"
  have k: "k < N" "0 < N" using free pages_okD(2) [OF ok] by (auto simp: find_upt_Some)
  define m3 where "m3 = claimed junk (bytes v) ?mp ?psz k pid"
  obtain m where m: "swapPages m3 ?psz (node ?mp 0) (node ?mp k) = retn m" "bytes v' = m"
    using run getFreePage_run [OF ok free, of junk pid] by (auto simp: m3_def bindR_eq_retn)
  have "m x = m3 x" by (rule swapPages_between [OF claimed_pages(1) [OF ok k(1) pid m3_def] k(2,1) m(1) x])
  moreover have "sizeof_SpaceNode * Suc k \<le> sizeof_SpaceNode * N" using k(1) by (intro mult_le_mono2) simp
  then have "node ?mp k + sizeof_SpaceNode \<le> x" "x < frame ?mp ?psz k" using x by (simp_all add: node_def frame_def)
  then have "m3 x = bytes v x"
    by (simp add: m3_def claimed_def initializeSpace_def store_node_outside put_outside)
  ultimately show ?thesis using m(2) by simp
qed

section \<open>The memory of the thread library\<close>

text \<open>
  A page table that ends before the library's region, and in that region a row of objects with a free space behind
  it. \<open>lib_mem\<close> leaves the objects open.
\<close>

definition lib_objs :: "vm \<Rightarrow> nat \<Rightarrow> (addr \<times> nat) list \<Rightarrow> addr \<Rightarrow> nat \<Rightarrow> bool" where
  "lib_objs v N os b z \<longleftrightarrow>
     vm_pages v N \<and> (memPtr v + MEMORY_START) mod pgSize v = 0 \<and> sizeof_SpaceNode * N \<le> OSRESERVED_START \<and>
     objs (bytes v) (memPtr v + OSRESERVED_START) os b z"

definition lib_mem :: "vm \<Rightarrow> nat \<Rightarrow> addr \<Rightarrow> nat \<Rightarrow> bool" where
  "lib_mem v N b z \<longleftrightarrow> (\<exists>os. lib_objs v N os b z)"

lemma memoryAllowAll_prot: "\<exists>pr. fst (memoryAllowAll v) = v\<lparr>prot := pr\<rparr>"
proof -
  have "fst (memoryAllowAll v) = v \<or> (\<exists>pr. fst (memoryAllowAll v) = v\<lparr>prot := pr\<rparr>)"
    by (auto simp: memoryAllowAll_def mprotect_def Let_def case_prod_beta)
  moreover have "v = v\<lparr>prot := prot v\<rparr>" by simp
  ultimately show ?thesis by metis
qed

text \<open>Changes in the region do not concern the table.\<close>

lemma table_cong:
  assumes "vm_pages v N" "sizeof_SpaceNode * N \<le> OSRESERVED_START" "\<And>x. x < memPtr v + OSRESERVED_START \<Longrightarrow> m x = bytes v x"
  shows "i < N \<Longrightarrow> pg m (memPtr v) i f = pg (bytes v) (memPtr v) i f" "pages_ok m (memPtr v) (pgSize v) N"
proof -
  show same: "pg m (memPtr v) i f = pg (bytes v) (memPtr v) i f" if "i < N" for i f
  proof (rule get_eq_bytes, rule assms(3))
    fix x
    assume "x < node (memPtr v) i + sizeof_SpaceNode"
    moreover have "sizeof_SpaceNode * Suc i \<le> sizeof_SpaceNode * N" using that by (intro mult_le_mono2) simp
    ultimately show "x < memPtr v + OSRESERVED_START" using assms(2) by (simp add: node_def)
  qed
  show "pages_ok m (memPtr v) (pgSize v) N" by (rule pages_ok_cong [OF assms(1)]) (rule same)
qed

text \<open>\<open>same_lib\<close>: what stays when the library allocates or writes an object.\<close>

definition same_lib :: "vm \<Rightarrow> vm \<Rightarrow> nat \<Rightarrow> bool" where
  "same_lib v v' N \<longleftrightarrow> memPtr v' = memPtr v \<and> pgSize v' = pgSize v \<and> runningId v' = runningId v \<and>
     (\<forall>i<N. \<forall>f. pg (bytes v') (memPtr v) i f = pg (bytes v) (memPtr v) i f)"

lemma os_alloc_objs:
  assumes v: "lib_objs v N os b z" and sz: "sz + sizeof_SpaceNode < z" "b + 2 * sizeof_SpaceNode + z < 2 ^ 64"
  obtains v' where "os_alloc e v sz = retn (v', b + sizeof_SpaceNode)"
    "lib_objs v' N (os @ [(b, sz)]) (b + sizeof_SpaceNode + sz) (z - sz)" "same_lib v v' N"
    "\<And>x. x < b \<or> b + sizeof_SpaceNode + sz + sizeof_SpaceNode \<le> x \<Longrightarrow> bytes v' x = bytes v x"
proof -
  obtain pr where pr: "fst (memoryAllowAll v) = v\<lparr>prot := pr\<rparr>" using memoryAllowAll_prot by blast
  have ok: "vm_pages v N" "sizeof_SpaceNode * N \<le> OSRESERVED_START" "objs (bytes v) (memPtr v + OSRESERVED_START) os b z"
    using v by (simp_all add: lib_objs_def)
  obtain m where m: "getFreeElementFrom (stackNode e) (bytes v) (memPtr v + OSRESERVED_START) sz = retn (m, b + sizeof_SpaceNode)"
    "objs m (memPtr v + OSRESERVED_START) (os @ [(b, sz)]) (b + sizeof_SpaceNode + sz) (z - sz)"
    "\<And>x. x < b \<or> b + sizeof_SpaceNode + sz + sizeof_SpaceNode \<le> x \<Longrightarrow> m x = bytes v x"
    by (rule objs_alloc [OF ok(3) sz, where junk = "stackNode e"]) blast
  have below: "m x = bytes v x" if "x < memPtr v + OSRESERVED_START" for x using m(3) that ok(3) by (simp add: objs_def)
  note t = table_cong [OF ok(1,2) below]
  have "memPtr v \<noteq> 0" using ok(1) by (simp add: pages_ok_def)
  then have "os_alloc e v sz = retn (v\<lparr>bytes := m, prot := pr\<rparr>, b + sizeof_SpaceNode)"
    using m(1) pr by (simp add: os_alloc_def allocate_request_def Let_def)
  moreover have "lib_objs (v\<lparr>bytes := m, prot := pr\<rparr>) N (os @ [(b, sz)]) (b + sizeof_SpaceNode + sz) (z - sz)"
    using m(2) t(2) v by (simp add: lib_objs_def)
  ultimately show ?thesis using that t(1) m(3) by (simp add: same_lib_def)
qed

lemma os_alloc_tail:
  assumes v: "lib_mem v N b z" and sz: "sz + sizeof_SpaceNode < z" "b + 2 * sizeof_SpaceNode + z < 2 ^ 64"
  obtains v' where "os_alloc e v sz = retn (v', b + sizeof_SpaceNode)"
    "lib_mem v' N (b + sizeof_SpaceNode + sz) (z - sz)" "memPtr v' = memPtr v"
    "\<And>i f. i < N \<Longrightarrow> pg (bytes v') (memPtr v) i f = pg (bytes v) (memPtr v) i f"
proof -
  obtain os where os: "lib_objs v N os b z" using v by (auto simp: lib_mem_def)
  obtain v' where "os_alloc e v sz = retn (v', b + sizeof_SpaceNode)"
    "lib_objs v' N (os @ [(b, sz)]) (b + sizeof_SpaceNode + sz) (z - sz)" "same_lib v v' N"
    by (rule os_alloc_objs [OF os sz, where e = e]) blast
  then show ?thesis by (intro that [of v']) (auto simp: lib_mem_def same_lib_def)
qed

text \<open>Storing into an object.\<close>

lemma store_objs:
  assumes v: "lib_objs v N os b z" and a: "(a, s) \<in> set os" "a + sizeof_SpaceNode \<le> x" "x + k \<le> a + sizeof_SpaceNode + s"
  shows "lib_objs (store v x k val) N os b z" "same_lib v (store v x k val) N"
proof -
  have ok: "vm_pages v N" "sizeof_SpaceNode * N \<le> OSRESERVED_START" "objs (bytes v) (memPtr v + OSRESERVED_START) os b z"
    using v by (simp_all add: lib_objs_def)
  have below: "wr (bytes v) x k val y = bytes v y" if "y < memPtr v + OSRESERVED_START" for y
    using that a ok(3) by (intro wr_other) (fastforce simp: objs_def)
  note t = table_cong [OF ok(1,2) below]
  have "objs (wr (bytes v) x k val) (memPtr v + OSRESERVED_START) os b z"
    by (rule objs_write [OF ok(3) a(1)], rule wr_other) (use a in auto)
  then show "lib_objs (store v x k val) N os b z" using v t(2) by (simp add: lib_objs_def)
  show "same_lib v (store v x k val) N" using t(1) by (simp add: same_lib_def)
qed

text \<open>A request for a page for thread \<open>n\<close>.\<close>

lemma page_objs:
  assumes v: "lib_objs v N os b z" and free: "find (\<lambda>i. pg (bytes v) (memPtr v) i Free \<noteq> 0) [0..<N] = Some k"
    and id: "0 < n" "n < 2 ^ 31" and top: "b + sizeof_SpaceNode \<le> memPtr v + MEMORY_START"
  obtains v' where "allocate_request boot e v sz (int n) = retn (v', memPtr v)" "lib_objs v' N os b z"
    "memPtr v' = memPtr v" "pgSize v' = pgSize v" "runningId v' = runningId v"
    "pg (bytes v') (memPtr v) 0 Pid = n" "pg (bytes v') (memPtr v) 0 Free = 0"
    "pg (bytes v') (memPtr v) 0 Order = pg (bytes v) (memPtr v) k Order"
    "rep (bytes v') (frame (memPtr v) (pgSize v) 0) [(frame (memPtr v) (pgSize v) 0, True, pgSize v - sizeof_SpaceNode)]"
    "\<And>j f. 0 < j \<Longrightarrow> j < N \<Longrightarrow> j \<noteq> k \<Longrightarrow> pg (bytes v') (memPtr v) j f = pg (bytes v) (memPtr v) j f"
    "\<And>x. memPtr v + OSRESERVED_START \<le> x \<Longrightarrow> x < memPtr v + MEMORY_START \<Longrightarrow> bytes v' x = bytes v x"
proof -
  obtain pr where pr: "fst (memoryAllowAll v) = v\<lparr>prot := pr\<rparr>" using memoryAllowAll_prot by blast
  let ?v = "v\<lparr>prot := pr\<rparr>" and ?f = "frame (memPtr v) (pgSize v) 0"
  have ok: "vm_pages ?v N" "sizeof_SpaceNode * N \<le> OSRESERVED_START" "objs (bytes v) (memPtr v + OSRESERVED_START) os b z"
    using v by (simp_all add: lib_objs_def)
  have n: "n < 2 ^ 32" "u32 (int n) = n" using id by (simp_all add: cint_simps)
  obtain m where m: "getFreePage (stackNode e) ?v n = retn (?v\<lparr>bytes := m\<rparr>, memPtr v)" "pages_ok m (memPtr v) (pgSize v) N"
    "pg m (memPtr v) 0 Pid = n" "pg m (memPtr v) 0 Free = 0" "pg m (memPtr v) 0 Order = pg (bytes v) (memPtr v) k Order"
    "rep m ?f [(?f, True, pgSize v - sizeof_SpaceNode)]"
    "\<forall>j<N. j \<noteq> 0 \<longrightarrow> j \<noteq> k \<longrightarrow> untouched (bytes v) m (memPtr v) (pgSize v) j"
    using getFreePage_pages [OF ok(1) _ n(1), of k "stackNode e"] free by auto
  have keep: "m x = bytes v x" if "memPtr v + OSRESERVED_START \<le> x" "x < memPtr v + MEMORY_START" for x
    using getFreePage_between [OF ok(1) _ n(1) m(1), of k x] free ok(2) that by (simp add: node_def frame_def)
  have "objs m (memPtr v + OSRESERVED_START) os b z"
    by (rule objs_cong [OF ok(3)], rule keep) (use top in auto)
  moreover have "memPtr v \<noteq> 0" using ok(1) by (simp add: pages_ok_def)
  then have "allocate_request boot e v sz (int n) = retn (v\<lparr>bytes := m, prot := pr\<rparr>, memPtr v)"
    using m(1) pr id n(2) by (simp add: allocate_request_def Let_def)
  ultimately show ?thesis using that [of "v\<lparr>bytes := m, prot := pr\<rparr>"] m v keep by (simp add: lib_objs_def untouched_def)
qed

lemma page_for_thread:
  assumes v: "lib_mem v N b z" and free: "find (\<lambda>i. pg (bytes v) (memPtr v) i Free \<noteq> 0) [0..<N] = Some k"
    and id: "0 < n" "n < 2 ^ 31" and top: "b + sizeof_SpaceNode \<le> memPtr v + MEMORY_START"
  obtains v' where "myallocate e v sz (int n) = retn (v', memPtr v)" "lib_mem v' N b z" "memPtr v' = memPtr v"
    "pg (bytes v') (memPtr v) 0 Pid = n" "pg (bytes v') (memPtr v) 0 Free = 0"
    "pg (bytes v') (memPtr v) 0 Order = pg (bytes v) (memPtr v) k Order"
proof -
  obtain os where os: "lib_objs v N os b z" using v by (auto simp: lib_mem_def)
  let ?boot = "\<lambda>v. bindR (initOS_memory e v) (\<lambda>(v', _). retn v')"
  show ?thesis
  proof (rule page_objs [OF os free id top, where sz = sz and e = e and boot = ?boot])
    fix v'
    assume "allocate_request ?boot e v sz (int n) = retn (v', memPtr v)" "lib_objs v' N os b z" "memPtr v' = memPtr v"
      "pg (bytes v') (memPtr v) 0 Pid = n" "pg (bytes v') (memPtr v) 0 Free = 0"
      "pg (bytes v') (memPtr v) 0 Order = pg (bytes v) (memPtr v) k Order"
    then show ?thesis by (intro that [of v']) (auto simp: lib_mem_def myallocate_def)
  qed
qed

end
