(* ===== verification/Linked_List.thy ===== *)
theory Linked_List
  imports Prelude
begin

text \<open>
  LinkedList.c: the thread queues of the scheduler. A queue is a \<open>LinkedList\<close> object with
  \<open>head\<close> and \<open>tail\<close> pointers to malloc'ed nodes; a node points to its own malloc'ed cell with
  the thread handle. The objects live in a typed heap, one map per C type.
\<close>

section \<open>Objects\<close>

type_synonym ptr = nat

text \<open>A thread handle \<open>my_pthread_t\<close> is the address of its \<open>sthread\<close>.\<close>

type_synonym tid = nat

record Node =
  nd_thread :: ptr
  nd_next :: ptr
  nd_prev :: ptr

record LinkedList =
  ll_tail :: ptr
  ll_head :: ptr
  ll_nitems :: nat

text \<open>
  \<open>lbrk\<close> is the next address that \<open>malloc\<close> of the C library returns; LinkedList.c does not include vm.h, so its \<open>malloc\<close> is not
  \<open>myallocate\<close>. Memory that \<open>malloc\<close> returns keeps its old content, so nothing is known about a new object before it is written.
  Addresses below \<open>lbrk\<close> are in use, by earlier calls of \<open>malloc\<close> or by the memory manager; \<open>malloc\<close> is taken not to fail.
\<close>

record heap =
  nodes_at :: "ptr \<Rightarrow> Node"
  cells_at :: "ptr \<Rightarrow> tid"
  lists_at :: "ptr \<Rightarrow> LinkedList"
  lbrk :: ptr

text \<open>The fields of \<open>struct sthread\<close>, the saved context apart.\<close>

record sthread =
  th_id :: int
  th_priority :: nat
  th_born :: nat
  th_function :: nat
  th_arg :: nat
  th_res :: ptr
  th_finished :: int
  th_waitJoin :: ptr

definition getPriority :: "(tid \<Rightarrow> sthread) \<Rightarrow> tid \<Rightarrow> int" where
  "getPriority th t = s32 (th_priority (th t))"

text \<open>\<open>born\<close> is a 64-bit time, \<open>getTimeCreated\<close> returns its low 32 bits.\<close>

definition getTimeCreated :: "(tid \<Rightarrow> sthread) \<Rightarrow> tid \<Rightarrow> int" where
  "getTimeCreated th t = int (th_born (th t) mod 2 ^ 32)"

definition order_key :: "(tid \<Rightarrow> sthread) \<Rightarrow> int \<Rightarrow> tid \<Rightarrow> int" where
  "order_key th order = (if order = 0 then getPriority th else getTimeCreated th)"

section \<open>Operations\<close>

text \<open>\<open>newNode(l, t)\<close> with \<open>t\<close> already dereferenced; \<open>prev\<close> is not set.\<close>

definition newNode :: "heap \<Rightarrow> tid \<Rightarrow> heap \<times> ptr" where
  "newNode h t =
     (let n = lbrk h; c = lbrk h + 1
      in (h\<lparr>cells_at := (cells_at h)(c := t),
            nodes_at := (nodes_at h)(n := (nodes_at h n)\<lparr>nd_thread := c, nd_next := 0\<rparr>),
            lbrk := lbrk h + 2\<rparr>, n))"

abbreviation set_list :: "heap \<Rightarrow> ptr \<Rightarrow> LinkedList \<Rightarrow> heap" where
  "set_list h l x \<equiv> h\<lparr>lists_at := (lists_at h)(l := x)\<rparr>"

abbreviation set_next :: "heap \<Rightarrow> ptr \<Rightarrow> ptr \<Rightarrow> heap" where
  "set_next h n q \<equiv> h\<lparr>nodes_at := (nodes_at h)(n := (nodes_at h n)\<lparr>nd_next := q\<rparr>)\<rparr>"

definition empty :: "heap \<Rightarrow> ptr \<Rightarrow> bool ret" where
  "empty h l = (if l = 0 then fail NullDeref else retn (ll_head (lists_at h l) = 0))"

definition push :: "heap \<Rightarrow> ptr \<Rightarrow> tid \<Rightarrow> heap ret" where
  "push h l t =
     (case newNode h t of (h1, n) \<Rightarrow>
        if l = 0 then fail NullDeref
        else let x = lists_at h1 l in
          if ll_tail x = 0
          then retn (set_list h1 l (x\<lparr>ll_nitems := 1, ll_head := n, ll_tail := n\<rparr>))
          else retn (set_list (set_next h1 (ll_tail x) n) l
                 (x\<lparr>ll_tail := n, ll_nitems := (ll_nitems x + 1) mod 2 ^ 32\<rparr>)))"

text \<open>The loop of \<open>pushOrdered\<close>; it returns \<open>last\<close>.\<close>

partial_function (option) order_loop ::
  "heap \<Rightarrow> (tid \<Rightarrow> int) \<Rightarrow> int \<Rightarrow> ptr \<Rightarrow> ptr \<Rightarrow> ptr ret" where
  "order_loop h key k tmp lst =
     (if tmp \<noteq> 0 \<and> key (cells_at h (nd_thread (nodes_at h tmp))) \<le> k
      then order_loop h key k (nd_next (nodes_at h tmp)) tmp
      else retn lst)"

definition pushOrdered :: "(tid \<Rightarrow> sthread) \<Rightarrow> int \<Rightarrow> heap \<Rightarrow> ptr \<Rightarrow> tid \<Rightarrow> heap ret" where
  "pushOrdered th order h l t =
     (case newNode h t of (h1, n) \<Rightarrow>
        if l = 0 then fail NullDeref
        else let x = lists_at h1 l in
          if ll_tail x = 0
          then retn (set_list h1 l (x\<lparr>ll_nitems := 1, ll_head := n, ll_tail := n\<rparr>))
          else
            bindR (order_loop h1 (order_key th order)
                (order_key th order (cells_at h1 (nd_thread (nodes_at h1 n))))
                (ll_head x) (ll_head x)) (\<lambda>lst.
              if lst = 0 then fail NullDeref
              else
                let q = nd_next (nodes_at h1 lst);
                    h2 = set_next (set_next h1 n q) lst n;
                    x1 = (if nd_next (nodes_at h2 n) = 0 then x\<lparr>ll_tail := n\<rparr> else x);
                    x2 = (if nd_next (nodes_at h2 n) = ll_head x1 then x1\<lparr>ll_head := n\<rparr> else x1)
                in retn (set_list h2 l (x2\<lparr>ll_nitems := (ll_nitems x2 + 1) mod 2 ^ 32\<rparr>))))"

text \<open>\<open>pop\<close> returns the node's cell; the node is not freed.\<close>

definition pop :: "heap \<Rightarrow> ptr \<Rightarrow> (heap \<times> ptr) ret" where
  "pop h l =
     (if l = 0 then fail NullDeref
      else let x = lists_at h l; n = ll_head x in
        if n = 0 then fail NullDeref
        else
          let x1 = x\<lparr>ll_head := nd_next (nodes_at h n)\<rparr>;
              x2 = (if ll_head x1 = 0 then x1\<lparr>ll_tail := 0\<rparr> else x1);
              x3 = x2\<lparr>ll_nitems := (ll_nitems x2 + 2 ^ 32 - 1) mod 2 ^ 32\<rparr>
          in retn (set_list h l x3, nd_thread (nodes_at h n)))"

definition front :: "heap \<Rightarrow> ptr \<Rightarrow> ptr ret" where
  "front h l =
     (if l = 0 \<or> ll_head (lists_at h l) = 0 then fail NullDeref
      else retn (nd_thread (nodes_at h (ll_head (lists_at h l)))))"

definition nelements :: "heap \<Rightarrow> ptr \<Rightarrow> nat ret" where
  "nelements h l = (if l = 0 then fail NullDeref else retn (ll_nitems (lists_at h l)))"

text \<open>\<open>while (!empty(src)) pushOrdered(order, dst, pop(src));\<close>\<close>

partial_function (option) drain ::
  "(tid \<Rightarrow> sthread) \<Rightarrow> int \<Rightarrow> heap \<Rightarrow> ptr \<Rightarrow> ptr \<Rightarrow> heap ret" where
  "drain th order h src dst =
     bindR (empty h src) (\<lambda>e.
       if e then retn h
       else bindR (pop h src) (\<lambda>(h1, c).
            bindR (pushOrdered th order h1 dst (cells_at h1 c)) (\<lambda>h2.
              drain th order h2 src dst)))"

text \<open>\<open>new\<close> is a malloc'ed object that nothing initialises.\<close>

definition orderByOldest :: "(tid \<Rightarrow> sthread) \<Rightarrow> heap \<Rightarrow> ptr \<Rightarrow> heap ret" where
  "orderByOldest th h l =
     (let new = lbrk h in
      bindR (drain th 1 (h\<lparr>lbrk := lbrk h + 1\<rparr>) l new) (\<lambda>h1.
        retn (set_list h1 l (lists_at h1 new))))"

section \<open>The list behind a queue\<close>

abbreviation node_tid :: "heap \<Rightarrow> ptr \<Rightarrow> tid" where
  "node_tid h n \<equiv> cells_at h (nd_thread (nodes_at h n))"

abbreviation next_of :: "heap \<Rightarrow> ptr \<Rightarrow> ptr" where
  "next_of h n \<equiv> nd_next (nodes_at h n)"

text \<open>
  \<open>lrep h l ns ts\<close>: the queue object \<open>l\<close> consists of the nodes \<open>ns\<close> and holds the threads
  \<open>ts\<close>. An empty queue may have any \<open>nitems\<close>, since insertion into it writes 1.
\<close>

definition lrep :: "heap \<Rightarrow> ptr \<Rightarrow> ptr list \<Rightarrow> tid list \<Rightarrow> bool" where
  "lrep h l ns ts \<longleftrightarrow>
     l \<noteq> 0 \<and> chain (next_of h) (ll_head (lists_at h l)) ns \<and>
     ll_tail (lists_at h l) = (if ns = [] then 0 else last ns) \<and>
     map (node_tid h) ns = ts \<and>
     (ns \<noteq> [] \<longrightarrow> ll_nitems (lists_at h l) = length ns mod 2 ^ 32) \<and>
     (\<forall>n\<in>set ns. n < lbrk h \<and> nd_thread (nodes_at h n) < lbrk h)"

text \<open>
  What \<open>pushOrdered\<close> does to the list: the new thread goes behind the longest prefix with
  keys not above its own, but never before the first element.
\<close>

fun ordered_insert :: "('a \<Rightarrow> int) \<Rightarrow> 'a \<Rightarrow> 'a list \<Rightarrow> 'a list" where
  "ordered_insert key t [] = [t]"
| "ordered_insert key t (x # xs) =
     x # (if key x \<le> key t then takeWhile (\<lambda>y. key y \<le> key t) xs @ t # dropWhile (\<lambda>y. key y \<le> key t) xs
          else t # xs)"

lemma ordered_insert_mset: "mset (ordered_insert key t xs) = add_mset t (mset xs)"
proof (cases xs)
  case (Cons x ys)
  have "mset ys = mset (takeWhile P ys) + mset (dropWhile P ys)" for P
    by (metis mset_append takeWhile_dropWhile_id)
  then show ?thesis using Cons by auto
qed simp

lemma ordered_insert_not_Nil [simp]: "ordered_insert key t xs \<noteq> []"
  by (cases xs) auto

section \<open>One queue\<close>

lemma lrep_cong:
  assumes "lrep h l ns ts" "lists_at h' l = lists_at h l" "lbrk h \<le> lbrk h'"
    and "\<And>n. n \<in> set ns \<Longrightarrow> nodes_at h' n = nodes_at h n"
    and "\<And>n. n \<in> set ns \<Longrightarrow> cells_at h' (nd_thread (nodes_at h n)) = node_tid h n"
  shows "lrep h' l ns ts"
proof -
  have "chain (next_of h') p ns \<longleftrightarrow> chain (next_of h) p ns" for p
    by (rule chain_cong) (simp add: assms(4))
  moreover have "map (node_tid h') ns = map (node_tid h) ns"
    using assms(4,5) by (intro map_cong) auto
  ultimately show ?thesis
    using assms(1-4) unfolding lrep_def by (auto intro: less_le_trans)
qed

lemma set_next_id: "next_of h n = q \<Longrightarrow> set_next h n q = h"
  by (auto intro!: heap.equality)

lemma lrep_empty: "lrep h l ns ts \<Longrightarrow> empty h l = retn (ts = [])"
  by (cases ns) (auto simp: lrep_def empty_def)

lemma newNode_lrep:
  assumes "lrep h l ns ts" "newNode h t = (h1, n)"
  shows "lrep h1 l ns ts" "n \<notin> set ns" "n = lbrk h" "lbrk h1 = n + 2" "next_of h1 n = 0"
    "node_tid h1 n = t" "nd_thread (nodes_at h1 n) = n + 1" "lists_at h1 = lists_at h"
    "\<And>a. a < lbrk h \<Longrightarrow> nodes_at h1 a = nodes_at h a \<and> cells_at h1 a = cells_at h a"
proof -
  have h1: "n = lbrk h" "h1 = h\<lparr>cells_at := (cells_at h)(n + 1 := t),
      nodes_at := (nodes_at h)(n := (nodes_at h n)\<lparr>nd_thread := n + 1, nd_next := 0\<rparr>), lbrk := n + 2\<rparr>"
    using assms(2) by (auto simp: newNode_def Let_def)
  show "n \<notin> set ns" using assms(1) h1(1) by (auto simp: lrep_def)
  show "lrep h1 l ns ts"
    by (rule lrep_cong [OF assms(1)]) (use assms(1) h1 in \<open>auto simp: lrep_def\<close>)
qed (use assms(2) in \<open>auto simp: newNode_def Let_def\<close>)

text \<open>Linking a node behind node \<open>a\<close>, with the tail and the counter as both insertions leave them.\<close>

lemma lrep_link:
  assumes rep: "lrep h l (as @ a # bs) ts" and n: "n \<notin> set (as @ a # bs)" "0 < n" "n < lbrk h"
    "nd_thread (nodes_at h n) < lbrk h"
    and x: "ll_head x = ll_head (lists_at h l)" "ll_tail x = (if bs = [] then n else ll_tail (lists_at h l))"
      "ll_nitems x = (ll_nitems (lists_at h l) + 1) mod 2 ^ 32"
  shows "lrep (set_list (set_next (set_next h n (next_of h a)) a n) l x) l (as @ a # n # bs)
    (map (node_tid h) (as @ [a]) @ node_tid h n # map (node_tid h) bs)" (is "lrep ?h l _ _")
proof -
  have ch: "chain (next_of h) (ll_head (lists_at h l)) (as @ a # bs)" using rep by (simp add: lrep_def)
  have na: "n \<noteq> a" using n by auto
  have nx: "next_of ?h = (next_of h)(n := next_of h a, a := n)" using na by auto
  have tid: "node_tid ?h m = node_tid h m" for m using na by auto
  have th: "nd_thread (nodes_at ?h m) = nd_thread (nodes_at h m)" for m by auto
  have "chain (next_of ?h) (ll_head x) (as @ a # n # bs)"
    unfolding nx x by (rule chain_insert_after [OF ch]) (use n in auto)
  moreover have "ll_nitems x = length (as @ a # n # bs) mod 2 ^ 32"
    using rep x by (simp add: lrep_def mod_Suc_eq)
  moreover have "ll_tail x = last (as @ a # n # bs)" using rep x by (auto simp: lrep_def)
  moreover have "m < lbrk h \<and> nd_thread (nodes_at h m) < lbrk h" if "m \<in> set (as @ a # n # bs)" for m
    using that rep n by (auto simp: lrep_def)
  ultimately show ?thesis using rep unfolding lrep_def tid th by simp
qed

lemma chain_head_nonzero: "chain nx p ns \<Longrightarrow> ns \<noteq> [] \<Longrightarrow> p \<noteq> 0"
  by (cases ns) auto

lemma order_loop_chain:
  "chain (next_of h) p ns \<Longrightarrow>
   order_loop h key k p lst = retn (last (lst # takeWhile (\<lambda>n. key (node_tid h n) \<le> k) ns))"
proof (induction ns arbitrary: p lst)
  case Nil
  then show ?case by (subst order_loop.simps) simp
next
  case (Cons a as)
  then show ?case by (subst order_loop.simps) simp
qed

text \<open>Both insertions into an empty queue.\<close>

lemma lrep_singleton:
  assumes "l \<noteq> 0" "0 < n" "n < lbrk h" "nd_thread (nodes_at h n) < lbrk h" "next_of h n = 0"
  shows "lrep (set_list h l (x\<lparr>ll_nitems := 1, ll_head := n, ll_tail := n\<rparr>)) l [n] [node_tid h n]"
  using assms by (auto simp: lrep_def)

text \<open>
  \<open>grown h h' l\<close>: \<open>h'\<close> differs from \<open>h\<close> in the queue object \<open>l\<close>, in links of the nodes in
  \<open>S\<close>, and in newly allocated memory.
\<close>

definition grown :: "heap \<Rightarrow> heap \<Rightarrow> ptr \<Rightarrow> ptr set \<Rightarrow> bool" where
  "grown h h' l S \<longleftrightarrow> lbrk h \<le> lbrk h' \<and>
     (\<forall>k. k \<noteq> l \<longrightarrow> lists_at h' k = lists_at h k) \<and>
     (\<forall>c<lbrk h. cells_at h' c = cells_at h c) \<and>
     (\<forall>n<lbrk h. n \<notin> S \<longrightarrow> nodes_at h' n = nodes_at h n)"

lemma push_lrep:
  assumes rep: "lrep h l ns ts" and "0 < lbrk h"
  shows "\<exists>h' n. push h l t = retn h' \<and> lrep h' l (ns @ [n]) (ts @ [t]) \<and>
    n = lbrk h \<and> grown h h' l (set ns)"
proof -
  obtain h1 n where new: "newNode h t = (h1, n)" by (cases "newNode h t")
  note h1 = newNode_lrep [OF rep new]
  have l: "l \<noteq> 0" using rep by (simp add: lrep_def)
  have tl: "ll_tail (lists_at h1 l) = (if ns = [] then 0 else last ns)"
    using h1(1) by (simp add: lrep_def)
  show ?thesis
  proof (cases "ns = []")
    case True
    let ?h = "set_list h1 l ((lists_at h1 l)\<lparr>ll_nitems := 1, ll_head := n, ll_tail := n\<rparr>)"
    have "push h l t = retn ?h" using tl True l new by (simp add: push_def)
    moreover have "lrep ?h l [n] [node_tid h1 n]"
      by (rule lrep_singleton) (use l h1 assms(2) in auto)
    moreover have "ts = []" using rep True by (simp add: lrep_def)
    moreover have "grown h ?h l (set ns)" using h1(3,4,8,9) by (auto simp: grown_def)
    ultimately show ?thesis using True h1(3,6) by fastforce
  next
    case False
    then obtain as a where ns: "ns = as @ [a]" by (cases ns rule: rev_cases) auto
    let ?x = "(lists_at h1 l)\<lparr>ll_tail := n, ll_nitems := (ll_nitems (lists_at h1 l) + 1) mod 2 ^ 32\<rparr>"
    let ?h = "set_list (set_next h1 a n) l ?x"
    have a: "next_of h1 a = 0" "a \<noteq> 0" "n \<noteq> a"
      using chain_nx_last [of "next_of h1" "ll_head (lists_at h1 l)" ns]
        chain_nonzero [of "next_of h1" "ll_head (lists_at h1 l)" ns] h1(1,2) ns
      by (auto simp: lrep_def)
    have same: "set_next h1 n (next_of h1 a) = h1" by (rule set_next_id) (simp add: a h1(5))
    have "push h l t = retn ?h" using tl l new ns a by (simp add: push_def Let_def)
    moreover have "lrep ?h l (as @ a # [n]) (map (node_tid h1) (as @ [a]) @ [node_tid h1 n])"
    proof -
      have "lrep h1 l (as @ a # []) ts" using h1(1) ns by simp
      from lrep_link [OF this, of n ?x, unfolded same] show ?thesis using h1(2-7) ns assms(2) by simp
    qed
    moreover have "map (node_tid h1) (as @ [a]) = ts" using h1(1) ns by (simp add: lrep_def)
    moreover have "grown h ?h l (set ns)" using h1(3,4,8,9) ns by (auto simp: grown_def)
    ultimately show ?thesis using ns h1(3,6) by fastforce
  qed
qed

lemma takeWhile_map_comp: "takeWhile P (map f xs) = map f (takeWhile (\<lambda>x. P (f x)) xs)"
  by (induction xs) auto

lemma dropWhile_map_comp: "dropWhile P (map f xs) = map f (dropWhile (\<lambda>x. P (f x)) xs)"
  by (induction xs) auto

text \<open>The position \<open>pushOrdered\<close> finds, as a split of the node list.\<close>

lemma order_split:
  assumes "ns \<noteq> []" and lst: "lst = last (hd ns # takeWhile P ns)"
  shows "\<exists>as bs. ns = as @ lst # bs \<and>
    as @ [lst] = hd ns # (if P (hd ns) then takeWhile P (tl ns) else []) \<and>
    bs = (if P (hd ns) then dropWhile P (tl ns) else tl ns)"
proof (cases ns)
  case (Cons a ns')
  show ?thesis
  proof (cases "P a")
    case True
    define as where "as = butlast (a # takeWhile P ns')"
    have as: "as @ [lst] = a # takeWhile P ns'"
      using lst Cons True by (simp add: as_def)
    have "as @ lst # dropWhile P ns' = (as @ [lst]) @ dropWhile P ns'" by simp
    also have "\<dots> = ns" unfolding as using Cons by simp
    finally show ?thesis using Cons True as
      by (intro exI [of _ as] exI [of _ "dropWhile P ns'"]) simp
  next
    case False
    then show ?thesis using Cons lst by (intro exI [of _ "[]"] exI [of _ ns']) simp
  qed
qed (use assms in simp)

lemma pushOrdered_lrep:
  assumes rep: "lrep h l ns ts" and "0 < lbrk h"
  shows "\<exists>h' ns'. pushOrdered th order h l t = retn h' \<and>
    lrep h' l ns' (ordered_insert (order_key th order) t ts) \<and>
    set ns' = insert (lbrk h) (set ns) \<and> grown h h' l (set ns)"
proof -
  obtain h1 n where new: "newNode h t = (h1, n)" by (cases "newNode h t")
  note h1 = newNode_lrep [OF rep new]
  have l: "l \<noteq> 0" using rep by (simp add: lrep_def)
  have ch: "chain (next_of h1) (ll_head (lists_at h1 l)) ns" and ts: "ts = map (node_tid h1) ns"
    and tl: "ll_tail (lists_at h1 l) = (if ns = [] then 0 else last ns)"
    using h1(1) by (auto simp: lrep_def)
  note nz = chain_nonzero [OF ch]
  let ?key = "order_key th order"
  show ?thesis
  proof (cases "ns = []")
    case True
    let ?h = "set_list h1 l ((lists_at h1 l)\<lparr>ll_nitems := 1, ll_head := n, ll_tail := n\<rparr>)"
    have "pushOrdered th order h l t = retn ?h" using tl True l new by (simp add: pushOrdered_def)
    moreover have "lrep ?h l [n] [node_tid h1 n]"
      by (rule lrep_singleton) (use l h1 assms(2) in auto)
    moreover have "grown h ?h l (set ns)" using h1(3,4,8,9) by (auto simp: grown_def)
    ultimately show ?thesis
      using True ts h1(3,6) by (intro exI [of _ ?h] exI [of _ "[n]"]) simp
  next
    case False
    define P where "P = (\<lambda>m. ?key (node_tid h1 m) \<le> ?key t)"
    define lst where "lst = last (hd ns # takeWhile P ns)"
    obtain as bs where ns: "ns = as @ lst # bs"
      and as: "as @ [lst] = hd ns # (if P (hd ns) then takeWhile P (tl ns) else [])"
      and bs: "bs = (if P (hd ns) then dropWhile P (tl ns) else tl ns)"
      using order_split [OF False lst_def] by blast
    have hd: "ll_head (lists_at h1 l) = hd ns" using chain_hd [OF ch False] .
    have loop: "order_loop h1 ?key (?key (node_tid h1 n)) (hd ns) (hd ns) = retn lst"
      using order_loop_chain [OF ch, of ?key "?key t" "hd ns"] hd h1(6) by (simp add: lst_def P_def)
    have nl: "lst \<noteq> 0" "n \<noteq> lst" using nz h1(2) ns by auto
    have ll: "last ns \<noteq> 0" using nz last_in_set [OF False] by metis
    let ?q = "next_of h1 lst"
    have q: "?q = (if bs = [] then 0 else hd bs)"
      using ch chain_suffix [of "next_of h1" _ as lst bs] ns by (cases bs) auto
    have qh: "?q \<noteq> hd ns"
      using q chain_distinct [OF ch] hd nz False ns by (cases as; cases bs) auto
    let ?h2 = "set_next (set_next h1 n ?q) lst n"
    let ?old = "lists_at h1 l"
    let ?x = "(if ?q = 0 then ?old\<lparr>ll_tail := n\<rparr> else ?old)\<lparr>ll_nitems := (ll_nitems ?old + 1) mod 2 ^ 32\<rparr>"
    have "pushOrdered th order h l t = retn (set_list ?h2 l ?x)"
      using new l tl False nl ll hd loop qh by (simp add: pushOrdered_def Let_def)
    moreover have "lrep (set_list ?h2 l ?x) l (as @ lst # n # bs)
        (map (node_tid h1) (as @ [lst]) @ node_tid h1 n # map (node_tid h1) bs)"
    proof (rule lrep_link [where ts = ts])
      show "lrep h1 l (as @ lst # bs) ts" using h1(1) ns by simp
      show "n \<notin> set (as @ lst # bs)" using h1(2) ns by simp
      show "0 < n" "n < lbrk h1" "nd_thread (nodes_at h1 n) < lbrk h1"
        using assms(2) h1(3,4,7) by simp_all
      have "?q = 0 \<longleftrightarrow> bs = []" using q nz ns by (cases bs) auto
      then show "ll_tail ?x = (if bs = [] then n else ll_tail ?old)" by simp
    qed simp_all
    moreover have "map (node_tid h1) (as @ [lst]) @ node_tid h1 n # map (node_tid h1) bs =
        ordered_insert ?key t ts"
      unfolding as bs ts using False h1(6)
      by (cases ns) (auto simp: P_def takeWhile_map_comp dropWhile_map_comp)
    moreover have "grown h (set_list ?h2 l ?x) l (set ns)"
      using h1(3,4,8,9) ns by (auto simp: grown_def)
    moreover have "set (as @ lst # n # bs) = insert (lbrk h) (set ns)" using ns h1(3) by auto
    ultimately show ?thesis
      by (intro exI [of _ "set_list ?h2 l ?x"] exI [of _ "as @ lst # n # bs"]) simp
  qed
qed

lemma pred_mod32: "(4294967295 + Suc k mod 4294967296) mod 4294967296 = k mod (4294967296 :: nat)"
  by (simp add: mod_add_right_eq)

lemma pop_lrep:
  assumes rep: "lrep h l ns (t # ts)"
  shows "\<exists>h' c. pop h l = retn (h', c) \<and> cells_at h' c = t \<and> lrep h' l (tl ns) ts \<and> grown h h' l {}"
proof -
  obtain n ns' where ns: "ns = n # ns'" using rep by (cases ns) (auto simp: lrep_def)
  have f: "l \<noteq> 0" "ll_head (lists_at h l) = n" "n \<noteq> 0" "chain (next_of h) (next_of h n) ns'"
    "t = node_tid h n" "ts = map (node_tid h) ns'"
    "ll_tail (lists_at h l) = (if ns' = [] then n else last ns')"
    "ll_nitems (lists_at h l) = Suc (length ns') mod 2 ^ 32"
    using rep ns by (auto simp: lrep_def)
  have e: "next_of h n = 0 \<longleftrightarrow> ns' = []" using f(4) by (cases ns') auto
  let ?x = "lists_at h l"
  let ?x' = "(if next_of h n = 0 then ?x\<lparr>ll_head := next_of h n, ll_tail := 0\<rparr>
      else ?x\<lparr>ll_head := next_of h n\<rparr>)\<lparr>ll_nitems := (ll_nitems ?x + 2 ^ 32 - 1) mod 2 ^ 32\<rparr>"
  have "pop h l = retn (set_list h l ?x', nd_thread (nodes_at h n))"
    using f by (simp add: pop_def Let_def)
  moreover have "lrep (set_list h l ?x') l ns' ts"
    using rep f e ns by (auto simp: lrep_def pred_mod32)
  moreover have "grown h (set_list h l ?x') l {}" by (simp add: grown_def)
  ultimately show ?thesis
    using f(5) ns by (intro exI [of _ "set_list h l ?x'"] exI [of _ "nd_thread (nodes_at h n)"]) simp
qed

lemma pop_empty: "lrep h l ns [] \<Longrightarrow> pop h l = fail NullDeref"
  by (auto simp: lrep_def pop_def)

section \<open>Several queues in one heap\<close>

text \<open>
  The interface the scheduler uses: a store of queues named by pointers, with the laws of
  the operations on it. Each operation changes the list of the queue it is applied to and
  no other. \<open>key\<close> is the order of \<open>ins\<close>.
\<close>

locale thread_queues =
  fixes holds :: "'h \<Rightarrow> ptr set \<Rightarrow> (ptr \<Rightarrow> tid list) \<Rightarrow> bool"
    and emp :: "'h \<Rightarrow> ptr \<Rightarrow> bool ret"
    and del :: "'h \<Rightarrow> ptr \<Rightarrow> ('h \<times> ptr) ret"
    and cell :: "'h \<Rightarrow> ptr \<Rightarrow> tid"
    and ins :: "'h \<Rightarrow> ptr \<Rightarrow> tid \<Rightarrow> 'h ret"
    and key :: "tid \<Rightarrow> int"
  assumes emp_law: "holds h L A \<Longrightarrow> l \<in> L \<Longrightarrow> emp h l = retn (A l = [])"
    and del_law: "holds h L A \<Longrightarrow> l \<in> L \<Longrightarrow> A l = t # ts \<Longrightarrow>
      \<exists>h' c. del h l = retn (h', c) \<and> cell h' c = t \<and> holds h' L (A(l := ts))"
    and ins_law: "holds h L A \<Longrightarrow> l \<in> L \<Longrightarrow>
      \<exists>h'. ins h l t = retn h' \<and> holds h' L (A(l := ordered_insert key t (A l)))"
begin

text \<open>Any loop that empties one queue into another, however it is written, ends.\<close>

lemma drain_law:
  assumes unfold: "\<And>h. loop h = bindR (emp h src) (\<lambda>e. if e then retn h
      else bindR (del h src) (\<lambda>(h1, c). bindR (ins h1 dst (cell h1 c)) loop))"
    and "holds h L A" "src \<in> L" "dst \<in> L" "src \<noteq> dst"
  shows "\<exists>h'. loop h = retn h' \<and> holds h' L (A(src := [], dst := fold (ordered_insert key) (A src) (A dst)))"
  using assms(2)
proof (induction "A src" arbitrary: h A)
  case Nil
  have e: "A src = []" using Nil(1) by simp
  have "loop h = retn h" by (subst unfold) (simp add: emp_law [OF Nil.prems assms(3)] e)
  moreover have "A(src := [], dst := fold (ordered_insert key) (A src) (A dst)) = A"
    by (rule ext) (simp add: e)
  then have "holds h L (A(src := [], dst := fold (ordered_insert key) (A src) (A dst)))"
    using Nil.prems by (simp only:)
  ultimately show ?case by blast
next
  case (Cons t ts)
  have src: "A src = t # ts" using Cons.hyps(2) by simp
  obtain h1 c where 1: "del h src = retn (h1, c)" "cell h1 c = t" "holds h1 L (A(src := ts))"
    using del_law [OF Cons.prems assms(3) src] by blast
  let ?A = "A(src := ts, dst := ordered_insert key t (A dst))"
  obtain h2 where 2: "ins h1 dst t = retn h2" "holds h2 L ?A"
    using ins_law [OF 1(3) assms(4), of t] assms(5) by auto
  have "loop h = loop h2"
    by (subst unfold) (simp add: emp_law [OF Cons.prems assms(3)] src 1 2)
  moreover obtain h' where h': "loop h2 = retn h'"
    "holds h' L (?A(src := [], dst := fold (ordered_insert key) (?A src) (?A dst)))"
    using Cons.hyps(1) [OF _ 2(2)] assms(5) by auto
  moreover have "?A(src := [], dst := fold (ordered_insert key) (?A src) (?A dst)) =
      A(src := [], dst := fold (ordered_insert key) (A src) (A dst))"
    using assms(5) by (intro ext) (simp add: src)
  ultimately show ?case by (simp only:) blast
qed

end

text \<open>
  \<open>queues z h L A\<close>: the queue objects in \<open>L\<close> hold the threads \<open>A\<close>, on disjoint nodes.
  With the flag \<open>z\<close> every list object that \<open>malloc\<close> will return reads as empty. Nothing guarantees that; theorems with
  \<open>z\<close> left open hold without it.
\<close>

definition zeroed :: "heap \<Rightarrow> bool" where
  "zeroed h \<longleftrightarrow> (\<forall>k\<ge>lbrk h. ll_head (lists_at h k) = 0 \<and> ll_tail (lists_at h k) = 0)"

definition queues :: "bool \<Rightarrow> heap \<Rightarrow> ptr set \<Rightarrow> (ptr \<Rightarrow> tid list) \<Rightarrow> bool" where
  "queues z h L A \<longleftrightarrow> (z \<longrightarrow> zeroed h) \<and> 0 < lbrk h \<and> (\<forall>l\<in>L. l < lbrk h) \<and>
     (\<exists>N. (\<forall>l\<in>L. lrep h l (N l) (A l)) \<and>
          (\<forall>l\<in>L. \<forall>k\<in>L. l \<noteq> k \<longrightarrow> set (N l) \<inter> set (N k) = {}))"

text \<open>An operation on one queue that only grows the heap keeps all the others.\<close>

lemma queues_update:
  assumes z: "z \<longrightarrow> zeroed h" and brk: "0 < lbrk h" "\<forall>l\<in>L. l < lbrk h"
    and N: "\<forall>l\<in>L. lrep h l (N l) (A l)" "\<forall>l\<in>L. \<forall>k\<in>L. l \<noteq> k \<longrightarrow> set (N l) \<inter> set (N k) = {}"
    and l: "l \<in> L" "lrep h' l ns' ts'" "grown h h' l (set (N l))"
    and ns': "set ns' \<subseteq> set (N l) \<union> {lbrk h..}"
  shows "queues z h' L (A(l := ts'))"
proof -
  let ?N = "N(l := ns')"
  have b: "n < lbrk h \<and> nd_thread (nodes_at h n) < lbrk h" if "k \<in> L" "n \<in> set (N k)" for k n
    using N(1) that by (auto simp: lrep_def)
  have other: "lrep h' k (N k) (A k)" if "k \<in> L" "k \<noteq> l" for k
  proof (rule lrep_cong)
    show "lrep h k (N k) (A k)" using N(1) that by simp
    show "lists_at h' k = lists_at h k" "lbrk h \<le> lbrk h'" using l(3) that by (auto simp: grown_def)
    fix n
    assume n: "n \<in> set (N k)"
    then have "n \<notin> set (N l)" using N(2) that l(1) by blast
    then show "nodes_at h' n = nodes_at h n" using l(3) b [OF that(1) n] by (simp add: grown_def)
    show "cells_at h' (nd_thread (nodes_at h n)) = node_tid h n"
      using l(3) b [OF that(1) n] by (simp add: grown_def)
  qed
  have apart: "set (?N k) \<inter> set (?N j) = {}" if kj: "k \<in> L" "j \<in> L" "k \<noteq> j" for k j
  proof -
    have "set ns' \<inter> set (N i) = {}" if "i \<in> L" "i \<noteq> l" for i
      using ns' N(2) l(1) that b [OF that(1)] by fastforce
    then show ?thesis using N(2) kj by auto
  qed
  have "\<forall>k\<in>L. lrep h' k (?N k) ((A(l := ts')) k)" using other l(2) by simp
  moreover have "0 < lbrk h'" "\<forall>k\<in>L. k < lbrk h'"
    using brk l(3) by (auto simp: grown_def intro: less_le_trans)
  moreover have "z \<longrightarrow> zeroed h'"
  proof -
    have "lists_at h' k = lists_at h k" if "lbrk h' \<le> k" for k
      using that brk(2) l(1,3) by (auto simp: grown_def)
    moreover have "lbrk h \<le> lbrk h'" using l(3) by (simp add: grown_def)
    ultimately show ?thesis using z by (auto simp: zeroed_def)
  qed
  ultimately show ?thesis unfolding queues_def using apart by blast
qed

lemma queues_pushOrdered:
  assumes "queues z h L A" "l \<in> L"
  shows "\<exists>h'. pushOrdered th order h l t = retn h' \<and>
    queues z h' L (A(l := ordered_insert (order_key th order) t (A l)))"
proof -
  from assms(1) obtain N where N: "z \<longrightarrow> zeroed h" "0 < lbrk h" "\<forall>l\<in>L. l < lbrk h" "\<forall>l\<in>L. lrep h l (N l) (A l)"
    "\<forall>l\<in>L. \<forall>k\<in>L. l \<noteq> k \<longrightarrow> set (N l) \<inter> set (N k) = {}" by (auto simp: queues_def)
  have "lrep h l (N l) (A l)" using N(4) assms(2) by simp
  from pushOrdered_lrep [OF this N(2), of th order t] obtain h' ns' where
    "pushOrdered th order h l t = retn h'" "lrep h' l ns' (ordered_insert (order_key th order) t (A l))"
    "set ns' = insert (lbrk h) (set (N l))" "grown h h' l (set (N l))" by blast
  then show ?thesis using queues_update [OF N assms(2)] by auto
qed

lemma queues_push:
  assumes "queues z h L A" "l \<in> L"
  shows "\<exists>h'. push h l t = retn h' \<and> queues z h' L (A(l := A l @ [t]))"
proof -
  from assms(1) obtain N where N: "z \<longrightarrow> zeroed h" "0 < lbrk h" "\<forall>l\<in>L. l < lbrk h" "\<forall>l\<in>L. lrep h l (N l) (A l)"
    "\<forall>l\<in>L. \<forall>k\<in>L. l \<noteq> k \<longrightarrow> set (N l) \<inter> set (N k) = {}" by (auto simp: queues_def)
  have "lrep h l (N l) (A l)" using N(4) assms(2) by simp
  from push_lrep [OF this N(2), of t] obtain h' n where
    "push h l t = retn h'" "lrep h' l (N l @ [n]) (A l @ [t])" "n = lbrk h" "grown h h' l (set (N l))"
    by blast
  then show ?thesis using queues_update [OF N assms(2)] by auto
qed

lemma queues_pop:
  assumes "queues z h L A" "l \<in> L" "A l = t # ts"
  shows "\<exists>h' c. pop h l = retn (h', c) \<and> cells_at h' c = t \<and> queues z h' L (A(l := ts))"
proof -
  from assms(1) obtain N where N: "z \<longrightarrow> zeroed h" "0 < lbrk h" "\<forall>l\<in>L. l < lbrk h" "\<forall>l\<in>L. lrep h l (N l) (A l)"
    "\<forall>l\<in>L. \<forall>k\<in>L. l \<noteq> k \<longrightarrow> set (N l) \<inter> set (N k) = {}" by (auto simp: queues_def)
  have "lrep h l (N l) (t # ts)" using N(4) assms(2,3) by metis
  from pop_lrep [OF this] obtain h' c where
    p: "pop h l = retn (h', c)" "cells_at h' c = t" "lrep h' l (tl (N l)) ts" "grown h h' l {}" by blast
  then have "grown h h' l (set (N l))" by (simp add: grown_def)
  moreover have "set (tl (N l)) \<subseteq> set (N l) \<union> {lbrk h..}" by (cases "N l") auto
  ultimately show ?thesis using queues_update [OF N assms(2) p(3)] p(1,2) by blast
qed

text \<open>The cell that \<open>pop\<close> returns is never written again.\<close>

lemma queues_pop_cell:
  assumes "queues z h L A" "l \<in> L" "A l = t # ts"
  shows "\<exists>h' c. pop h l = retn (h', c) \<and> cells_at h' c = t \<and> queues z h' L (A(l := ts)) \<and> c < lbrk h'"
proof -
  obtain h' c where 1: "pop h l = retn (h', c)" "cells_at h' c = t" "queues z h' L (A(l := ts))"
    using queues_pop [OF assms] by blast
  obtain ns where "lrep h l ns (t # ts)" using assms by (auto simp: queues_def)
  then have "nd_thread (nodes_at h (ll_head (lists_at h l))) < lbrk h" by (cases ns) (auto simp: lrep_def)
  then have "c < lbrk h'" using 1(1) by (auto simp: pop_def Let_def split: if_splits)
  with 1 show ?thesis by blast
qed

lemma pushOrdered_cells:
  assumes "pushOrdered th order h l t = retn h'" "c < lbrk h"
  shows "cells_at h' c = cells_at h c"
  using assms by (auto simp: pushOrdered_def newNode_def Let_def bindR_eq_retn split: if_splits)

lemma queues_pushOrdered_cell:
  assumes "queues z h L A" "l \<in> L"
  shows "\<exists>h'. pushOrdered th order h l t = retn h' \<and>
    queues z h' L (A(l := ordered_insert (order_key th order) t (A l))) \<and>
    (\<forall>c<lbrk h. cells_at h' c = cells_at h c)"
  using queues_pushOrdered [OF assms, of th order t] pushOrdered_cells by blast

lemma queues_empty: "queues z h L A \<Longrightarrow> l \<in> L \<Longrightarrow> empty h l = retn (A l = [])"
  using lrep_empty by (auto simp: queues_def)

lemma queues_pop_empty: "queues z h L A \<Longrightarrow> l \<in> L \<Longrightarrow> A l = [] \<Longrightarrow> pop h l = fail NullDeref"
  using pop_empty by (fastforce simp: queues_def)

interpretation lq: thread_queues "queues z" empty pop cells_at "pushOrdered th order" "order_key th order"
  for z th order
  by unfold_locales (fact queues_empty queues_pop queues_pushOrdered)+

lemma queues_drain:
  assumes "queues z h L A" "src \<in> L" "dst \<in> L" "src \<noteq> dst"
  shows "\<exists>h'. drain th order h src dst = retn h' \<and>
    queues z h' L (A(src := [], dst := fold (ordered_insert (order_key th order)) (A src) (A dst)))"
  by (rule lq.drain_law [OF _ assms]) (subst drain.simps, simp)

section \<open>Ordering by age\<close>

lemma queues_insert_empty:
  assumes "queues z h L A" "k = lbrk h" "ll_head (lists_at h k) = 0" "ll_tail (lists_at h k) = 0"
  shows "queues z (h\<lparr>lbrk := k + 1\<rparr>) (insert k L) (A(k := []))"
proof -
  from assms(1) obtain N where N: "z \<longrightarrow> zeroed h" "0 < lbrk h" "\<forall>l\<in>L. l < lbrk h" "\<forall>l\<in>L. lrep h l (N l) (A l)"
    "\<forall>l\<in>L. \<forall>k\<in>L. l \<noteq> k \<longrightarrow> set (N l) \<inter> set (N k) = {}" by (auto simp: queues_def)
  have k: "k \<notin> L" "0 < k" using N(2,3) assms(2) by auto
  let ?h = "h\<lparr>lbrk := k + 1\<rparr>"
  have "lrep ?h l (N l) (A l)" if "l \<in> L" for l
    by (rule lrep_cong [where h = h]) (use N(4) that assms(2) in auto)
  moreover have "lrep ?h k [] []" using k assms(3,4) by (simp add: lrep_def)
  ultimately have "\<forall>l\<in>insert k L. lrep ?h l ((N(k := [])) l) ((A(k := [])) l)" using k by auto
  moreover have "\<forall>l\<in>insert k L. \<forall>j\<in>insert k L. l \<noteq> j \<longrightarrow>
      set ((N(k := [])) l) \<inter> set ((N(k := [])) j) = {}" using N(5) by auto
  moreover have "\<forall>l\<in>insert k L. l < lbrk ?h" using N(3) assms(2) by auto
  moreover have "z \<longrightarrow> zeroed ?h" using N(1) assms(2) by (auto simp: zeroed_def)
  ultimately show ?thesis
    using k unfolding queues_def by (intro conjI exI [of _ "N(k := [])"]) auto
qed

lemma queues_rename:
  assumes "queues z h (insert k L) A" "k \<notin> L" "l \<in> L"
  shows "queues z (set_list h l (lists_at h k)) L (A(l := A k))"
proof -
  from assms(1) obtain N where N: "z \<longrightarrow> zeroed h" "0 < lbrk h" "\<forall>l\<in>insert k L. l < lbrk h"
    "\<forall>l\<in>insert k L. lrep h l (N l) (A l)"
    "\<forall>l\<in>insert k L. \<forall>j\<in>insert k L. l \<noteq> j \<longrightarrow> set (N l) \<inter> set (N j) = {}" by (auto simp: queues_def)
  let ?h = "set_list h l (lists_at h k)"
  have "lrep ?h j ((N(l := N k)) j) ((A(l := A k)) j)" if j: "j \<in> L" for j
  proof (cases "j = l")
    case True
    have "lrep h k (N k) (A k)" "lrep h l (N l) (A l)" using N(4) assms(3) by simp_all
    then show ?thesis using True by (simp add: lrep_def)
  next
    case False
    have "lrep ?h j (N j) (A j)"
      by (rule lrep_cong [where h = h]) (use N(4) j False in auto)
    then show ?thesis using False by simp
  qed
  moreover have "set ((N(l := N k)) i) \<inter> set ((N(l := N k)) j) = {}" if "i \<in> L" "j \<in> L" "i \<noteq> j" for i j
    using N(5) that assms(2,3) by auto
  ultimately show ?thesis
    using N(1-3) assms(3) unfolding queues_def zeroed_def
    by (intro conjI exI [of _ "N(l := N k)"] ballI) auto
qed

text \<open>
  \<open>orderByOldest\<close> moves the threads into the list object that \<open>malloc\<close> returns, as it finds it. If that reads as a list of
  the threads \<open>us\<close>, they are in the queue afterwards.
\<close>

lemma orderByOldest_merges:
  assumes "queues z (h\<lparr>lbrk := lbrk h + 1\<rparr>) (insert (lbrk h) L) (A(lbrk h := us))" "lbrk h \<notin> L" "l \<in> L"
  shows "\<exists>h'. orderByOldest th h l = retn h' \<and>
    queues z h' L (A(l := fold (ordered_insert (order_key th 1)) (A l) us))"
proof -
  define k where "k = lbrk h"
  have k: "k \<notin> L" "k \<noteq> l" using assms(2,3) by (auto simp: k_def)
  from queues_drain [OF assms(1), of l k th 1] obtain h1 where
    h1: "drain th 1 (h\<lparr>lbrk := k + 1\<rparr>) l k = retn h1"
      "queues z h1 (insert k L) (A(k := us, l := [], k := fold (ordered_insert (order_key th 1)) (A l) us))"
    using assms(3) k by (auto simp: k_def)
  from queues_rename [OF h1(2) k(1) assms(3)]
  have q: "queues z (set_list h1 l (lists_at h1 k)) L
      (A(k := us, l := [], k := fold (ordered_insert (order_key th 1)) (A l) us,
         l := fold (ordered_insert (order_key th 1)) (A l) us))" by simp
  have cong: "queues z h L A \<Longrightarrow> \<forall>l\<in>L. A l = B l \<Longrightarrow> queues z h L B" for h A B
    unfolding queues_def by auto
  have "queues z (set_list h1 l (lists_at h1 k)) L (A(l := fold (ordered_insert (order_key th 1)) (A l) us))"
    by (rule cong [OF q]) (use k in auto)
  then show ?thesis using h1(1) by (simp add: orderByOldest_def Let_def k_def)
qed

text \<open>The first insertion into a list with \<open>tail\<close> 0 does not look at \<open>head\<close>.\<close>

lemma drain_stale_head:
  assumes "l \<noteq> k" "k \<noteq> 0" "ll_head (lists_at h l) \<noteq> 0" "ll_tail (lists_at h k) = 0"
  shows "drain th order (set_list h k ((lists_at h k)\<lparr>ll_head := q\<rparr>)) l k = drain th order h l k"
proof (cases "l = 0")
  case True
  then show ?thesis by (subst (1 2) drain.simps) (simp add: empty_def)
next
  case False
  then show ?thesis using assms
    by (subst (1 2) drain.simps) (simp add: empty_def pop_def pushOrdered_def newNode_def Let_def fun_upd_twist)
qed

lemma queues_head: "queues z h L A \<Longrightarrow> l \<in> L \<Longrightarrow> l \<noteq> 0 \<and> (ll_head (lists_at h l) = 0 \<longleftrightarrow> A l = [])"
  using queues_empty [of z h L A l] by (auto simp: queues_def lrep_def empty_def)

lemma orderByOldest_queues:
  assumes q: "queues z h L A" "l \<in> L" and t: "ll_tail (lists_at h (lbrk h)) = 0"
    and e: "A l \<noteq> [] \<or> ll_head (lists_at h (lbrk h)) = 0"
  shows "\<exists>h'. orderByOldest th h l = retn h' \<and>
    queues z h' L (A(l := fold (ordered_insert (order_key th 1)) (A l) []))"
proof -
  define k where "k = lbrk h"
  let ?g = "set_list h k ((lists_at h k)\<lparr>ll_head := 0\<rparr>)"
  have k: "k \<notin> L" "k \<noteq> l" "k \<noteq> 0" using q by (auto simp: queues_def k_def)
  have "queues z ?g L A"
  proof -
    obtain N where N: "z \<longrightarrow> zeroed h" "0 < lbrk h" "\<forall>l\<in>L. l < lbrk h" "\<forall>l\<in>L. lrep h l (N l) (A l)"
      "\<forall>l\<in>L. \<forall>k\<in>L. l \<noteq> k \<longrightarrow> set (N l) \<inter> set (N k) = {}" using q(1) by (auto simp: queues_def)
    have "lrep ?g j (N j) (A j)" if "j \<in> L" for j
      by (rule lrep_cong [where h = h]) (use N(4) that k(1) in auto)
    then show ?thesis using N unfolding queues_def by (intro conjI exI [of _ N]) (auto simp: zeroed_def)
  qed
  from queues_insert_empty [OF this, of k] have
    "queues z (?g\<lparr>lbrk := lbrk ?g + 1\<rparr>) (insert (lbrk ?g) L) (A(lbrk ?g := []))" using t by (simp add: k_def)
  from orderByOldest_merges [OF this _ q(2), of th] have
    "\<exists>h'. orderByOldest th ?g l = retn h' \<and> queues z h' L (A(l := fold (ordered_insert (order_key th 1)) (A l) []))"
    using k(1) by (simp add: k_def)
  moreover have "orderByOldest th ?g l = orderByOldest th h l"
  proof (cases "A l = []")
    case True
    then have "?g = h" using e by (auto simp: k_def intro!: heap.equality)
    then show ?thesis by simp
  next
    case False
    then have "ll_head (lists_at h l) \<noteq> 0" using queues_head [OF q] by simp
    let ?h = "h\<lparr>lbrk := k + 1\<rparr>"
    have g: "?g\<lparr>lbrk := k + 1\<rparr> = set_list ?h k ((lists_at ?h k)\<lparr>ll_head := 0\<rparr>)" by (rule heap.equality) simp_all
    have "drain th 1 (?g\<lparr>lbrk := k + 1\<rparr>) l k = drain th 1 ?h l k"
      unfolding g by (rule drain_stale_head) (use k t \<open>ll_head (lists_at h l) \<noteq> 0\<close> in \<open>simp_all add: k_def\<close>)
    then show ?thesis by (simp add: orderByOldest_def Let_def k_def)
  qed
  ultimately show ?thesis by simp
qed

text \<open>A new list with a \<open>tail\<close> and no \<open>head\<close>.\<close>

lemma orderByOldest_null:
  assumes q: "queues z h L A" "l \<in> L" "A l \<noteq> []"
    and new: "ll_tail (lists_at h (lbrk h)) \<noteq> 0" "ll_head (lists_at h (lbrk h)) = 0"
  shows "orderByOldest th h l = fail NullDeref"
proof -
  have k: "lbrk h \<noteq> l" "lbrk h \<noteq> 0" using q by (auto simp: queues_def)
  have l: "l \<noteq> 0" "ll_head (lists_at h l) \<noteq> 0" using queues_head [OF q(1,2)] q(3) by simp_all
  have "order_loop g key x 0 0 = retn 0" for g key x by (subst order_loop.simps) simp
  then have "drain th 1 (h\<lparr>lbrk := lbrk h + 1\<rparr>) l (lbrk h) = fail NullDeref" using k l new
    by (subst drain.simps) (simp add: empty_def pop_def pushOrdered_def newNode_def Let_def)
  then show ?thesis by (simp add: orderByOldest_def Let_def)
qed

lemma zeroed_new: "queues True h L A \<Longrightarrow> ll_head (lists_at h (lbrk h)) = 0 \<and> ll_tail (lists_at h (lbrk h)) = 0"
  by (simp add: queues_def zeroed_def)

lemma sorted_insert_mid:
  assumes "sorted (map f us)" "sorted (map f vs)"
    and "\<forall>u\<in>set us. f u \<le> k" "\<forall>v\<in>set vs. k \<le> f v"
  shows "sorted (map f us @ k # map f vs)"
  using assms by (induction us) (auto intro: order_trans)

lemma ordered_insert_sorted:
  assumes "sorted (map key xs)" "xs = [] \<or> key (hd xs) \<le> key t"
  shows "sorted (map key (ordered_insert key t xs))"
proof (cases xs)
  case (Cons x ys)
  have s: "sorted (map key ys)" "\<forall>y\<in>set ys. key x \<le> key y" using assms(1) Cons by auto
  let ?P = "\<lambda>y. key y \<le> key t"
  have "sorted (map key (takeWhile ?P ys @ dropWhile ?P ys))" using s(1) by simp
  then have st: "sorted (map key (takeWhile ?P ys))" "sorted (map key (dropWhile ?P ys))"
    by (simp_all only: map_append sorted_append)
  have up: "key t \<le> key y" if "y \<in> set (dropWhile ?P ys)" for y
  proof (cases "dropWhile ?P ys")
    case (Cons z zs)
    then have "\<not> ?P z" by (metis hd_dropWhile list.distinct(1) list.sel(1))
    moreover have "key z \<le> key y" using st(2) Cons that by auto
    ultimately show ?thesis by simp
  next
    case Nil
    with that show ?thesis by (simp only: list.set(1) empty_iff)
  qed
  have low: "key y \<le> key t" if "y \<in> set (takeWhile ?P ys)" for y using that by (auto dest: set_takeWhileD)
  have "sorted (map key (takeWhile ?P ys) @ key t # map key (dropWhile ?P ys))"
    by (rule sorted_insert_mid [OF st]) (use low up in blast)+
  moreover have "\<forall>y\<in>set (takeWhile ?P ys) \<union> set (dropWhile ?P ys). key x \<le> key y"
    using s(2) by (auto dest: set_takeWhileD set_dropWhileD)
  ultimately show ?thesis using Cons assms(2) by (simp add: ball_Un)
qed simp

lemma hd_ordered_insert: "xs \<noteq> [] \<Longrightarrow> hd (ordered_insert key t xs) = hd xs"
  by (cases xs) auto

lemma hd_fold_ordered_insert: "xs \<noteq> [] \<Longrightarrow> hd (fold (ordered_insert key) ts xs) = hd xs"
  by (induction ts arbitrary: xs) (simp_all add: hd_ordered_insert)

lemma mset_fold_ordered_insert: "mset (fold (ordered_insert key) ts xs) = mset ts + mset xs"
  by (induction ts arbitrary: xs) (simp_all add: ordered_insert_mset)

end
