(* ===== verification/Threads.thy ===== *)
theory Threads
  imports VM_Api Linked_List
begin

text \<open>
  my_pthread.c: the thread library. The state holds the memory manager, the queue heap, the
  thread and mutex objects, and the library's globals. A function that ends in a context
  switch returns the state at the switch; the thread that runs next is \<open>running\<close>. Code
  under a blocked \<open>SIGPROF\<close> is one step.
\<close>

section \<open>State\<close>

record lock =
  lk_state :: int
  lk_wait :: ptr

text \<open>
  \<open>running\<close> is \<open>*running\<close>, 0 while \<open>running\<close> is \<open>NULL\<close>; its id is mirrored in the memory
  manager. \<open>run\<close> is the pointer to the run queue. \<open>nextId\<close> and \<open>nSchedulings\<close> are the
  unsigned counters the globals point to, \<open>tv_usec\<close> the field of the timer struct.
\<close>

record os =
  vmem :: vm
  qheap :: heap
  threads :: "tid \<Rightarrow> sthread"
  locks :: "ptr \<Rightarrow> lock"
  run :: ptr
  running :: tid
  mainThread :: tid
  nextId :: nat
  nSchedulings :: nat
  tv_usec :: nat
  objects :: os_objects

abbreviation STACK_SIZE :: nat where "STACK_SIZE \<equiv> 32768"

abbreviation set_thread :: "os \<Rightarrow> tid \<Rightarrow> sthread \<Rightarrow> os" where
  "set_thread s t x \<equiv> s\<lparr>threads := (threads s)(t := x)\<rparr>"

abbreviation set_lock :: "os \<Rightarrow> ptr \<Rightarrow> lock \<Rightarrow> os" where
  "set_lock s m x \<equiv> s\<lparr>locks := (locks s)(m := x)\<rparr>"

text \<open>\<open>*running = t\<close>.\<close>

definition set_running :: "os \<Rightarrow> tid \<Rightarrow> os" where
  "set_running s t =
     s\<lparr>running := t, vmem := (vmem s)\<lparr>runningId := Some (u32 (th_id (threads s t)))\<rparr>\<rparr>"

section \<open>Switching threads\<close>

definition virtualMemory :: "os \<Rightarrow> os ret" where
  "virtualMemory s =
     bindR (updateReference (bytes (vmem s)) (memPtr (vmem s))) (\<lambda>m.
       let v = (vmem s)\<lparr>bytes := m\<rparr> in
       if VIRTUAL_MEMORY then
         (if running s = 0 then fail NullDeref
          else bindR (memoryProtect v (u32 (th_id (threads s (running s))))) (\<lambda>(v', _).
                 retn (s\<lparr>vmem := v'\<rparr>)))
       else retn (s\<lparr>vmem := v\<rparr>))"

text \<open>\<open>*running = *pop(run)\<close>.\<close>

definition pop_run :: "os \<Rightarrow> os ret" where
  "pop_run s =
     bindR (pop (qheap s) (run s)) (\<lambda>(h, c).
       retn (set_running (s\<lparr>qheap := h\<rparr>) (cells_at h c)))"

text \<open>
  \<open>threadExit(res)\<close>. \<open>slot\<close> is the address of the parameter \<open>res\<close> in the frame of the
  call, which is what the thread object keeps. The flag returned says whether another
  thread was switched to; without one the function returns to its caller.
\<close>

definition threadExit :: "os \<Rightarrow> nat \<Rightarrow> ptr \<Rightarrow> (os \<times> bool) ret" where
  "threadExit s res slot =
     (if running s = 0 then fail NullDeref
      else
        let r = running s;
            s1 = set_thread s r ((threads s r)\<lparr>th_finished := 1\<rparr>);
            s2 = (if res \<noteq> 0 then set_thread s1 r ((threads s1 r)\<lparr>th_res := slot\<rparr>) else s1)
        in bindR (drain (threads s2) 0 (qheap s2) (th_waitJoin (threads s2 r)) (run s2)) (\<lambda>h.
           let s3 = s2\<lparr>qheap := h\<rparr> in
           bindR (empty h (run s3)) (\<lambda>e.
             if \<not> e then
               bindR (virtualMemory s3) (\<lambda>s4.
               bindR (pop_run s4) (\<lambda>s5. retn (s5\<lparr>tv_usec := QUANTUM\<rparr>, True)))
             else retn (s3, False))))"

text \<open>
  \<open>threadRun(t)\<close> after \<open>t->function\<close> has returned the pointer \<open>res\<close>; \<open>deref\<close> reads memory.
\<close>

definition threadRun :: "os \<Rightarrow> (ptr \<Rightarrow> nat) \<Rightarrow> ptr \<Rightarrow> ptr \<Rightarrow> (os \<times> bool) ret" where
  "threadRun s deref res slot =
     (if res \<noteq> 0 then threadExit s (deref res) slot else threadExit s 0 slot)"

text \<open>The first half of \<open>scheduler\<close>: every 151st time the run queue is ordered by age.\<close>

definition count_turn :: "os \<Rightarrow> os ret" where
  "count_turn s =
     (let s1 = s\<lparr>tv_usec := QUANTUM, nSchedulings := (nSchedulings s + 1) mod 2 ^ 32\<rparr> in
      if nSchedulings s1 > 150
      then bindR (orderByOldest (threads s1) (qheap s1) (run s1)) (\<lambda>h.
             retn (s1\<lparr>qheap := h, nSchedulings := 0\<rparr>))
      else retn s1)"

definition scheduler :: "os \<Rightarrow> os ret" where
  "scheduler s =
     bindR (count_turn s) (\<lambda>s2.
       if running s2 = 0 then fail NullDeref
       else
         let r = running s2;
             s3 = set_thread s2 r ((threads s2 r)\<lparr>th_priority := (th_priority (threads s2 r) + 1) mod 2 ^ 32\<rparr>)
         in bindR (empty (qheap s3) (run s3)) (\<lambda>e.
            if \<not> e then
              bindR (virtualMemory s3) (\<lambda>s4.
              bindR (pop (qheap s4) (run s4)) (\<lambda>(h, nextThread).
              bindR (pushOrdered (threads s4) 0 h (run s4) (running s4)) (\<lambda>h'.
                retn (set_running (s4\<lparr>qheap := h'\<rparr>) (cells_at h' nextThread)))))
            else retn s3))"

text \<open>The signal handler saves the context and runs the scheduler on its own stack.\<close>

definition interrupt :: "os \<Rightarrow> os ret" where
  "interrupt s = scheduler s"

definition my_pthread_yield :: "os \<Rightarrow> os ret" where
  "my_pthread_yield s =
     (if running s = 0 then fail NullDeref
      else
        let r = running s; p = th_priority (threads s r);
            s1 = (if p > 0 then set_thread s r ((threads s r)\<lparr>th_priority := p - 1\<rparr>) else s)
        in interrupt s1)"

definition my_pthread_exit :: "os \<Rightarrow> nat \<Rightarrow> ptr \<Rightarrow> (os \<times> bool) ret" where
  "my_pthread_exit s value_ptr slot = threadExit s value_ptr slot"

section \<open>Creating threads\<close>

definition initOS :: "platform \<Rightarrow> os \<Rightarrow> os ret" where
  "initOS e s =
     bindR (initOS_memory e (vmem s)) (\<lambda>(v, ob).
       let t = obj_mainThread ob;
           s1 = s\<lparr>vmem := v, objects := ob, run := obj_run ob, mainThread := t\<rparr>;
           s2 = set_thread s1 t ((threads s1 t)\<lparr>th_id := 1, th_priority := 0, th_born := now e mod 2 ^ 64,
                  th_function := 0, th_arg := 0, th_finished := 0\<rparr>)
       in retn ((set_running s2 t)\<lparr>nextId := 2, nSchedulings := 0, tv_usec := QUANTUM\<rparr>))"

text \<open>
  \<open>createNewThread\<close>; \<open>getcontextOk\<close> says whether \<open>getcontext\<close> succeeds. The queue \<open>waitJoin\<close>
  is allocated and not initialised. The result is the new thread.
\<close>

definition createNewThread ::
  "platform \<Rightarrow> bool \<Rightarrow> os \<Rightarrow> nat \<Rightarrow> nat \<Rightarrow> (os \<times> tid \<times> int) ret" where
  "createNewThread e getcontextOk s function arg =
     bindR (os_new e (vmem s) (sizeof_sthread e)) (\<lambda>(v1, t).
     bindR (os_alloc e v1 24) (\<lambda>(v2, w).
       let s1 = s\<lparr>vmem := v2\<rparr>;
           s2 = set_thread s1 t ((threads s1 t)\<lparr>th_waitJoin := w, th_id := s32 (nextId s),
                  th_function := function, th_arg := arg, th_finished := 0, th_priority := 0,
                  th_born := now e mod 2 ^ 64\<rparr>);
           s3 = s2\<lparr>nextId := (nextId s + 1) mod 2 ^ 32\<rparr>
       in bindR (myallocate e (vmem s3) 0 (th_id (threads s3 t))) (\<lambda>(v3, _).
          if getcontextOk
          then bindR (os_alloc e v3 STACK_SIZE) (\<lambda>(v4, stack). retn (s3\<lparr>vmem := v4\<rparr>, t, 0))
          else retn (s3\<lparr>vmem := v3\<rparr>, t, 1))))"

text \<open>
  \<open>nullThread\<close> says that the argument \<open>thread\<close> is \<open>NULL\<close>. The result is the return value
  and the handle stored in \<open>*thread\<close>.
\<close>

definition my_pthread_create ::
  "platform \<Rightarrow> bool \<Rightarrow> os \<Rightarrow> bool \<Rightarrow> nat \<Rightarrow> nat \<Rightarrow> (os \<times> tid \<times> int) ret" where
  "my_pthread_create e getcontextOk s nullThread function arg =
     (if nullThread then retn (s, 0, 1)
      else
        bindR (if run s = 0 then initOS e s else retn s) (\<lambda>s1.
        bindR (createNewThread e getcontextOk s1 function arg) (\<lambda>(s2, t, _).
        bindR (pushOrdered (threads s2) 0 (qheap s2) (run s2) t) (\<lambda>h.
          retn (s2\<lparr>qheap := h\<rparr>, t, 0)))))"

section \<open>Joining\<close>

text \<open>
  \<open>my_pthread_join\<close> up to its context switch. The flag says whether the caller goes on to
  \<open>join_value\<close> at once; otherwise it does so when it is switched to again.
\<close>

definition my_pthread_join :: "os \<Rightarrow> tid \<Rightarrow> (os \<times> bool) ret" where
  "my_pthread_join s t =
     (if t = 0 then fail NullDeref
      else if th_finished (threads s t) = 0 then
        bindR (pushOrdered (threads s) 0 (qheap s) (th_waitJoin (threads s t)) (running s)) (\<lambda>h.
          let s1 = s\<lparr>qheap := h\<rparr> in
          bindR (empty h (run s1)) (\<lambda>e.
            if \<not> e then
              bindR (virtualMemory s1) (\<lambda>s2. bindR (pop_run s2) (\<lambda>s3. retn (s3, False)))
            else
              bindR (mydeallocate (vmem s1) (run s1) OSREQ) (\<lambda>v1.
              bindR (mydeallocate v1 (mainThread s1) OSREQ) (\<lambda>v2.
              bindR (mydeallocate v2 (obj_running (objects s1)) OSREQ) (\<lambda>v3.
                retn (s1\<lparr>vmem := v3\<rparr>, True))))))
      else retn (s, True))"

text \<open>\<open>if (value_ptr != NULL) *value_ptr = *thread->res;\<close>\<close>

definition join_value :: "os \<Rightarrow> (ptr \<Rightarrow> nat) \<Rightarrow> tid \<Rightarrow> bool \<Rightarrow> nat option ret" where
  "join_value s deref t wantValue =
     (if wantValue
      then (if th_res (threads s t) = 0 then fail NullDeref
            else retn (Some (deref (th_res (threads s t)))))
      else retn None)"

section \<open>Mutexes\<close>

definition my_pthread_mutex_init :: "platform \<Rightarrow> os \<Rightarrow> (os \<times> ptr) ret" where
  "my_pthread_mutex_init e s =
     bindR (os_new e (vmem s) 16) (\<lambda>(v1, l).
     bindR (os_alloc e v1 24) (\<lambda>(v2, w).
       retn (set_lock (s\<lparr>vmem := v2\<rparr>) l \<lparr>lk_state = 0, lk_wait = w\<rparr>, l)))"

text \<open>The two statements of \<open>testAndSet\<close>; the timer can fire between them.\<close>

definition tas_read :: "os \<Rightarrow> ptr \<Rightarrow> int" where
  "tas_read s m = lk_state (locks s m)"

definition tas_write :: "os \<Rightarrow> ptr \<Rightarrow> os" where
  "tas_write s m = set_lock s m ((locks s m)\<lparr>lk_state := 1\<rparr>)"

definition testAndSet :: "os \<Rightarrow> ptr \<Rightarrow> os \<times> int" where
  "testAndSet s m = (tas_write s m, tas_read s m)"

text \<open>
  The body of the loop in \<open>my_pthread_mutex_lock\<close>, run when \<open>testAndSet\<close> returned 1. The
  flag says whether the caller was switched away; it tries again in either case.
\<close>

definition lock_wait :: "os \<Rightarrow> ptr \<Rightarrow> (os \<times> bool) ret" where
  "lock_wait s m =
     (if lk_state (locks s m) = 1 then
        bindR (virtualMemory s) (\<lambda>s1.
        bindR (push (qheap s1) (lk_wait (locks s1 m)) (running s1)) (\<lambda>h.
        bindR (pop_run (s1\<lparr>qheap := h, tv_usec := QUANTUM\<rparr>)) (\<lambda>s2. retn (s2, True))))
      else retn (s, False))"

definition my_pthread_mutex_unlock :: "os \<Rightarrow> ptr \<Rightarrow> os ret" where
  "my_pthread_mutex_unlock s m =
     bindR (empty (qheap s) (lk_wait (locks s m))) (\<lambda>e.
     bindR (if \<not> e
            then bindR (pop (qheap s) (lk_wait (locks s m))) (\<lambda>(h, c).
                   pushOrdered (threads s) 0 h (run s) (cells_at h c))
            else retn (qheap s)) (\<lambda>h.
       retn (set_lock (s\<lparr>qheap := h\<rparr>) m ((locks s m)\<lparr>lk_state := 0\<rparr>))))"

text \<open>\<open>free\<close> is \<open>mydeallocate(\<dots>, THREADREQ)\<close> here.\<close>

definition my_pthread_mutex_destroy :: "os \<Rightarrow> ptr \<Rightarrow> os ret" where
  "my_pthread_mutex_destroy s m =
     bindR (drain (threads s) 0 (qheap s) (lk_wait (locks s m)) (run s)) (\<lambda>h.
       let s1 = set_lock (s\<lparr>qheap := h\<rparr>) m ((locks s m)\<lparr>lk_state := 0\<rparr>) in
       bindR (mydeallocate (vmem s1) (lk_wait (locks s1 m)) THREADREQ) (\<lambda>v1.
       bindR (mydeallocate v1 m THREADREQ) (\<lambda>v2. retn (s1\<lparr>vmem := v2\<rparr>))))"

end
