(* ===== verification/Thread_Spec.thy ===== *)
theory Thread_Spec
  imports Threads Protection
begin

text \<open>
  What the thread library promises, on lists instead of queue objects, and the proof that
  my_pthread.c does it. The abstract state keeps one list of threads per queue; the page
  table and the queue heap are gone.
\<close>

section \<open>The abstract library\<close>

record asys =
  qs :: "ptr \<Rightarrow> tid list"
  rq :: ptr
  current :: tid
  info :: "tid \<Rightarrow> sthread"
  locked :: "ptr \<Rightarrow> lock"
  turns :: nat

abbreviation ready :: "asys \<Rightarrow> tid list" where
  "ready a \<equiv> qs a (rq a)"

definition bump :: "(tid \<Rightarrow> sthread) \<Rightarrow> tid \<Rightarrow> tid \<Rightarrow> sthread" where
  "bump th t = th(t := (th t)\<lparr>th_priority := (th_priority (th t) + 1) mod 2 ^ 32\<rparr>)"

text \<open>Put the current thread back into the run queue and run the first one there.\<close>

definition arotate :: "asys \<Rightarrow> asys" where
  "arotate a =
     (case ready a of
        [] \<Rightarrow> a
      | t # ts \<Rightarrow> a\<lparr>qs := (qs a)(rq a := ordered_insert (order_key (info a) 0) (current a) ts), current := t\<rparr>)"

definition areorder :: "asys \<Rightarrow> asys" where
  "areorder a =
     (let a1 = a\<lparr>turns := (turns a + 1) mod 2 ^ 32\<rparr> in
      if turns a1 > 150
      then a1\<lparr>qs := (qs a)(rq a := fold (ordered_insert (order_key (info a) 1)) (ready a) []), turns := 0\<rparr>
      else a1)"

definition ascheduler :: "asys \<Rightarrow> asys" where
  "ascheduler a = (let a1 = areorder a in arotate (a1\<lparr>info := bump (info a1) (current a1)\<rparr>))"

definition ayield :: "asys \<Rightarrow> asys" where
  "ayield a =
     (let p = th_priority (info a (current a)) in
      ascheduler (if p > 0
        then a\<lparr>info := (info a)(current a := (info a (current a))\<lparr>th_priority := p - 1\<rparr>)\<rparr> else a))"

text \<open>Leave the processor to the first ready thread.\<close>

definition adispatch :: "asys \<Rightarrow> asys" where
  "adispatch a = (case ready a of [] \<Rightarrow> a | t # ts \<Rightarrow> a\<lparr>qs := (qs a)(rq a := ts), current := t\<rparr>)"

definition awake_all :: "asys \<Rightarrow> ptr \<Rightarrow> asys" where
  "awake_all a w =
     a\<lparr>qs := (qs a)(w := [], rq a := fold (ordered_insert (order_key (info a) 0)) (qs a w) (ready a))\<rparr>"

definition aexit :: "asys \<Rightarrow> nat \<Rightarrow> ptr \<Rightarrow> asys" where
  "aexit a res slot =
     (let x = (info a (current a))\<lparr>th_finished := 1\<rparr>;
          x' = (if res \<noteq> 0 then x\<lparr>th_res := slot\<rparr> else x);
          a1 = a\<lparr>info := (info a)(current a := x')\<rparr>
      in adispatch (awake_all a1 (th_waitJoin x')))"

text \<open>
  \<open>ajoin\<close> for a thread that has not finished, \<open>alock_wait\<close> and \<open>aunlock\<close>; waiting on a
  mutex is in order of arrival.
\<close>

definition ajoin :: "asys \<Rightarrow> tid \<Rightarrow> asys" where
  "ajoin a t =
     (let w = th_waitJoin (info a t) in
      adispatch (a\<lparr>qs := (qs a)(w := ordered_insert (order_key (info a) 0) (current a) (qs a w))\<rparr>))"

definition alock_wait :: "asys \<Rightarrow> ptr \<Rightarrow> asys" where
  "alock_wait a m =
     (let w = lk_wait (locked a m) in adispatch (a\<lparr>qs := (qs a)(w := qs a w @ [current a])\<rparr>))"

definition aunlock :: "asys \<Rightarrow> ptr \<Rightarrow> asys" where
  "aunlock a m =
     (let w = lk_wait (locked a m);
          q = (case qs a w of [] \<Rightarrow> qs a
                 | t # ts \<Rightarrow> (qs a)(w := ts, rq a := ordered_insert (order_key (info a) 0) t (ready a)))
      in a\<lparr>qs := q, locked := (locked a)(m := (locked a m)\<lparr>lk_state := 0\<rparr>)\<rparr>)"

section \<open>The abstraction relation\<close>

definition mem_ok :: "os \<Rightarrow> nat \<Rightarrow> bool" where
  "mem_ok s N \<longleftrightarrow> vm_pages (vmem s) N \<and> (memPtr (vmem s) + MEMORY_START) mod pgSize (vmem s) = 0"

text \<open>The flag \<open>z\<close> is that of \<open>queues\<close>.\<close>

definition absys :: "bool \<Rightarrow> os \<Rightarrow> ptr set \<Rightarrow> nat \<Rightarrow> asys \<Rightarrow> bool" where
  "absys z s L N a \<longleftrightarrow>
     queues z (qheap s) L (qs a) \<and> run s = rq a \<and> rq a \<in> L \<and> (\<forall>l\<in>L. 0 \<notin> set (qs a l)) \<and>
     mem_ok s N \<and> running s = current a \<and> current a \<noteq> 0 \<and>
     threads s = info a \<and> locks s = locked a \<and> nSchedulings s = turns a"

lemma virtualMemory_ok:
  assumes "mem_ok s N" "running s \<noteq> 0"
  shows "\<exists>v. virtualMemory s = retn (s\<lparr>vmem := v\<rparr>) \<and> mem_ok (s\<lparr>vmem := v\<rparr>) N \<and>
    (\<forall>i<N. pg (bytes v) (memPtr (vmem s)) i Reference = 0)"
proof -
  let ?v = "vmem s" and ?pid = "u32 (th_id (threads s (running s)))"
  have ok: "vm_pages ?v N" and al: "(memPtr ?v + MEMORY_START) mod pgSize ?v = 0"
    using assms(1) by (auto simp: mem_ok_def)
  obtain m1 where m1: "updateReference (bytes ?v) (memPtr ?v) = retn m1"
    "differ (bytes ?v) m1 (memPtr ?v) N {Reference}" "\<forall>i<N. pg m1 (memPtr ?v) i Reference = 0"
    using updateReference_pages [OF ok] by blast
  have ok1: "vm_pages (?v\<lparr>bytes := m1\<rparr>) N" using differ_pages_ok [OF ok m1(2)] by simp
  obtain k where k: "run_of_pages m1 (memPtr ?v) N ?pid k" using run_of_pages_ex by blast
  obtain m2 pr where m2: "memoryProtect (?v\<lparr>bytes := m1\<rparr>) ?pid = retn (?v\<lparr>bytes := m2, prot := pr\<rparr>, 0)"
    "differ m1 m2 (memPtr ?v) N {Swapclock}" "pages_ok m2 (memPtr ?v) (pgSize ?v) N"
    using protect_thread [OF ok1, of ?pid k True] al k by (auto simp: memoryProtect_def)
  have "pg m2 (memPtr ?v) i Reference = 0" if "i < N" for i
    using m1(3) m2(2) that by (simp add: differ_def)
  moreover have "mem_ok (s\<lparr>vmem := ?v\<lparr>bytes := m2, prot := pr\<rparr>\<rparr>) N"
    using m2(3) al by (simp add: mem_ok_def)
  moreover have "virtualMemory s = retn (s\<lparr>vmem := ?v\<lparr>bytes := m2, prot := pr\<rparr>\<rparr>)"
    using m1(1) m2(1) assms(2) by (simp add: virtualMemory_def VIRTUAL_MEMORY_def Let_def)
  ultimately show ?thesis by fastforce
qed

lemma set_running_simps [simp]:
  "qheap (set_running s t) = qheap s" "run (set_running s t) = run s" "running (set_running s t) = t"
  "threads (set_running s t) = threads s" "locks (set_running s t) = locks s"
  "nSchedulings (set_running s t) = nSchedulings s" "mem_ok (set_running s t) N = mem_ok s N"
  by (simp_all add: set_running_def mem_ok_def)

lemma set_ordered_insert [simp]: "set (ordered_insert key t xs) = insert t (set xs)"
  using arg_cong [OF ordered_insert_mset, of set_mset key t xs] by simp

lemma set_fold_ordered_insert [simp]: "set (fold (ordered_insert key) ts xs) = set ts \<union> set xs"
  using arg_cong [OF mset_fold_ordered_insert, of set_mset key ts xs] by simp

section \<open>Refinement\<close>

lemma absysD:
  assumes "absys z s L N a"
  shows "queues z (qheap s) L (qs a)" "run s = rq a" "rq a \<in> L" "l \<in> L \<Longrightarrow> 0 \<notin> set (qs a l)"
    "mem_ok s N" "running s = current a" "current a \<noteq> 0" "threads s = info a" "locks s = locked a"
    "nSchedulings s = turns a"
  using assms by (auto simp: absys_def)

lemma pop_run_refines:
  assumes "queues z (qheap s) L A" "run s \<in> L" "A (run s) = t # ts"
  shows "\<exists>h. pop_run s = retn (set_running (s\<lparr>qheap := h\<rparr>) t) \<and> queues z h L (A(run s := ts))"
proof -
  obtain h c where "pop (qheap s) (run s) = retn (h, c)" "cells_at h c = t" "queues z h L (A(run s := ts))"
    using queues_pop [OF assms] by blast
  then show ?thesis by (auto simp: pop_run_def)
qed

text \<open>
  The list object that \<open>orderByOldest\<close> would get from \<open>malloc\<close>, and whether the turn goes well: it does not reorder the queue,
  or that object reads as an empty list. What its \<open>head\<close> is does not matter if the run queue is not empty.
\<close>

definition new_list :: "os \<Rightarrow> LinkedList" where
  "new_list s = lists_at (qheap s) (lbrk (qheap s))"

definition reorders :: "os \<Rightarrow> bool" where
  "reorders s \<longleftrightarrow> (nSchedulings s + 1) mod 2 ^ 32 > 150"

definition turn_ok :: "os \<Rightarrow> bool" where
  "turn_ok s \<longleftrightarrow> (reorders s \<longrightarrow> ll_tail (new_list s) = 0 \<and>
     (ll_head (lists_at (qheap s) (run s)) \<noteq> 0 \<or> ll_head (new_list s) = 0))"

lemma turn_ok_zeroed: "absys True s L N a \<Longrightarrow> turn_ok s"
  using zeroed_new by (auto simp: turn_ok_def new_list_def absys_def)

lemma turn_ok_early: "absys z s L N a \<Longrightarrow> turns a + 1 \<le> 150 \<Longrightarrow> turn_ok s"
  by (simp add: turn_ok_def reorders_def absys_def)

lemma turn_ok_fields:
  "qheap s' = qheap s \<Longrightarrow> run s' = run s \<Longrightarrow> nSchedulings s' = nSchedulings s \<Longrightarrow> turn_ok s' = turn_ok s"
  by (simp add: turn_ok_def new_list_def reorders_def)

lemma count_turn_absys:
  assumes "absys z s L N a" "turn_ok s"
  shows "\<exists>s'. count_turn s = retn s' \<and> absys z s' L N (areorder a)"
proof -
  note d = absysD [OF assms(1)]
  show ?thesis
  proof (cases "(turns a + 1) mod 2 ^ 32 > 150")
    case True
    then have "ll_tail (lists_at (qheap s) (lbrk (qheap s))) = 0"
      "ready a \<noteq> [] \<or> ll_head (lists_at (qheap s) (lbrk (qheap s))) = 0"
      using assms(2) d(2,10) queues_head [OF d(1,3)] by (auto simp: turn_ok_def reorders_def new_list_def)
    then obtain h where h: "orderByOldest (info a) (qheap s) (rq a) = retn h"
      "queues z h L ((qs a)(rq a := fold (ordered_insert (order_key (info a) 1)) (ready a) []))"
      using orderByOldest_queues [OF d(1,3)] by blast
    then show ?thesis using d h by (auto simp: count_turn_def areorder_def absys_def mem_ok_def Let_def)
  next
    case False
    then show ?thesis using d by (auto simp: count_turn_def areorder_def absys_def mem_ok_def Let_def)
  qed
qed

lemma scheduler_after_turn:
  assumes "count_turn s = retn s2" "running s2 \<noteq> 0"
    and "s3 = set_thread s2 (running s2) ((threads s2 (running s2))
      \<lparr>th_priority := (th_priority (threads s2 (running s2)) + 1) mod 2 ^ 32\<rparr>)"
  shows "scheduler s = bindR (empty (qheap s3) (run s3)) (\<lambda>e.
      if \<not> e then bindR (virtualMemory s3) (\<lambda>s4. bindR (pop (qheap s4) (run s4)) (\<lambda>(h, nextThread).
          bindR (pushOrdered (threads s4) 0 h (run s4) (running s4)) (\<lambda>h'.
            retn (set_running (s4\<lparr>qheap := h'\<rparr>) (cells_at h' nextThread)))))
      else retn s3)"
  unfolding scheduler_def assms(1,3) bindR_retn Let_def using assms(2) by (rule if_not_P)

lemma scheduler_absys:
  assumes "absys z s L N a" "turn_ok s"
  shows "\<exists>s'. scheduler s = retn s' \<and> absys z s' L N (ascheduler a)"
proof -
  obtain s2 where s2: "count_turn s = retn s2" "absys z s2 L N (areorder a)"
    using count_turn_absys [OF assms] by blast
  define a3 where "a3 = (areorder a)\<lparr>info := bump (info (areorder a)) (current (areorder a))\<rparr>"
  define s3 where "s3 = set_thread s2 (running s2) ((threads s2 (running s2))
      \<lparr>th_priority := (th_priority (threads s2 (running s2)) + 1) mod 2 ^ 32\<rparr>)"
  have a3: "absys z s3 L N a3"
    using s2(2) by (simp add: absys_def s3_def a3_def bump_def mem_ok_def)
  note d = absysD [OF a3]
  have r2: "running s2 \<noteq> 0" using absysD(6,7) [OF s2(2)] by simp
  note run = scheduler_after_turn [OF s2(1) r2 s3_def]
  have e: "empty (qheap s3) (run s3) = retn (ready a3 = [])" using queues_empty [OF d(1,3)] d(2) by simp
  have goal: "ascheduler a = arotate a3" by (simp add: ascheduler_def a3_def Let_def)
  show ?thesis
  proof (cases "ready a3")
    case Nil
    then show ?thesis using run e a3 goal by (simp add: arotate_def)
  next
    case (Cons t ts)
    obtain v where v: "virtualMemory s3 = retn (s3\<lparr>vmem := v\<rparr>)" "mem_ok (s3\<lparr>vmem := v\<rparr>) N"
      using virtualMemory_ok [OF d(5)] d(6,7) by auto
    obtain h c where h: "pop (qheap s3) (run s3) = retn (h, c)" "cells_at h c = t"
      "queues z h L ((qs a3)(rq a3 := ts))" "c < lbrk h"
      using queues_pop_cell [OF d(1,3) Cons] d(2) by auto
    obtain h' where h': "pushOrdered (info a3) 0 h (rq a3) (current a3) = retn h'"
      "queues z h' L ((qs a3)(rq a3 := ordered_insert (order_key (info a3) 0) (current a3) ts))"
      "cells_at h' c = cells_at h c"
      using queues_pushOrdered_cell [OF h(3) d(3), of "info a3" 0 "current a3"] h(4) by auto
    have "t \<noteq> 0" "0 \<notin> set ts" using d(4) [OF d(3)] Cons by auto
    moreover have "mem_ok (set_running (s3\<lparr>vmem := v, qheap := h'\<rparr>) t) N"
      using v(2) by (simp add: set_running_def mem_ok_def)
    ultimately have "absys z (set_running (s3\<lparr>vmem := v, qheap := h'\<rparr>) t) L N (arotate a3)"
      using d h'(2) Cons by (auto simp: absys_def arotate_def)
    then show ?thesis using run e v(1) h h' d(2,6,8) goal Cons by simp
  qed
qed

text \<open>A turn that reorders the queue into a list with a \<open>tail\<close> and no \<open>head\<close>.\<close>

lemma scheduler_stale:
  assumes "absys z s L N a" "reorders s" "ready a \<noteq> []" "ll_tail (new_list s) \<noteq> 0" "ll_head (new_list s) = 0"
  shows "scheduler s = fail NullDeref"
proof -
  note d = absysD [OF assms(1)]
  have "orderByOldest (threads s) (qheap s) (run s) = fail NullDeref"
    using orderByOldest_null [OF d(1,3) assms(3)] assms(4,5) d(2) by (simp add: new_list_def)
  then show ?thesis using assms(2) by (simp add: scheduler_def count_turn_def reorders_def Let_def)
qed

lemma yield_absys:
  assumes "absys z s L N a" "turn_ok s"
  shows "\<exists>s'. my_pthread_yield s = retn s' \<and> absys z s' L N (ayield a)"
proof -
  note d = absysD [OF assms(1)]
  let ?p = "th_priority (info a (current a))"
  let ?a = "if ?p > 0 then a\<lparr>info := (info a)(current a := (info a (current a))\<lparr>th_priority := ?p - 1\<rparr>)\<rparr> else a"
  let ?s = "if ?p > 0 then set_thread s (current a) ((info a (current a))\<lparr>th_priority := ?p - 1\<rparr>) else s"
  have "absys z ?s L N ?a" using assms(1) d(8) by (auto simp: absys_def mem_ok_def)
  moreover have "turn_ok ?s" using assms(2) turn_ok_fields [of ?s s] by simp
  ultimately have "\<exists>s'. scheduler ?s = retn s' \<and> absys z s' L N (ascheduler ?a)" by (rule scheduler_absys)
  then show ?thesis
    using d(6-8) by (cases "?p > 0") (simp_all add: my_pthread_yield_def interrupt_def ayield_def Let_def)
qed

lemma dispatch_absys:
  assumes "absys z s L N a" "ready a \<noteq> []"
  shows "\<exists>s'. bindR (virtualMemory s) pop_run = retn s' \<and> absys z s' L N (adispatch a)"
proof -
  note d = absysD [OF assms(1)]
  obtain t ts where r: "ready a = t # ts" using assms(2) by (cases "ready a") auto
  obtain v where v: "virtualMemory s = retn (s\<lparr>vmem := v\<rparr>)" "mem_ok (s\<lparr>vmem := v\<rparr>) N"
    using virtualMemory_ok [OF d(5)] d(6,7) by auto
  obtain h where h: "pop_run (s\<lparr>vmem := v\<rparr>) = retn (set_running (s\<lparr>vmem := v, qheap := h\<rparr>) t)"
    "queues z h L ((qs a)(rq a := ts))"
    using pop_run_refines [of z "s\<lparr>vmem := v\<rparr>" L "qs a" t ts] d(1-3) r by auto
  have "t \<noteq> 0" "0 \<notin> set ts" using d(4) [OF d(3)] r by auto
  moreover have "mem_ok (set_running (s\<lparr>vmem := v, qheap := h\<rparr>) t) N"
    using v(2) by (simp add: set_running_def mem_ok_def)
  ultimately have "absys z (set_running (s\<lparr>vmem := v, qheap := h\<rparr>) t) L N (adispatch a)"
    using d h(2) r by (auto simp: absys_def adispatch_def)
  then show ?thesis using v(1) h(1) by simp
qed

lemma absys_tv_usec: "absys z (s\<lparr>tv_usec := k\<rparr>) L N a = absys z s L N a"
  by (simp add: absys_def mem_ok_def)

lemma awake_all_absys:
  assumes "absys z s L N a" "w \<in> L" "w \<noteq> rq a"
  shows "\<exists>h. drain (info a) 0 (qheap s) w (run s) = retn h \<and> absys z (s\<lparr>qheap := h\<rparr>) L N (awake_all a w)"
proof -
  note d = absysD [OF assms(1)]
  obtain h where h: "drain (info a) 0 (qheap s) w (rq a) = retn h"
    "queues z h L ((qs a)(w := [], rq a := fold (ordered_insert (order_key (info a) 0)) (qs a w) (ready a)))"
    using queues_drain [OF d(1) assms(2) d(3) assms(3)] by blast
  have "0 \<notin> set (qs a w)" "0 \<notin> set (ready a)" using d(4) assms(2) d(3) by auto
  then have "absys z (s\<lparr>qheap := h\<rparr>) L N (awake_all a w)"
    using d h(2) by (auto simp: absys_def awake_all_def mem_ok_def)
  then show ?thesis using h(1) d(2) by auto
qed

lemma threadExit_absys:
  assumes ab: "absys z s L N a" and w: "th_waitJoin (info a (current a)) \<in> L" "th_waitJoin (info a (current a)) \<noteq> rq a"
    and ne: "ready a \<noteq> [] \<or> qs a (th_waitJoin (info a (current a))) \<noteq> []"
  shows "\<exists>s'. threadExit s res slot = retn (s', True) \<and> absys z s' L N (aexit a res slot)"
proof -
  note d = absysD [OF ab]
  define x where "x = (let x = (info a (current a))\<lparr>th_finished := 1\<rparr> in if res \<noteq> 0 then x\<lparr>th_res := slot\<rparr> else x)"
  define a1 where "a1 = a\<lparr>info := (info a)(current a := x)\<rparr>"
  define s2 where "s2 = set_thread s (current a) x"
  have xw: "th_waitJoin x = th_waitJoin (info a (current a))" by (simp add: x_def Let_def)
  have "absys z s2 L N a1" using ab by (simp add: absys_def a1_def s2_def mem_ok_def)
  moreover have "th_waitJoin x \<in> L" "th_waitJoin x \<noteq> rq a1" using w by (simp_all add: xw a1_def)
  ultimately obtain h where h: "drain (info a1) 0 (qheap s2) (th_waitJoin x) (run s2) = retn h"
    "absys z (s2\<lparr>qheap := h\<rparr>) L N (awake_all a1 (th_waitJoin x))" using awake_all_absys by blast
  have r: "ready (awake_all a1 (th_waitJoin x)) \<noteq> []"
  proof -
    have "set (ready (awake_all a1 (th_waitJoin x))) \<noteq> {}"
      using ne by (auto simp: awake_all_def a1_def xw)
    then show ?thesis by (metis set_empty)
  qed
  have e: "empty h (run s2) = retn False"
    using queues_empty [OF absysD(1,3) [OF h(2)]] absysD(2) [OF h(2)] r by simp
  obtain s' where s': "bindR (virtualMemory (s2\<lparr>qheap := h\<rparr>)) pop_run = retn s'"
    "absys z s' L N (adispatch (awake_all a1 (th_waitJoin x)))" using dispatch_absys [OF h(2) r] by blast
  have s2': "s2 = (let s1 = set_thread s (running s) ((threads s (running s))\<lparr>th_finished := 1\<rparr>) in
      if res \<noteq> 0 then set_thread s1 (running s) ((threads s1 (running s))\<lparr>th_res := slot\<rparr>) else s1)"
    using d(6,8) by (auto simp: s2_def x_def Let_def)
  have "threadExit s res slot =
      bindR (drain (threads s2) 0 (qheap s2) (th_waitJoin (threads s2 (running s))) (run s2)) (\<lambda>h.
        bindR (empty h (run (s2\<lparr>qheap := h\<rparr>))) (\<lambda>e.
          if \<not> e then bindR (virtualMemory (s2\<lparr>qheap := h\<rparr>)) (\<lambda>s4.
            bindR (pop_run s4) (\<lambda>s5. retn (s5\<lparr>tv_usec := QUANTUM\<rparr>, True)))
          else retn (s2\<lparr>qheap := h\<rparr>, False)))"
    using d(6,7) unfolding threadExit_def s2' Let_def by simp
  moreover have "threads s2 = info a1" "threads s2 (running s) = x"
    using d(6,8) by (simp_all add: s2_def a1_def)
  ultimately have "threadExit s res slot =
      bindR (bindR (virtualMemory (s2\<lparr>qheap := h\<rparr>)) pop_run) (\<lambda>s5. retn (s5\<lparr>tv_usec := QUANTUM\<rparr>, True))"
    using h(1) e by (simp add: bindR_assoc)
  then have "threadExit s res slot = retn (s'\<lparr>tv_usec := QUANTUM\<rparr>, True)" using s'(1) by simp
  moreover have "adispatch (awake_all a1 (th_waitJoin x)) = aexit a res slot"
    by (simp add: aexit_def a1_def x_def Let_def)
  ultimately show ?thesis using s'(2) by (auto simp: absys_tv_usec)
qed

lemma join_absys:
  assumes ab: "absys z s L N a" and t: "t \<noteq> 0" "th_finished (info a t) = 0"
    and w: "th_waitJoin (info a t) \<in> L" "th_waitJoin (info a t) \<noteq> rq a" and ne: "ready a \<noteq> []"
  shows "\<exists>s'. my_pthread_join s t = retn (s', False) \<and> absys z s' L N (ajoin a t)"
proof -
  note d = absysD [OF ab]
  let ?w = "th_waitJoin (info a t)"
  let ?a = "a\<lparr>qs := (qs a)(?w := ordered_insert (order_key (info a) 0) (current a) (qs a ?w))\<rparr>"
  obtain h where h: "pushOrdered (info a) 0 (qheap s) ?w (current a) = retn h"
    "queues z h L (qs ?a)" using queues_pushOrdered [OF d(1) w(1), of "info a" 0 "current a"] by auto
  have ab1: "absys z (s\<lparr>qheap := h\<rparr>) L N ?a"
    using d h(2) w by (auto simp: absys_def mem_ok_def)
  have ne1: "ready ?a \<noteq> []" using ne w(2) by simp
  have e: "empty h (run s) = retn False"
    using queues_empty [OF absysD(1,3) [OF ab1]] absysD(2) [OF ab1] ne1 by simp
  obtain s' where s': "bindR (virtualMemory (s\<lparr>qheap := h\<rparr>)) pop_run = retn s'" "absys z s' L N (adispatch ?a)"
    using dispatch_absys [OF ab1 ne1] by blast
  have "my_pthread_join s t =
      bindR (bindR (virtualMemory (s\<lparr>qheap := h\<rparr>)) pop_run) (\<lambda>s3. retn (s3, False))"
    using t h(1) e d(6,8) by (simp add: my_pthread_join_def Let_def bindR_assoc)
  then show ?thesis using s' by (simp add: ajoin_def Let_def)
qed

lemma lock_wait_absys:
  assumes ab: "absys z s L N a" and m: "lk_state (locked a m) = 1"
    and w: "lk_wait (locked a m) \<in> L" "lk_wait (locked a m) \<noteq> rq a" and ne: "ready a \<noteq> []"
  shows "\<exists>s'. lock_wait s m = retn (s', True) \<and> absys z s' L N (alock_wait a m)"
proof -
  note d = absysD [OF ab]
  let ?w = "lk_wait (locked a m)"
  let ?a = "a\<lparr>qs := (qs a)(?w := qs a ?w @ [current a])\<rparr>"
  obtain v where v: "virtualMemory s = retn (s\<lparr>vmem := v\<rparr>)" "mem_ok (s\<lparr>vmem := v\<rparr>) N"
    using virtualMemory_ok [OF d(5)] d(6,7) by auto
  obtain h where h: "push (qheap s) ?w (current a) = retn h" "queues z h L (qs ?a)"
    using queues_push [OF d(1) w(1)] by auto
  let ?s = "s\<lparr>vmem := v, qheap := h, tv_usec := QUANTUM\<rparr>"
  obtain t ts where r: "ready a = t # ts" using ne by (cases "ready a") auto
  obtain h2 where h2: "pop_run ?s = retn (set_running (?s\<lparr>qheap := h2\<rparr>) t)"
    "queues z h2 L ((qs ?a)(rq a := ts))"
    using pop_run_refines [of z ?s L "qs ?a" t ts] h(2) d(2,3) r w(2) by auto
  have "lock_wait s m = retn (set_running (?s\<lparr>qheap := h2\<rparr>) t, True)"
    using m v(1) h(1) h2(1) d(6,9) by (simp add: lock_wait_def)
  moreover have "absys z (set_running (?s\<lparr>qheap := h2\<rparr>) t) L N (adispatch ?a)"
  proof -
    have "t \<noteq> 0" "0 \<notin> set ts" using d(4) [OF d(3)] r by auto
    moreover have "mem_ok (set_running (?s\<lparr>qheap := h2\<rparr>) t) N" using v(2) by (simp add: set_running_def mem_ok_def)
    ultimately show ?thesis using d h2(2) r w(2) by (auto simp: absys_def adispatch_def)
  qed
  ultimately show ?thesis by (auto simp: alock_wait_def Let_def)
qed

lemma unlock_absys:
  assumes ab: "absys z s L N a" and w: "lk_wait (locked a m) \<in> L" "lk_wait (locked a m) \<noteq> rq a"
  shows "\<exists>s'. my_pthread_mutex_unlock s m = retn s' \<and> absys z s' L N (aunlock a m)"
proof -
  note d = absysD [OF ab]
  let ?w = "lk_wait (locked a m)"
  have e: "empty (qheap s) ?w = retn (qs a ?w = [])" by (rule queues_empty [OF d(1) w(1)])
  show ?thesis
  proof (cases "qs a ?w")
    case Nil
    then show ?thesis using d e
      by (auto simp: my_pthread_mutex_unlock_def aunlock_def absys_def mem_ok_def Let_def)
  next
    case (Cons t ts)
    obtain h c where h: "pop (qheap s) ?w = retn (h, c)" "cells_at h c = t" "queues z h L ((qs a)(?w := ts))"
      using queues_pop [OF d(1) w(1) Cons] by blast
    obtain h' where h': "pushOrdered (info a) 0 h (rq a) t = retn h'"
      "queues z h' L ((qs a)(?w := ts, rq a := ordered_insert (order_key (info a) 0) t (ready a)))"
      using queues_pushOrdered [OF h(3) d(3), of "info a" 0 t] w(2) by auto
    have "0 \<notin> set (t # ts)" using d(4) [OF w(1)] Cons by simp
    then have "absys z (set_lock (s\<lparr>qheap := h'\<rparr>) m ((locks s m)\<lparr>lk_state := 0\<rparr>)) L N (aunlock a m)"
      using d h'(2) Cons by (auto simp: absys_def aunlock_def mem_ok_def Let_def)
    then show ?thesis using e h h' d(2,8,9) Cons by (auto simp: my_pthread_mutex_unlock_def)
  qed
qed

end
