(* ===== verification/Thread_Props.thy ===== *)
theory Thread_Props
  imports Thread_Spec
begin

text \<open>
  Properties of the thread library: no call loses or duplicates a thread, a ready thread
  gets its turn, and what the ordered insertion does to the run queue.
\<close>

section \<open>Threads are conserved\<close>

text \<open>All threads the library knows of: the running one and those in some queue.\<close>

definition placed :: "ptr set \<Rightarrow> asys \<Rightarrow> tid multiset" where
  "placed L a = {#current a#} + (\<Sum>l\<in>L. mset (qs a l))"

lemma sum_mset_upd:
  assumes "finite L" "l \<in> L"
  shows "(\<Sum>k\<in>L. mset ((f(l := xs)) k)) + mset (f l) = (\<Sum>k\<in>L. mset (f k)) + mset xs"
proof -
  have "(\<Sum>k\<in>L. mset ((f(l := xs)) k)) = mset xs + (\<Sum>k\<in>L - {l}. mset (f k))"
    using assms by (simp add: sum.remove)
  moreover have "(\<Sum>k\<in>L. mset (f k)) = mset (f l) + (\<Sum>k\<in>L - {l}. mset (f k))"
    using assms by (rule sum.remove)
  ultimately show ?thesis by simp
qed

lemma placed_adispatch:
  assumes "finite L" "rq a \<in> L"
  shows "placed L (adispatch a) + (if ready a = [] then {#} else {#current a#}) = placed L a"
proof (cases "ready a")
  case (Cons t ts)
  have "(\<Sum>k\<in>L. mset (((qs a)(rq a := ts)) k)) + {#t#} = (\<Sum>k\<in>L. mset (qs a k))"
    using sum_mset_upd [OF assms, of "qs a" ts] Cons by simp
  then show ?thesis using Cons by (simp add: placed_def adispatch_def)
qed (simp add: adispatch_def)

lemma placed_enqueue:
  assumes "finite L" "l \<in> L" "mset xs = add_mset t (mset (qs a l))"
  shows "placed L (a\<lparr>qs := (qs a)(l := xs)\<rparr>) = add_mset t (placed L a)"
  using sum_mset_upd [OF assms(1,2), of "qs a" xs] assms(3) by (simp add: placed_def)

lemma placed_cong:
  "qs a = qs b \<Longrightarrow> current a = current b \<Longrightarrow> placed L a = placed L b"
  by (simp add: placed_def)

lemma placed_areorder: "finite L \<Longrightarrow> rq a \<in> L \<Longrightarrow> placed L (areorder a) = placed L a"
  using sum_mset_upd [of L "rq a" "qs a" "fold (ordered_insert (order_key (info a) 1)) (ready a) []"]
  by (simp add: placed_def areorder_def Let_def mset_fold_ordered_insert)

lemma placed_arotate:
  assumes "finite L" "rq a \<in> L"
  shows "placed L (arotate a) = placed L a"
proof (cases "ready a")
  case (Cons t ts)
  have "(\<Sum>k\<in>L. mset (((qs a)(rq a := ordered_insert (order_key (info a) 0) (current a) ts)) k)) + {#t#} =
      (\<Sum>k\<in>L. mset (qs a k)) + {#current a#}"
    using sum_mset_upd [OF assms, of "qs a" "ordered_insert (order_key (info a) 0) (current a) ts"] Cons
    by (simp add: ordered_insert_mset)
  then show ?thesis using Cons by (simp add: placed_def arotate_def)
qed (simp add: arotate_def)

lemma placed_ascheduler:
  assumes "finite L" "rq a \<in> L"
  shows "placed L (ascheduler a) = placed L a"
proof -
  let ?a = "(areorder a)\<lparr>info := bump (info (areorder a)) (current (areorder a))\<rparr>"
  have "rq ?a \<in> L" using assms(2) by (simp add: areorder_def Let_def)
  then have "placed L (ascheduler a) = placed L ?a"
    using placed_arotate [OF assms(1), of ?a] by (simp add: ascheduler_def Let_def)
  also have "\<dots> = placed L (areorder a)" by (rule placed_cong) simp_all
  finally show ?thesis using placed_areorder [OF assms] by simp
qed

lemma placed_ayield: "finite L \<Longrightarrow> rq a \<in> L \<Longrightarrow> placed L (ayield a) = placed L a"
  by (auto simp: ayield_def Let_def placed_ascheduler intro: placed_cong)

lemma placed_awake_all:
  assumes "finite L" "rq a \<in> L" "w \<in> L" "w \<noteq> rq a"
  shows "placed L (awake_all a w) = placed L a"
proof -
  let ?xs = "fold (ordered_insert (order_key (info a) 0)) (qs a w) (ready a)"
  have "(\<Sum>k\<in>L. mset (((qs a)(w := [], rq a := ?xs)) k)) + mset (ready a) =
      (\<Sum>k\<in>L. mset (((qs a)(w := [])) k)) + (mset (qs a w) + mset (ready a))"
    using sum_mset_upd [OF assms(1,2), of "(qs a)(w := [])" ?xs] assms(4)
    by (simp add: mset_fold_ordered_insert)
  moreover have "(\<Sum>k\<in>L. mset (((qs a)(w := [])) k)) + mset (qs a w) = (\<Sum>k\<in>L. mset (qs a k))"
    using sum_mset_upd [OF assms(1,3), of "qs a" "[]"] by simp
  ultimately have "(\<Sum>k\<in>L. mset (((qs a)(w := [], rq a := ?xs)) k)) = (\<Sum>k\<in>L. mset (qs a k))"
    by (metis (no_types, lifting) add.assoc add_right_imp_eq)
  then show ?thesis by (simp add: placed_def awake_all_def)
qed

lemma placed_aunlock:
  assumes "finite L" "rq a \<in> L" "lk_wait (locked a m) \<in> L" "lk_wait (locked a m) \<noteq> rq a"
  shows "placed L (aunlock a m) = placed L a"
proof (cases "qs a (lk_wait (locked a m))")
  case Nil
  then show ?thesis by (simp add: placed_def aunlock_def Let_def)
next
  case (Cons t ts)
  let ?w = "lk_wait (locked a m)"
  let ?xs = "ordered_insert (order_key (info a) 0) t (ready a)"
  have "(\<Sum>k\<in>L. mset (((qs a)(?w := ts, rq a := ?xs)) k)) + mset (ready a) =
      (\<Sum>k\<in>L. mset (((qs a)(?w := ts)) k)) + ({#t#} + mset (ready a))"
    using sum_mset_upd [OF assms(1,2), of "(qs a)(?w := ts)" ?xs] assms(4)
    by (simp add: ordered_insert_mset)
  moreover have "(\<Sum>k\<in>L. mset (((qs a)(?w := ts)) k)) + {#t#} = (\<Sum>k\<in>L. mset (qs a k))"
    using sum_mset_upd [OF assms(1,3), of "qs a" ts] Cons by simp
  ultimately have "(\<Sum>k\<in>L. mset (((qs a)(?w := ts, rq a := ?xs)) k)) = (\<Sum>k\<in>L. mset (qs a k))"
    by (metis (no_types, lifting) add.assoc add_right_imp_eq)
  then show ?thesis using Cons by (simp add: placed_def aunlock_def Let_def)
qed

lemma placed_aexit:
  assumes "finite L" "rq a \<in> L" "th_waitJoin (info a (current a)) \<in> L" "th_waitJoin (info a (current a)) \<noteq> rq a"
    and ne: "ready a \<noteq> [] \<or> qs a (th_waitJoin (info a (current a))) \<noteq> []"
  shows "add_mset (current a) (placed L (aexit a res slot)) = placed L a"
proof -
  define x where "x = (let x = (info a (current a))\<lparr>th_finished := 1\<rparr> in if res \<noteq> 0 then x\<lparr>th_res := slot\<rparr> else x)"
  define a1 where "a1 = a\<lparr>info := (info a)(current a := x)\<rparr>"
  let ?b = "awake_all a1 (th_waitJoin x)"
  have xw: "th_waitJoin x = th_waitJoin (info a (current a))" by (simp add: x_def Let_def)
  have "set (ready ?b) \<noteq> {}" using ne by (auto simp: awake_all_def a1_def xw)
  then have "ready ?b \<noteq> []" by (metis set_empty)
  then have "placed L (adispatch ?b) + {#current ?b#} = placed L ?b"
    using placed_adispatch [OF assms(1), of ?b] assms(2) by (simp add: awake_all_def a1_def)
  moreover have "placed L ?b = placed L a1"
    by (rule placed_awake_all) (use assms(1-4) in \<open>simp_all add: xw a1_def\<close>)
  moreover have "placed L a1 = placed L a" "current ?b = current a"
    by (simp_all add: a1_def placed_def awake_all_def)
  moreover have "adispatch ?b = aexit a res slot" by (simp add: aexit_def a1_def x_def Let_def)
  ultimately show ?thesis by simp
qed

lemma placed_wait:
  assumes "finite L" "rq a \<in> L" "w \<in> L" "w \<noteq> rq a" "ready a \<noteq> []"
    and xs: "mset xs = add_mset (current a) (mset (qs a w))"
  shows "placed L (adispatch (a\<lparr>qs := (qs a)(w := xs)\<rparr>)) = placed L a"
proof -
  let ?b = "a\<lparr>qs := (qs a)(w := xs)\<rparr>"
  have "placed L (adispatch ?b) + {#current a#} = placed L ?b"
    using placed_adispatch [OF assms(1), of ?b] assms(2,4,5) by simp
  then show ?thesis using placed_enqueue [OF assms(1,3) xs] by simp
qed

lemma placed_ajoin:
  assumes "finite L" "rq a \<in> L" "th_waitJoin (info a t) \<in> L" "th_waitJoin (info a t) \<noteq> rq a" "ready a \<noteq> []"
  shows "placed L (ajoin a t) = placed L a"
  using placed_wait [OF assms, of "ordered_insert (order_key (info a) 0) (current a) (qs a (th_waitJoin (info a t)))"]
  by (simp add: ajoin_def Let_def ordered_insert_mset)

lemma placed_alock_wait:
  assumes "finite L" "rq a \<in> L" "lk_wait (locked a m) \<in> L" "lk_wait (locked a m) \<noteq> rq a" "ready a \<noteq> []"
  shows "placed L (alock_wait a m) = placed L a"
  using placed_wait [OF assms, of "qs a (lk_wait (locked a m)) @ [current a]"]
  by (simp add: alock_wait_def Let_def)

text \<open>
  The calls of the library as steps of the whole system, with all their outcomes but two. The second component collects the
  threads that have exited. A queue that a call waits on is one of the queues \<open>L\<close> and not the run queue. Left out are turns of the
  scheduler that reorder the run queue into a list object with old content, and joins that find the run queue empty.
\<close>

inductive lib_step :: "ptr set \<Rightarrow> os \<times> tid multiset \<Rightarrow> os \<times> tid multiset \<Rightarrow> bool"
  for L where
  Tick: "\<lbrakk>turn_ok s; scheduler s = retn s'\<rbrakk> \<Longrightarrow> lib_step L (s, F) (s', F)"
| Yield: "\<lbrakk>turn_ok s; my_pthread_yield s = retn s'\<rbrakk> \<Longrightarrow> lib_step L (s, F) (s', F)"
| Exit: "\<lbrakk>th_waitJoin (threads s (running s)) \<in> L - {run s}; threadExit s res slot = retn (s', b)\<rbrakk>
    \<Longrightarrow> lib_step L (s, F) (s', if b then add_mset (running s) F else F)"
| Join: "\<lbrakk>th_waitJoin (threads s t) \<in> L - {run s}; empty (qheap s) (run s) = retn False \<or> th_finished (threads s t) \<noteq> 0;
     my_pthread_join s t = retn (s', b)\<rbrakk> \<Longrightarrow> lib_step L (s, F) (s', F)"
| Lock: "\<lbrakk>lk_wait (locks s m) \<in> L - {run s}; lock_wait s m = retn (s', b)\<rbrakk> \<Longrightarrow> lib_step L (s, F) (s', F)"
| Tas: "lib_step L (s, F) (tas_write s m, F)"
| Unlock: "\<lbrakk>lk_wait (locks s m) \<in> L - {run s}; my_pthread_mutex_unlock s m = retn s'\<rbrakk>
    \<Longrightarrow> lib_step L (s, F) (s', F)"

text \<open>The calls of a step switch to another thread only if there is one.\<close>

text \<open>
  A join that finds the run queue empty: the caller is put into the queue of the thread it joins, three objects of the library
  are freed, and the caller goes on running. It is then in two places.
\<close>

theorem join_alone:
  assumes ab: "absys z s L N a" and t: "t \<noteq> 0" "th_finished (info a t) = 0" "w = th_waitJoin (info a t)" "w \<in> L" "w \<noteq> rq a"
    and none: "ready a = []" and ptr: "run s > 56" "mainThread s > 56" "obj_running (objects s) > 56"
  shows "\<exists>s' A. my_pthread_join s t = retn (s', True) \<and> running s' = running s \<and>
    queues z (qheap s') L A \<and> A w = ordered_insert (order_key (info a) 0) (running s) (qs a w) \<and> A (rq a) = []"
proof -
  note d = absysD [OF ab]
  let ?A = "(qs a)(w := ordered_insert (order_key (info a) 0) (current a) (qs a w))"
  obtain h where h: "pushOrdered (info a) 0 (qheap s) w (current a) = retn h" "queues z h L ?A"
    using queues_pushOrdered [OF d(1) t(4), of "info a" 0 "current a"] by blast
  have e: "empty h (run s) = retn True" using queues_empty [OF h(2) d(3)] d(2) t(5) none by simp
  have "\<exists>v'. mydeallocate v p OSREQ = retn v'" if "p > 56" for v p
    using that by (auto simp: mydeallocate_def removeSpace_def Let_def)
  then obtain v1 v2 v3 where "mydeallocate (vmem s) (run s) OSREQ = retn v1" "mydeallocate v1 (mainThread s) OSREQ = retn v2"
    "mydeallocate v2 (obj_running (objects s)) OSREQ = retn v3" using ptr by metis
  then have "my_pthread_join s t = retn (s\<lparr>qheap := h, vmem := v3\<rparr>, True)"
    using t(1-3) h(1) e d(6,8) by (simp add: my_pthread_join_def Let_def)
  then show ?thesis using h(2) d(6) t(5) none
    by (intro exI [of _ "s\<lparr>qheap := h, vmem := v3\<rparr>"] exI [of _ ?A]) simp
qed

lemma lock_wait_stuck:
  assumes ab: "absys z s L N a" and w: "lk_wait (locked a m) \<in> L" "lk_wait (locked a m) \<noteq> rq a"
    and m: "lk_state (locked a m) = 1" and none: "ready a = []"
  shows "lock_wait s m = fail NullDeref"
proof -
  note d = absysD [OF ab]
  obtain v where v: "virtualMemory s = retn (s\<lparr>vmem := v\<rparr>)"
    using virtualMemory_ok [OF d(5)] d(6,7) by auto
  obtain h where h: "push (qheap s) (lk_wait (locked a m)) (current a) = retn h"
    "queues z h L ((qs a)(lk_wait (locked a m) := qs a (lk_wait (locked a m)) @ [current a]))"
    using queues_push [OF d(1) w(1)] by blast
  have "pop h (run s) = fail NullDeref" using queues_pop_empty [OF h(2) d(3)] d(2) w(2) none by simp
  then show ?thesis using m v h(1) d(6,9) by (simp add: lock_wait_def pop_run_def)
qed

lemma lock_wait_switches:
  assumes ab: "absys z s L N a" and w: "lk_wait (locked a m) \<in> L" "lk_wait (locked a m) \<noteq> rq a"
    and run: "lock_wait s m = retn (s', b)"
  shows "if b then lk_state (locked a m) = 1 \<and> ready a \<noteq> [] else s' = s"
proof (cases "lk_state (locked a m) = 1 \<and> ready a = []")
  case True
  then show ?thesis using lock_wait_stuck [OF ab w] run by simp
next
  case False
  then show ?thesis using run absysD(9) [OF ab] by (auto simp: lock_wait_def bindR_eq_retn split: if_splits)
qed

lemma threadExit_alone:
  assumes ab: "absys z s L N a" and w: "th_waitJoin (info a (current a)) \<in> L"
    and none: "ready a = []" "qs a (th_waitJoin (info a (current a))) = []"
  shows "\<exists>x. threadExit s res slot = retn (set_thread s (current a) x, False)"
proof -
  note d = absysD [OF ab]
  have "drain th 0 (qheap s) (th_waitJoin (info a (current a))) (run s) = retn (qheap s)" for th
    using queues_empty [OF d(1) w] none(2) by (subst drain.simps) simp
  moreover have "empty (qheap s) (run s) = retn True" using queues_empty [OF d(1,3)] d(2) none(1) by simp
  ultimately show ?thesis using d(6-8) by (auto simp: threadExit_def Let_def)
qed

lemma lib_step_conserves:
  assumes "lib_step L (s, F) (s', F')" "absys z s L N a" "finite L"
  shows "\<exists>a'. absys z s' L N a' \<and> placed L a' + F' = placed L a + F"
proof -
  note d = absysD [OF assms(2)]
  from assms(1) show ?thesis
  proof cases
    case Tick
    then show ?thesis using scheduler_absys [OF assms(2) Tick(2)] placed_ascheduler [OF assms(3) d(3)] by auto
  next
    case Yield
    then show ?thesis using yield_absys [OF assms(2) Yield(2)] placed_ayield [OF assms(3) d(3)] by auto
  next
    case (Exit res slot b)
    let ?w = "th_waitJoin (info a (current a))"
    have w: "?w \<in> L" "?w \<noteq> rq a" using Exit(2) d(2,6,8) by auto
    show ?thesis
    proof (cases "ready a \<noteq> [] \<or> qs a ?w \<noteq> []")
      case True
      obtain s2 where "threadExit s res slot = retn (s2, True)" "absys z s2 L N (aexit a res slot)"
        using threadExit_absys [OF assms(2) w True] by blast
      moreover have "add_mset (current a) (placed L (aexit a res slot)) = placed L a"
        by (rule placed_aexit [OF assms(3) d(3) w True])
      ultimately show ?thesis using Exit d(6) by (auto intro!: exI [of _ "aexit a res slot"])
    next
      case False
      then obtain x where x: "threadExit s res slot = retn (set_thread s (current a) x, False)"
        using threadExit_alone [OF assms(2) w(1)] by blast
      have "absys z (set_thread s (current a) x) L N (a\<lparr>info := (info a)(current a := x)\<rparr>)"
        using assms(2) by (simp add: absys_def mem_ok_def)
      then show ?thesis using x Exit by (auto simp: placed_def)
    qed
  next
    case (Join t b)
    have w: "th_waitJoin (info a t) \<in> L" "th_waitJoin (info a t) \<noteq> rq a" using Join(2) d(2,8) by auto
    show ?thesis
    proof (cases "th_finished (info a t) = 0")
      case True
      have "t \<noteq> 0" using Join(4) by (cases "t = 0") (simp_all add: my_pthread_join_def)
      moreover have "ready a \<noteq> []" using Join(3) True queues_empty [OF d(1,3)] d(2,8) by simp
      ultimately show ?thesis
        using join_absys [OF assms(2) _ True w] Join placed_ajoin [OF assms(3) d(3) w] by auto
    next
      case False
      then have "s' = s" using Join(4) d(8) by (auto simp: my_pthread_join_def split: if_splits)
      then show ?thesis using assms(2) Join by auto
    qed
  next
    case (Lock m b)
    have w: "lk_wait (locked a m) \<in> L" "lk_wait (locked a m) \<noteq> rq a" using Lock(2) d(2,9) by auto
    note sw = lock_wait_switches [OF assms(2) w Lock(3)]
    show ?thesis
    proof (cases b)
      case True
      then have "lk_state (locked a m) = 1" "ready a \<noteq> []" using sw by auto
      then show ?thesis
        using lock_wait_absys [OF assms(2) _ w] Lock placed_alock_wait [OF assms(3) d(3) w] True by auto
    next
      case False
      then show ?thesis using sw Lock assms(2) by auto
    qed
  next
    case (Tas m)
    have "absys z s' L N (a\<lparr>locked := (locked a)(m := (locked a m)\<lparr>lk_state := 1\<rparr>)\<rparr>)"
      using assms(2) Tas by (simp add: absys_def tas_write_def mem_ok_def)
    then show ?thesis using Tas by (auto simp: placed_def)
  next
    case (Unlock m)
    have w: "lk_wait (locked a m) \<in> L" "lk_wait (locked a m) \<noteq> rq a" using Unlock(2) d(2,9) by auto
    then show ?thesis using unlock_absys [OF assms(2) w] Unlock placed_aunlock [OF assms(3) d(3) w] by auto
  qed
qed

lemma lib_steps_conserve:
  assumes "(lib_step L)\<^sup>*\<^sup>* (s, F) (s', F')" "absys z s L N a" "finite L"
  shows "\<exists>a'. absys z s' L N a' \<and> placed L a' + F' = placed L a + F"
  using assms(1)
proof (induction "(s', F')" arbitrary: s' F' rule: rtranclp_induct)
  case base
  then show ?case using assms(2) by auto
next
  case (step p)
  then obtain s1 F1 where p: "p = (s1, F1)" by (cases p)
  with step obtain a1 where "absys z s1 L N a1" "placed L a1 + F1 = placed L a + F" by blast
  then show ?case using lib_step_conserves [of L s1 F1 s' F' z N a1] step(2) p assms(3) by auto
qed

section \<open>A ready thread gets its turn\<close>

lemma takeWhile_stops:
  "\<not> (\<forall>y\<in>set (zs @ [t]). P y) \<Longrightarrow> length (takeWhile P (zs @ t # ys)) \<le> length zs"
  by (induction zs) auto

lemma set_take_drop: "insert c (set (take k xs) \<union> set (drop k xs)) = insert c (set xs)"
  by (metis append_take_drop_id set_append)

lemma ordered_insert_take:
  fixes key :: "'a \<Rightarrow> int"
  defines "k x c ws \<equiv> if key x \<le> key c then Suc (length (takeWhile (\<lambda>y. key y \<le> key c) ws)) else 1"
  shows "ordered_insert key c (x # ws) = take (k x c ws) (x # ws) @ c # drop (k x c ws) (x # ws)"
  by (simp add: k_def takeWhile_eq_take [symmetric] dropWhile_eq_drop [symmetric])

lemma ordered_insert_split:
  "\<exists>xs' ys'. ordered_insert key c (xs @ t # ys) = xs' @ t # ys' \<and>
     (xs' = xs \<or> set xs' = insert c (set xs) \<and> length xs' = Suc (length xs) \<and>
        \<not> (\<forall>x\<in>set (xs @ [t]). key x \<le> key c))"
proof (cases xs)
  case Nil
  show ?thesis
    by (rule exI [of _ "[]"]) (use Nil in auto)
next
  case (Cons x zs)
  show ?thesis
  proof (cases "\<forall>y\<in>set (xs @ [t]). key y \<le> key c")
    case True
    let ?P = "\<lambda>y. key y \<le> key c"
    have "takeWhile ?P (zs @ t # ys) = zs @ t # takeWhile ?P ys"
      "dropWhile ?P (zs @ t # ys) = dropWhile ?P ys"
      using True Cons by (simp_all add: takeWhile_append dropWhile_append)
    then show ?thesis using True Cons
      by (intro exI [of _ xs] exI [of _ "takeWhile ?P ys @ c # dropWhile ?P ys"]) simp
  next
    case False
    define k where "k = (if key x \<le> key c then Suc (length (takeWhile (\<lambda>y. key y \<le> key c) (zs @ t # ys))) else 1)"
    have ins: "ordered_insert key c (xs @ t # ys) = take k (xs @ t # ys) @ c # drop k (xs @ t # ys)"
      unfolding Cons append_Cons k_def by (rule ordered_insert_take)
    have kx: "k \<le> length xs"
    proof (cases "key x \<le> key c")
      case True
      then have "\<not> (\<forall>y\<in>set (zs @ [t]). key y \<le> key c)" using False Cons by auto
      then have "length (takeWhile (\<lambda>y. key y \<le> key c) (zs @ t # ys)) \<le> length zs"
        by (rule takeWhile_stops)
      then show ?thesis using True Cons by (simp add: k_def)
    qed (use Cons in \<open>simp add: k_def\<close>)
    have "take k (xs @ t # ys) = take k xs" "drop k (xs @ t # ys) = drop k xs @ t # ys" using kx by simp_all
    then have "ordered_insert key c (xs @ t # ys) = (take k xs @ c # drop k xs) @ t # ys" using ins by simp
    moreover have "set (take k xs @ c # drop k xs) = insert c (set xs)"
      using set_take_drop by simp
    moreover have "length (take k xs @ c # drop k xs) = Suc (length xs)" using kx by simp
    ultimately show ?thesis using False by blast
  qed
qed

text \<open>The turns still to be given away before \<open>t\<close>, with \<open>xs\<close> the threads ahead of it.\<close>

definition credit :: "asys \<Rightarrow> nat \<Rightarrow> tid set \<Rightarrow> nat" where
  "credit a K U = (\<Sum>u\<in>U. K - th_priority (info a u))"

lemma credit_bump:
  assumes "finite U" "c \<in> U" "th_priority (info a c) + 1 < 2 ^ 31"
  shows "credit (a\<lparr>info := bump (info a) c\<rparr>) K U + (if th_priority (info a c) < K then 1 else 0) = credit a K U"
proof -
  let ?p = "\<lambda>u. th_priority (info a u)"
  have "credit (a\<lparr>info := bump (info a) c\<rparr>) K U = (K - (?p c + 1)) + (\<Sum>u\<in>U - {c}. K - ?p u)"
    using assms by (simp add: credit_def bump_def sum.remove)
  moreover have "credit a K U = (K - ?p c) + (\<Sum>u\<in>U - {c}. K - ?p u)"
    using assms by (simp add: credit_def sum.remove)
  ultimately show ?thesis by auto
qed

lemma key_small: "th_priority (th u) < 2 ^ 31 \<Longrightarrow> order_key th 0 u = int (th_priority (th u))"
  by (simp add: order_key_def getPriority_def s32_small)

lemma ascheduler_cons:
  assumes "ready a = h # zs" "turns a < 150"
  shows "ascheduler a = a\<lparr>turns := turns a + 1, info := bump (info a) (current a), qs := (qs a)(rq a :=
    ordered_insert (order_key (bump (info a) (current a)) 0) (current a) zs), current := h\<rparr>"
  using assms by (simp add: ascheduler_def areorder_def arotate_def Let_def)

text \<open>One turn: either \<open>t\<close> runs, or what is ahead of it becomes less.\<close>

lemma ascheduler_progress:
  assumes r: "ready a = xs @ t # ys" and U: "U = insert (current a) (set (ready a))"
    and K: "\<forall>u\<in>set (xs @ [t]). th_priority (info a u) \<le> K"
    and small: "\<forall>u\<in>U. th_priority (info a u) + 1 < 2 ^ 31" and c: "current a \<notin> set (ready a)"
    and turns: "turns a < 150"
  shows "if xs = [] then current (ascheduler a) = t
    else \<exists>xs' ys'. ready (ascheduler a) = xs' @ t # ys' \<and>
      insert (current (ascheduler a)) (set (ready (ascheduler a))) = U \<and>
      current (ascheduler a) \<in> set xs \<and>
      (\<forall>u\<in>set (xs' @ [t]). th_priority (info (ascheduler a) u) \<le> K) \<and>
      length xs' + credit (ascheduler a) K U < length xs + credit a K U"
proof (cases xs)
  case Nil
  then show ?thesis using ascheduler_cons [of a t ys] r turns by simp
next
  case (Cons h zs)
  let ?c = "current a" and ?th = "bump (info a) (current a)"
  let ?key = "order_key ?th 0"
  obtain xs' ys' where split: "ordered_insert ?key ?c (zs @ t # ys) = xs' @ t # ys'"
    "xs' = zs \<or> set xs' = insert ?c (set zs) \<and> length xs' = Suc (length zs) \<and> \<not> (\<forall>x\<in>set (zs @ [t]). ?key x \<le> ?key ?c)"
    using ordered_insert_split [of ?key ?c zs t ys] by (elim exE conjE)
  have sched: "ascheduler a = a\<lparr>turns := turns a + 1, info := ?th,
      qs := (qs a)(rq a := xs' @ t # ys'), current := h\<rparr>"
    using ascheduler_cons [of a h "zs @ t # ys"] r Cons turns split(1) by simp
  have th: "?th u = (if u = ?c then (info a ?c)\<lparr>th_priority := th_priority (info a ?c) + 1\<rparr> else info a u)"
    if "u \<in> U" for u using small U by (auto simp: bump_def)
  have cr: "credit (ascheduler a) K U + (if th_priority (info a ?c) < K then 1 else 0) = credit a K U"
    using credit_bump [of U ?c a K] U small by (simp add: sched credit_def)
  have key: "?key u = int (th_priority (?th u))" if "u \<in> U" for u
    by (rule key_small) (use small th [OF that] that in auto)
  have inU: "set (zs @ [t]) \<subseteq> U" "?c \<in> U" using U r Cons by auto
  have old: "th_priority (?th u) \<le> K" if "u \<in> set (zs @ [t])" for u
  proof -
    have "u \<noteq> ?c" using that c r Cons by auto
    then show ?thesis using K that Cons by (auto simp: bump_def)
  qed
  have blocked: "th_priority (?th ?c) < K" if nb: "\<not> (\<forall>x\<in>set (zs @ [t]). ?key x \<le> ?key ?c)"
  proof -
    obtain x where x: "x \<in> set (zs @ [t])" "?key ?c < ?key x" using nb by (auto simp: not_le)
    then show ?thesis using old [OF x(1)] key [of x] key [of ?c] inU by auto
  qed
  have set': "set (xs' @ t # ys') = insert ?c (set (zs @ t # ys))"
    using arg_cong [OF split(1), of set] by simp
  have "insert h (set (xs' @ t # ys')) = U" using set' U r Cons by auto
  moreover have "\<forall>u\<in>set (xs' @ [t]). th_priority (?th u) \<le> K"
  proof (cases "xs' = zs")
    case True
    then show ?thesis using old by blast
  next
    case False
    then have "set xs' = insert ?c (set zs)" "th_priority (?th ?c) < K" using split(2) blocked by blast+
    then show ?thesis using old by auto
  qed
  moreover have "length xs' + credit (ascheduler a) K U < length xs + credit a K U"
  proof (cases "xs' = zs")
    case True
    then show ?thesis using cr Cons by simp
  next
    case False
    then have "th_priority (?th ?c) < K" using blocked split(2) by blast
    then have "th_priority (info a ?c) < K" using th [OF inU(2)] by simp
    then show ?thesis using cr split(2) False Cons by auto
  qed
  moreover have "ready (ascheduler a) = xs' @ t # ys'" "current (ascheduler a) = h"
    "info (ascheduler a) = ?th" by (simp_all add: sched)
  ultimately have "\<exists>xs' ys'. ready (ascheduler a) = xs' @ t # ys' \<and>
      insert (current (ascheduler a)) (set (ready (ascheduler a))) = U \<and>
      current (ascheduler a) \<in> set xs \<and>
      (\<forall>u\<in>set (xs' @ [t]). th_priority (info (ascheduler a) u) \<le> K) \<and>
      length xs' + credit (ascheduler a) K U < length xs + credit a K U"
    using Cons by (intro exI [of _ xs'] exI [of _ ys']) (simp only: list.set_intros simp_thms)
  then show ?thesis using Cons by simp
qed

lemma ascheduler_eventually:
  assumes "ready a = xs @ t # ys" "U = insert (current a) (set (ready a))"
    and "\<forall>u\<in>set (xs @ [t]). th_priority (info a u) \<le> K"
    and "\<forall>u\<in>U. th_priority (info a u) + n < 2 ^ 31" "distinct (current a # ready a)"
    and "length xs + credit a K U < n" "turns a + n \<le> 150"
  shows "\<exists>k\<le>n. current ((ascheduler ^^ k) a) = t"
  using assms
proof (induction n arbitrary: a xs ys)
  case 0
  then show ?case by simp
next
  case (Suc n)
  have c: "current a \<notin> set (ready a)" and tu: "turns a < 150" using Suc.prems(5,7) by auto
  have small: "\<forall>u\<in>U. th_priority (info a u) + 1 < 2 ^ 31" using Suc.prems(4) by fastforce
  note prog = ascheduler_progress [OF Suc.prems(1-3) small c tu]
  show ?case
  proof (cases "xs = []")
    case True
    then show ?thesis using prog by (intro exI [of _ 1]) simp
  next
    case False
    let ?a = "ascheduler a"
    obtain xs' ys' where p: "ready ?a = xs' @ t # ys'" "U = insert (current ?a) (set (ready ?a))"
      "\<forall>u\<in>set (xs' @ [t]). th_priority (info ?a u) \<le> K"
      "length xs' + credit ?a K U < length xs + credit a K U"
      using prog False by auto
    obtain h zs where "ready a = h # zs" using Suc.prems(1) False by (cases xs) auto
    note sched = ascheduler_cons [OF this tu]
    have "\<forall>u\<in>U. th_priority (info ?a u) \<le> th_priority (info a u) + 1"
      using small by (auto simp: sched bump_def)
    then have "\<forall>u\<in>U. th_priority (info ?a u) + n < 2 ^ 31"
      using Suc.prems(4) by fastforce
    moreover have "mset (current ?a # ready ?a) = mset (current a # ready a)"
      using \<open>ready a = h # zs\<close> by (simp add: sched ordered_insert_mset)
    then have "distinct (current ?a # ready ?a)" using Suc.prems(5) mset_eq_imp_distinct_iff by blast
    moreover have "turns ?a + n \<le> 150" using Suc.prems(7) by (simp add: sched)
    ultimately obtain k where "k \<le> n" "current ((ascheduler ^^ k) ?a) = t"
      using Suc.IH [OF p(1-3)] p(4) Suc.prems(6) by auto
    then show ?thesis by (intro exI [of _ "Suc k"]) (simp add: funpow_swap1)
  qed
qed

end
