(* ===== verification/Thread_Theorems.thy ===== *)
theory Thread_Theorems
  imports Thread_Props
begin

text \<open>
  What the thread library guarantees, stated over my_pthread.c and LinkedList.c: refinement of
  the scheduler, conservation of threads, progress of ready threads, isolation at a switch,
  and what the ordered insertion does and does not sort.
\<close>

section \<open>Every abstract state is that of some program state\<close>

definition start_heap :: "ptr set \<Rightarrow> heap" where
  "start_heap L = \<lparr>nodes_at = (\<lambda>_. \<lparr>nd_thread = 0, nd_next = 0, nd_prev = 0\<rparr>), cells_at = (\<lambda>_. 0),
     lists_at = (\<lambda>_. \<lparr>ll_tail = 0, ll_head = 0, ll_nitems = 0\<rparr>), lbrk = Suc (Max (insert 0 L))\<rparr>"

lemma start_heap_queues:
  assumes "finite L" "0 \<notin> L"
  shows "queues True (start_heap L) L (\<lambda>_. [])"
proof -
  have "l < Suc (Max (insert 0 L))" if "l \<in> L" for l using assms(1) that by (simp add: less_Suc_eq_le)
  moreover have "lrep (start_heap L) l [] []" if "l \<in> L" for l
    using assms(2) that by (cases "l = 0") (auto simp: lrep_def start_heap_def)
  ultimately show ?thesis
    by (auto simp: queues_def zeroed_def start_heap_def intro!: exI [of _ "\<lambda>_. []"])
qed

lemma queues_fill:
  assumes "queues z h L A" "l \<in> L"
  shows "\<exists>h'. queues z h' L (A(l := A l @ ts))"
proof (induction ts rule: rev_induct)
  case Nil
  then show ?case using assms(1) by auto
next
  case (snoc t ts)
  then obtain h' where "queues z h' L (A(l := A l @ ts))" by blast
  from queues_push [OF this assms(2), of t] show ?case by (auto simp only: fun_upd_upd fun_upd_same append_assoc)
qed

lemma queues_ex:
  assumes "finite L" "0 \<notin> L"
  shows "\<exists>h. queues True h L A"
proof -
  have "\<exists>h. queues True h L (\<lambda>l. if l \<in> M then A l else [])" if "M \<subseteq> L" for M
    using finite_subset [OF that assms(1)] that
  proof (induction M rule: finite_induct)
    case empty
    then show ?case using start_heap_queues [OF assms] by auto
  next
    case (insert l M)
    then obtain h where h: "queues True h L (\<lambda>l. if l \<in> M then A l else [])" by blast
    have "(\<lambda>l. if l \<in> M then A l else [])(l := [] @ A l) = (\<lambda>k. if k \<in> insert l M then A k else [])"
      by (rule ext) simp
    then show ?case using queues_fill [OF h, of l "A l"] insert by auto
  qed
  from this [of L] obtain h where "queues True h L (\<lambda>l. if l \<in> L then A l else [])" by blast
  then have "queues True h L A" unfolding queues_def by simp
  then show ?thesis by blast
qed

text \<open>A program state for an abstract one, with four free pages and no memory allocated.\<close>

lemma absys_ex:
  assumes "finite L" "0 \<notin> L" "rq a \<in> L" "\<forall>l\<in>L. 0 \<notin> set (qs a l)" "current a \<noteq> 0"
  shows "\<exists>s. absys True s L 4 a \<and> vmem s = example_vm four_pages"
proof -
  obtain h where h: "queues True h L (qs a)" using queues_ex [OF assms(1,2)] by blast
  have "mem_ok s 4" if "vmem s = example_vm four_pages" for s
    using four_pages(1) that by (simp add: mem_ok_def example_vm_def)
  then have "absys True \<lparr>vmem = example_vm four_pages, qheap = h, threads = info a, locks = locked a, run = rq a,
      running = current a, mainThread = 1, nextId = 2, nSchedulings = turns a, tv_usec = 0, objects = ob\<rparr> L 4 a" for ob
    using h assms(3-5) by (simp add: absys_def)
  then show ?thesis by (metis os.select_convs(1))
qed

text \<open>Three threads: 1 runs, 2 and 3 are ready; the mutex at 8 is free.\<close>

definition thread_of :: "nat \<Rightarrow> ptr \<Rightarrow> sthread" where
  "thread_of p w = \<lparr>th_id = 7, th_priority = p, th_born = 0, th_function = 0, th_arg = 0, th_res = 0,
     th_finished = 0, th_waitJoin = w\<rparr>"

definition three_threads :: asys where
  "three_threads = \<lparr>qs = (\<lambda>l. if l = 10 then [2, 3] else []), rq = 10, current = 1,
     info = (\<lambda>_. thread_of 0 11), locked = (\<lambda>_. \<lparr>lk_state = 0, lk_wait = 12\<rparr>), turns = 0\<rparr>"

lemma three_threads_ex:
  "\<exists>s. absys True s {10, 11, 12} 4 three_threads \<and> vmem s = example_vm four_pages"
  by (rule absys_ex) (auto simp: three_threads_def)

section \<open>Ordered insertion\<close>

text \<open>
  C28. \<open>pushOrdered\<close> on a sorted queue that is not empty: it always returns, the queue holds the old
  threads and the new one, the other queues are as they were, and the first thread stays
  first. The queue is sorted afterwards exactly when the new thread does not come before the
  first one, since the code cannot insert in front of the head.
\<close>

theorem pushOrdered_sorted_iff:
  assumes "queues z h L A" "l \<in> L" "A l = x # xs" "sorted (map (order_key th order) (x # xs))"
  shows "\<exists>h' ys. pushOrdered th order h l t = retn h' \<and> queues z h' L (A(l := ys)) \<and>
    mset ys = mset (t # x # xs) \<and> hd ys = x \<and>
    (sorted (map (order_key th order) ys) \<longleftrightarrow> order_key th order x \<le> order_key th order t)"
proof -
  let ?key = "order_key th order" and ?ys = "ordered_insert (order_key th order) t (x # xs)"
  obtain h' where "pushOrdered th order h l t = retn h'" "queues z h' L (A(l := ?ys))"
    using queues_pushOrdered [OF assms(1,2), of th order t] assms(3) by auto
  moreover have "sorted (map ?key ?ys) \<longleftrightarrow> ?key x \<le> ?key t"
    using ordered_insert_sorted [of ?key "x # xs" t] assms(4) by auto
  moreover have "mset ?ys = mset (t # x # xs)" "hd ?ys = x"
    using ordered_insert_mset [of ?key t "x # xs"] hd_ordered_insert [of "x # xs" ?key t] by simp_all
  ultimately show ?thesis by blast
qed

theorem pushOrdered_sorted_iff_witness:
  "\<exists>h h' ys th. pushOrdered th 0 h 10 3 = retn h' \<and> queues True h' {10} ((\<lambda>_. [2])(10 := ys)) \<and>
    mset ys = {#2, 3#} \<and> hd ys = 2 \<and> \<not> sorted (map (order_key th 0) ys)"
proof -
  obtain h where h: "queues True h {10} (\<lambda>_. [2])" using queues_ex [of "{10}"] by auto
  define th where "th = (\<lambda>t::tid. thread_of (if t = 2 then 1 else 0) 11)"
  have k: "order_key th 0 2 = 1" "order_key th 0 3 = 0"
    by (simp_all add: order_key_def getPriority_def th_def thread_of_def s32_def Let_def)
  obtain h' ys where "pushOrdered th 0 h 10 3 = retn h'" "queues True h' {10} ((\<lambda>_. [2])(10 := ys))"
    "mset ys = {#2, 3#}" "hd ys = 2" "\<not> sorted (map (order_key th 0) ys)"
    using pushOrdered_sorted_iff [OF h, of 10 2 "[]" th 0 3] k by auto
  then show ?thesis by blast
qed

lemma sorted_hd_le: "sorted (map key ys) \<Longrightarrow> y \<in> set ys \<Longrightarrow> (key (hd ys) :: int) \<le> key y"
  by (cases ys) auto

lemma fold_ordered_insert_sorted:
  fixes key :: "'a \<Rightarrow> int"
  assumes "sorted (map key xs)" "xs \<noteq> []" "\<forall>t\<in>set ts. key (hd xs) \<le> key t"
  shows "sorted (map key (fold (ordered_insert key) ts xs))"
  using assms by (induction ts arbitrary: xs) (simp_all add: ordered_insert_sorted hd_ordered_insert)

text \<open>
  C29. \<open>orderByOldest\<close> on a queue that is not empty. It moves the threads into a list object that it mallocs and does not
  initialise, so what it does depends on what that object reads as. If its \<open>tail\<close> reads as 0, the call returns, the queue has the
  same threads with the same one in front, and it is sorted by creation time exactly when the thread in front was the oldest
  already. If only its \<open>head\<close> reads as 0, the call dereferences \<open>NULL\<close>. If it reads as a list of threads \<open>u # us\<close>, because it was
  one before, these are in the queue afterwards, and \<open>u\<close> is the first.
\<close>

theorem orderByOldest_sorts_iff:
  assumes q: "queues z h L A" "l \<in> L" "A l = x # xs" and new: "new = lists_at h (lbrk h)"
  shows "(ll_tail new = 0 \<longrightarrow> (\<exists>h' ys. orderByOldest th h l = retn h' \<and> queues z h' L (A(l := ys)) \<and>
      mset ys = mset (x # xs) \<and> hd ys = x \<and>
      (sorted (map (getTimeCreated th) ys) \<longleftrightarrow> (\<forall>y\<in>set xs. getTimeCreated th x \<le> getTimeCreated th y)))) \<and>
    (ll_tail new \<noteq> 0 \<and> ll_head new = 0 \<longrightarrow> orderByOldest th h l = fail NullDeref) \<and>
    (queues z (h\<lparr>lbrk := lbrk h + 1\<rparr>) (insert (lbrk h) L) (A(lbrk h := u # us)) \<longrightarrow>
      (\<exists>h' ys. orderByOldest th h l = retn h' \<and> queues z h' L (A(l := ys)) \<and>
        mset ys = mset (x # xs) + mset (u # us) \<and> hd ys = u))"
proof (intro conjI impI)
  let ?key = "getTimeCreated th"
  have key: "order_key th 1 = ?key" by (simp add: order_key_def)
  show "\<exists>h' ys. orderByOldest th h l = retn h' \<and> queues z h' L (A(l := ys)) \<and> mset ys = mset (x # xs) \<and> hd ys = x \<and>
      (sorted (map ?key ys) \<longleftrightarrow> (\<forall>y\<in>set xs. ?key x \<le> ?key y))" if t: "ll_tail new = 0"
  proof -
    define ys where "ys = fold (ordered_insert ?key) xs [x]"
    obtain h' where h': "orderByOldest th h l = retn h'" "queues z h' L (A(l := ys))"
      using orderByOldest_queues [OF q(1,2), of th] t new q(3) by (auto simp: key ys_def)
    have ms: "mset ys = mset (x # xs)" by (simp add: ys_def mset_fold_ordered_insert)
    have hd: "hd ys = x" by (simp add: ys_def hd_fold_ordered_insert)
    have "set ys = insert x (set xs)" using arg_cong [OF ms, of set_mset] by simp
    then have "\<forall>y\<in>set xs. ?key x \<le> ?key y" if "sorted (map ?key ys)"
      using sorted_hd_le [OF that] hd by auto
    moreover have "sorted (map ?key ys)" if "\<forall>y\<in>set xs. ?key x \<le> ?key y"
      unfolding ys_def by (rule fold_ordered_insert_sorted) (use that in auto)
    ultimately show ?thesis using h' ms hd by (intro exI [of _ h'] exI [of _ ys]) blast
  qed
  show "orderByOldest th h l = fail NullDeref" if "ll_tail new \<noteq> 0 \<and> ll_head new = 0"
    using orderByOldest_null [OF q(1,2), of th] q(3) that new by simp
  show "\<exists>h' ys. orderByOldest th h l = retn h' \<and> queues z h' L (A(l := ys)) \<and> mset ys = mset (x # xs) + mset (u # us) \<and> hd ys = u"
    if s: "queues z (h\<lparr>lbrk := lbrk h + 1\<rparr>) (insert (lbrk h) L) (A(lbrk h := u # us))"
  proof -
    have "lbrk h \<notin> L" using q(1) by (auto simp: queues_def)
    from orderByOldest_merges [OF s this q(2), of th] show ?thesis
      using q(3) mset_fold_ordered_insert [of ?key "x # xs" "u # us"] hd_fold_ordered_insert [of "u # us" ?key "x # xs"]
      by (auto simp: key)
  qed
qed

text \<open>A queue of two threads, the second of which is older, and three contents of the next list object.\<close>

lemma queues_reads:
  assumes "queues z h L A"
  shows "queues False (set_list h (lbrk h) x) L A"
proof -
  obtain N where N: "0 < lbrk h" "\<forall>l\<in>L. l < lbrk h" "\<forall>l\<in>L. lrep h l (N l) (A l)"
    "\<forall>l\<in>L. \<forall>k\<in>L. l \<noteq> k \<longrightarrow> set (N l) \<inter> set (N k) = {}" using assms by (auto simp: queues_def)
  have "lrep (set_list h (lbrk h) x) l (N l) (A l)" if "l \<in> L" for l
    by (rule lrep_cong [where h = h]) (use N(2,3) that in auto)
  then show ?thesis using N unfolding queues_def by (intro conjI exI [of _ N]) auto
qed

lemma stale_list_ex:
  "\<exists>h. queues False h {10} (\<lambda>_. [2, 3]) \<and>
     queues False (h\<lparr>lbrk := lbrk h + 1\<rparr>) (insert (lbrk h) {10}) ((\<lambda>_. [2, 3])(lbrk h := [9]))"
proof -
  obtain h where h: "queues True h {10} (\<lambda>_. [2, 3])" using queues_ex [of "{10}"] by auto
  obtain N where N: "0 < lbrk h" "10 < lbrk h" "lrep h 10 N [2, 3]" using h by (auto simp: queues_def)
  obtain h1 n where new: "newNode h 9 = (h1, n)" by (cases "newNode h 9")
  note h1 = newNode_lrep [OF N(3) new]
  define k where "k = lbrk h1"
  define g where "g = set_list h1 k ((lists_at h1 k)\<lparr>ll_nitems := 1, ll_head := n, ll_tail := n\<rparr>)"
  have k: "10 < k" "n < k" "0 < n" "lbrk g = k" using N h1(3,4) by (simp_all add: k_def g_def)
  have g: "lrep g 10 N [2, 3]" by (rule lrep_cong [OF h1(1)]) (use k in \<open>simp_all add: g_def k_def\<close>)
  then have "queues False g {10} (\<lambda>_. [2, 3])" using k by (auto simp: queues_def)
  moreover have "lrep g k [n] [9]"
    using lrep_singleton [of k n h1 "lists_at h1 k"] k h1(4-7) by (simp add: g_def k_def)
  then have "lrep (g\<lparr>lbrk := k + 1\<rparr>) k [n] [9]" "lrep (g\<lparr>lbrk := k + 1\<rparr>) 10 N [2, 3]"
    by (rule lrep_cong, simp_all add: k)+ (rule lrep_cong [OF g], simp_all add: k)
  then have "queues False (g\<lparr>lbrk := k + 1\<rparr>) (insert k {10}) ((\<lambda>_. [2, 3])(k := [9]))"
    unfolding queues_def using k h1(2) by (intro conjI exI [of _ "(\<lambda>_. N)(k := [n])"]) auto
  ultimately show ?thesis using k(4) by (intro exI [of _ g]) simp
qed

theorem orderByOldest_sorts_iff_witness:
  "\<exists>h h' ys th. orderByOldest th h 10 = retn h' \<and> queues True h' {10} ((\<lambda>_. [2, 3])(10 := ys)) \<and>
     hd ys = 2 \<and> \<not> sorted (map (getTimeCreated th) ys) \<and>
     orderByOldest th (set_list h (lbrk h) \<lparr>ll_tail = 5, ll_head = 0, ll_nitems = 0\<rparr>) 10 = fail NullDeref \<and>
     (\<exists>g g' zs. orderByOldest th g 10 = retn g' \<and> queues False g' {10} ((\<lambda>_. [2, 3])(10 := zs)) \<and> mset zs = {#2, 3, 9#} \<and> hd zs = 9)"
proof -
  obtain h where h: "queues True h {10} (\<lambda>_. [2, 3])" using queues_ex [of "{10}"] by auto
  define th where "th = (\<lambda>t::tid. (thread_of 0 11)\<lparr>th_born := if t = 2 then 1 else 0\<rparr>)"
  note iff = orderByOldest_sorts_iff [where l = 10 and x = 2 and xs = "[3]" and th = th and u = 9 and us = "[]"]
  have "getTimeCreated th 2 = 1" "getTimeCreated th 3 = 0" by (simp_all add: getTimeCreated_def th_def)
  then obtain h' ys where "orderByOldest th h 10 = retn h'" "queues True h' {10} ((\<lambda>_. [2, 3])(10 := ys))"
    "hd ys = 2" "\<not> sorted (map (getTimeCreated th) ys)"
    using iff [OF h _ _ refl] zeroed_new [OF h] by auto
  moreover have "orderByOldest th (set_list h (lbrk h) \<lparr>ll_tail = 5, ll_head = 0, ll_nitems = 0\<rparr>) 10 = fail NullDeref"
    using iff [OF queues_reads [OF h] _ _ refl] by simp
  moreover obtain g where g: "queues False g {10} (\<lambda>_. [2, 3])"
    "queues False (g\<lparr>lbrk := lbrk g + 1\<rparr>) (insert (lbrk g) {10}) ((\<lambda>_. [2, 3])(lbrk g := [9]))"
    using stale_list_ex by blast
  then obtain g' zs where "orderByOldest th g 10 = retn g'" "queues False g' {10} ((\<lambda>_. [2, 3])(10 := zs))"
    "mset zs = mset [2, 3] + mset [9]" "hd zs = 9" using iff [OF g(1) _ _ refl] by blast
  moreover have "mset [2, 3] + mset [9] = {#2, 3, 9 :: tid#}" by simp
  ultimately show ?thesis by metis
qed

section \<open>The scheduler\<close>

text \<open>
  C1. The scheduler refines its abstract version on every turn that does not reorder the run queue by age, whether the queue is
  empty or not: it returns, and the queues, the running thread, the thread objects and the counter afterwards are what
  \<open>ascheduler\<close> computes. A turn that reorders does the same if the list object that \<open>orderByOldest\<close> mallocs and does not initialise
  has a \<open>tail\<close> of 0, and also a \<open>head\<close> of 0 when the run queue is empty. If it has a \<open>tail\<close> and no \<open>head\<close> and a thread is ready, the
  scheduler dereferences \<open>NULL\<close>.
\<close>

theorem scheduler_refines:
  assumes "absys z s L N a" "new = lists_at (qheap s) (lbrk (qheap s))"
  shows "((nSchedulings s + 1) mod 2 ^ 32 \<le> 150 \<or> ll_tail new = 0 \<and> (ready a \<noteq> [] \<or> ll_head new = 0) \<longrightarrow>
      (\<exists>s'. scheduler s = retn s' \<and> absys z s' L N (ascheduler a))) \<and>
    ((nSchedulings s + 1) mod 2 ^ 32 > 150 \<and> ready a \<noteq> [] \<and> ll_tail new \<noteq> 0 \<and> ll_head new = 0 \<longrightarrow>
      scheduler s = fail NullDeref)"
proof (intro conjI impI)
  show "\<exists>s'. scheduler s = retn s' \<and> absys z s' L N (ascheduler a)"
    if "(nSchedulings s + 1) mod 2 ^ 32 \<le> 150 \<or> ll_tail new = 0 \<and> (ready a \<noteq> [] \<or> ll_head new = 0)"
  proof (rule scheduler_absys [OF assms(1)])
    have "ll_head (lists_at (qheap s) (run s)) \<noteq> 0 \<longleftrightarrow> ready a \<noteq> []"
      using queues_head [OF absysD(1,3) [OF assms(1)]] absysD(2) [OF assms(1)] by simp
    then show "turn_ok s" using that assms(2) by (auto simp: turn_ok_def reorders_def new_list_def)
  qed
  show "scheduler s = fail NullDeref"
    if "(nSchedulings s + 1) mod 2 ^ 32 > 150 \<and> ready a \<noteq> [] \<and> ll_tail new \<noteq> 0 \<and> ll_head new = 0"
    using scheduler_stale [OF assms(1)] that assms(2) by (simp add: reorders_def new_list_def)
qed

theorem scheduler_refines_witness:
  "(\<exists>s s'. scheduler s = retn s' \<and> running s = 1 \<and> running s' = 2 \<and> nSchedulings s' = 1 \<and>
     absys True s' {10, 11, 12} 4 (ascheduler three_threads)) \<and>
   (\<exists>s. running s = 1 \<and> nSchedulings s = 150 \<and> scheduler s = fail NullDeref)"
proof
  obtain s where s: "absys True s {10, 11, 12} 4 three_threads" using three_threads_ex by blast
  have "current (ascheduler three_threads) = 2" "turns (ascheduler three_threads) = 1"
    by (simp_all add: ascheduler_def areorder_def arotate_def three_threads_def)
  moreover have "running s = 1" "nSchedulings s = 0" using absysD(6,10) [OF s] by (simp_all add: three_threads_def)
  moreover from this obtain s' where "scheduler s = retn s'" "absys True s' {10, 11, 12} 4 (ascheduler three_threads)"
    using scheduler_refines [OF s refl] by auto
  ultimately show "\<exists>s s'. scheduler s = retn s' \<and> running s = 1 \<and> running s' = 2 \<and> nSchedulings s' = 1 \<and>
     absys True s' {10, 11, 12} 4 (ascheduler three_threads)" using absysD(6,10) by metis
  define x where "x = \<lparr>ll_tail = 5, ll_head = 0, ll_nitems = 0\<rparr>"
  define r where "r = s\<lparr>qheap := set_list (qheap s) (lbrk (qheap s)) x, nSchedulings := 150\<rparr>"
  have "absys False r {10, 11, 12} 4 (three_threads\<lparr>turns := 150\<rparr>)"
    using s queues_reads [of True "qheap s" "{10, 11, 12}" "qs three_threads" x] by (simp add: absys_def mem_ok_def r_def)
  moreover have "lists_at (qheap r) (lbrk (qheap r)) = x" "nSchedulings r = 150" "running r = 1"
    using absysD(6) [OF s] by (simp_all add: r_def three_threads_def)
  ultimately have "running r = 1 \<and> nSchedulings r = 150 \<and> scheduler r = fail NullDeref"
    using scheduler_refines [of False r _ _ _ x] by (auto simp: x_def three_threads_def)
  then show "\<exists>s. running s = 1 \<and> nSchedulings s = 150 \<and> scheduler s = fail NullDeref" by blast
qed

lemma virtualMemory_prot:
  assumes ok: "mem_ok s N" and r: "running s \<noteq> 0"
    and k: "run_of_pages (bytes (vmem s)) (memPtr (vmem s)) N (u32 (th_id (threads s (running s)))) k"
  shows "\<exists>m. virtualMemory s = retn (s\<lparr>vmem := (vmem s)\<lparr>bytes := m,
    prot := (\<lambda>x. covers (bytes (vmem s)) (memPtr (vmem s)) (pgSize (vmem s)) N
      (u32 (th_id (threads s (running s)))) 1 (int k) x \<or> prot (vmem s) x)\<rparr>\<rparr>)"
proof -
  let ?v = "vmem s" and ?pid = "u32 (th_id (threads s (running s)))"
  obtain m1 where m1: "updateReference (bytes ?v) (memPtr ?v) = retn m1"
    "differ (bytes ?v) m1 (memPtr ?v) N {Reference}"
    using updateReference_pages [of "bytes ?v" "memPtr ?v" "pgSize ?v" N] ok by (auto simp: mem_ok_def)
  have ok1: "vm_pages (?v\<lparr>bytes := m1\<rparr>) N" using differ_pages_ok [OF _ m1(2)] ok by (simp add: mem_ok_def)
  have at: "page_at m1 (memPtr ?v) N ?pid j = page_at (bytes ?v) (memPtr ?v) N ?pid j" for j
    by (rule page_at_cong) (use m1(2) in \<open>simp add: differ_def owns_def\<close>)
  have k1: "run_of_pages m1 (memPtr ?v) N ?pid k" using k by (simp add: run_of_pages_def at)
  have c: "covers m1 (memPtr ?v) (pgSize ?v) N ?pid 1 (int k) = covers (bytes ?v) (memPtr ?v) (pgSize ?v) N ?pid 1 (int k)"
    by (rule ext) (simp add: covers_def at)
  have u: "(\<lambda>x. if C x then True else P x) = (\<lambda>x. C x \<or> P x)" for C P :: "addr \<Rightarrow> bool" by auto
  show ?thesis
    using protect_thread [OF ok1, of ?pid k True] ok k1 m1(1) r
    by (auto simp: memoryProtect_def mem_ok_def virtualMemory_def VIRTUAL_MEMORY_def Let_def c u)
qed

lemma count_turn_vmem: "count_turn s = retn s' \<Longrightarrow> vmem s' = vmem s \<and> threads s' = threads s \<and> running s' = running s"
  by (auto simp: count_turn_def Let_def bindR_eq_retn split: if_splits)

text \<open>
  C23. A thread that loses the processor loses its memory: when the scheduler switches away from a
  thread that has pages 1 to \<open>k\<close> in memory, afterwards every address in the frames of those
  pages is protected. No protection that was there is lifted: the pages of the thread that gets the processor stay as they
  were, and its first access to a protected one runs the fault handler. The turn must not reorder the queue by age, or find
  an empty list in the memory it gets for that.
\<close>

theorem scheduler_isolates:
  assumes ab: "absys z s L N a" "turn_ok s" and ne: "ready a \<noteq> []"
    and k: "run_of_pages (bytes (vmem s)) (memPtr (vmem s)) N (u32 (th_id (threads s (running s)))) k"
  shows "\<exists>s'. scheduler s = retn s' \<and> running s' = hd (ready (areorder a)) \<and>
    prot (vmem s') = (\<lambda>x. covers (bytes (vmem s)) (memPtr (vmem s)) (pgSize (vmem s)) N
      (u32 (th_id (threads s (running s)))) 1 (int k) x \<or> prot (vmem s) x)"
proof -
  obtain s2 where s2: "count_turn s = retn s2" "absys z s2 L N (areorder a)"
    using count_turn_absys [OF ab] by blast
  define s3 where "s3 = set_thread s2 (running s2) ((threads s2 (running s2))
      \<lparr>th_priority := (th_priority (threads s2 (running s2)) + 1) mod 2 ^ 32\<rparr>)"
  note d2 = absysD [OF s2(2)] and v = count_turn_vmem [OF s2(1)]
  have "mem_ok s3 N" "running s3 \<noteq> 0" "vmem s3 = vmem s" "running s3 = running s"
    "th_id (threads s3 (running s3)) = th_id (threads s (running s))"
    using d2(5-7) v by (simp_all add: s3_def mem_ok_def)
  with virtualMemory_prot [of s3 N k] k obtain m where
    m: "virtualMemory s3 = retn (s3\<lparr>vmem := (vmem s)\<lparr>bytes := m,
      prot := (\<lambda>x. covers (bytes (vmem s)) (memPtr (vmem s)) (pgSize (vmem s)) N
        (u32 (th_id (threads s (running s)))) 1 (int k) x \<or> prot (vmem s) x)\<rparr>\<rparr>)" by auto
  obtain s' where s': "scheduler s = retn s'" "absys z s' L N (ascheduler a)"
    using scheduler_absys [OF ab] by blast
  have "set (ready (areorder a)) = set (ready a)" by (simp add: areorder_def Let_def)
  then have ne2: "ready (areorder a) \<noteq> []" using ne by (metis set_empty)
  then have e: "empty (qheap s3) (run s3) = retn False"
    using queues_empty [OF d2(1,3)] d2(2) by (simp add: s3_def)
  have "running s' = hd (ready (areorder a))"
    using absysD(6) [OF s'(2)] ne2 by (auto simp: ascheduler_def arotate_def Let_def split: list.split)
  moreover have "scheduler s = bindR (virtualMemory s3) (\<lambda>s4.
      bindR (pop (qheap s4) (run s4)) (\<lambda>(h, nextThread).
      bindR (pushOrdered (threads s4) 0 h (run s4) (running s4)) (\<lambda>h'.
        retn (set_running (s4\<lparr>qheap := h'\<rparr>) (cells_at h' nextThread)))))"
    using scheduler_after_turn [OF s2(1) _ s3_def] d2(6,7) e by simp
  then have "prot (vmem s') = prot ((vmem s)\<lparr>bytes := m,
      prot := (\<lambda>x. covers (bytes (vmem s)) (memPtr (vmem s)) (pgSize (vmem s)) N
        (u32 (th_id (threads s (running s)))) 1 (int k) x \<or> prot (vmem s) x)\<rparr>)"
    unfolding s'(1) m by (auto simp: bindR_eq_retn set_running_def dest!: sym [of "retn s'"])
  ultimately show ?thesis using s'(1) by simp
qed

theorem scheduler_isolates_witness:
  "\<exists>s s'. scheduler s = retn s' \<and> running s' = 2 \<and>
     prot (vmem s') = (\<lambda>x. 2105344 \<le> x \<and> x < 2109440)"
proof -
  define m where "m = put four_pages Pid (node 4096 1) 7"
  obtain s0 where s0: "absys True s0 {10, 11, 12} 4 three_threads" using three_threads_ex by blast
  define s where "s = s0\<lparr>vmem := example_vm m\<rparr>"
  have ok: "pages_ok m 4096 4096 4"
    unfolding m_def by (rule pages_ok_put [OF four_pages(1)]) simp_all
  have ab: "absys True s {10, 11, 12} 4 three_threads"
    using s0 ok by (simp add: absys_def mem_ok_def s_def example_vm_def)
  have own: "owns m 4096 7 order i \<longleftrightarrow> i = 1 \<and> order = 1" if "i < 4" for order i
    using four_pages(2) [OF that] by (auto simp: owns_def m_def pg_put s32_def Let_def)
  have at: "page_at m 4096 4 7 order = (if order = 1 then Some 1 else None)" for order
    by (auto simp: page_at_def find_upt_Some find_upt_None own)
  have run: "run_of_pages m 4096 4 7 1" by (simp add: run_of_pages_def at)
  have cov: "covers m 4096 4096 4 7 1 1 x \<longleftrightarrow> 2105344 \<le> x \<and> x < 2109440" for x
    by (auto simp: covers_def at frame_def split: if_splits)
  have id: "u32 (th_id (threads s (running s))) = 7"
    using absysD(8) [OF ab] by (simp add: three_threads_def thread_of_def u32_def)
  have "hd (ready (areorder three_threads)) = 2" by (simp add: areorder_def three_threads_def)
  moreover have "prot (vmem s) = (\<lambda>_. False)" "bytes (vmem s) = m" "memPtr (vmem s) = 4096" "pgSize (vmem s) = 4096"
    "ready three_threads \<noteq> []" by (simp_all add: s_def example_vm_def three_threads_def)
  ultimately have "\<exists>s'. scheduler s = retn s' \<and> running s' = 2 \<and> prot (vmem s') = (\<lambda>x. covers m 4096 4096 4 7 1 1 x \<or> False)"
    using scheduler_isolates [OF ab turn_ok_zeroed [OF ab], of 1] run id by simp
  then show ?thesis unfolding cov by auto
qed

section \<open>No thread is lost\<close>

text \<open>
  C16. No thread is lost or run twice: after any sequence of timer ticks and calls to yield, exit,
  join, lock and unlock, the running thread, the threads in all the queues and the threads
  that have exited together are the same collection as before, each as often as before. Not in the sequence are a join of an
  unfinished thread when the run queue is empty, after which the caller would be running and waiting at once, and a turn that
  reorders the queue into a list object with old content.
\<close>

theorem threads_conserved:
  assumes "(lib_step L)\<^sup>*\<^sup>* (s, {#}) (s', F)" "absys z s L N a" "finite L"
  shows "\<exists>a'. absys z s' L N a' \<and>
    {#current a'#} + (\<Sum>l\<in>L. mset (qs a' l)) + F = {#current a#} + (\<Sum>l\<in>L. mset (qs a l))"
  using lib_steps_conserve [OF assms] by (simp add: placed_def)

theorem threads_conserved_witness:
  "\<exists>s s' a'. (lib_step {10, 11, 12})\<^sup>*\<^sup>* (s, {#}) (s', {#1#}) \<and> absys True s' {10, 11, 12} 4 a' \<and>
     {#current a'#} + (\<Sum>l\<in>{10, 11, 12}. mset (qs a' l)) + {#1#} = {#1, 2, 3#}"
proof -
  let ?L = "{10, 11, 12 :: ptr}"
  obtain s where s: "absys True s ?L 4 three_threads" using three_threads_ex by blast
  note d = absysD [OF s]
  have w: "th_waitJoin (info three_threads (current three_threads)) = 11" "rq three_threads = 10"
    "ready three_threads = [2, 3]" by (simp_all add: three_threads_def thread_of_def)
  then obtain s' where s': "threadExit s 0 0 = retn (s', True)"
    using threadExit_absys [OF s, of 0 0] by auto
  have r: "running s = 1" using d(6) by (simp add: three_threads_def)
  have "th_waitJoin (threads s (running s)) \<in> ?L - {run s}" using d(2,6,8) w by simp
  then have "lib_step ?L (s, {#}) (s', {#1#})" using lib_step.Exit [OF _ s', of ?L "{#}"] r by simp
  then have st: "(lib_step ?L)\<^sup>*\<^sup>* (s, {#}) (s', {#1#})" by simp
  have "{#current three_threads#} + (\<Sum>l\<in>?L. mset (qs three_threads l)) = {#1, 2, 3#}"
    by (simp add: three_threads_def)
  then show ?thesis using threads_conserved [OF st s] st by auto
qed

section \<open>Every ready thread runs\<close>

text \<open>The scheduler run \<open>n\<close> times, as the timer does.\<close>

fun ticks :: "nat \<Rightarrow> os \<Rightarrow> os ret" where
  "ticks 0 s = retn s"
| "ticks (Suc n) s = bindR (scheduler s) (ticks n)"

lemma ticks_absys:
  "absys z s L N a \<Longrightarrow> turns a + n \<le> 150 \<Longrightarrow> \<exists>s'. ticks n s = retn s' \<and> absys z s' L N ((ascheduler ^^ n) a)"
proof (induction n arbitrary: s a)
  case (Suc n)
  obtain s1 where s1: "scheduler s = retn s1" "absys z s1 L N (ascheduler a)"
    using scheduler_absys [OF Suc.prems(1) turn_ok_early [OF Suc.prems(1)]] Suc.prems(2) by auto
  have "turns (ascheduler a) = turns a + 1"
    using Suc.prems(2) by (simp add: ascheduler_def areorder_def arotate_def Let_def split: list.split)
  then have "turns (ascheduler a) + n \<le> 150" using Suc.prems(2) by simp
  from Suc.IH [OF s1(2) this] s1(1) show ?case by (simp add: funpow_swap1)
qed simp

text \<open>
  C24. A ready thread is not starved. Let \<open>t\<close> be in the run queue behind \<open>xs\<close>, and let no thread up to
  \<open>t\<close> have had more than \<open>K\<close> turns. Then \<open>t\<close> runs within \<open>n\<close> timer ticks, where \<open>n\<close> is one more
  than the length of \<open>xs\<close> plus what every thread lacks to \<open>K\<close> turns, if the queue is not
  reordered by age in that time and no priority passes \<open>2\<^sup>3\<^sup>1\<close>.
\<close>

theorem ready_thread_runs:
  assumes "absys z s L N a" "ready a = xs @ t # ys" "distinct (current a # ready a)"
    and "\<forall>u\<in>set (xs @ [t]). th_priority (info a u) \<le> K"
    and "n = length xs + (\<Sum>u\<in>set (current a # ready a). K - th_priority (info a u)) + 1"
    and "\<forall>u\<in>set (current a # ready a). th_priority (info a u) + n < 2 ^ 31" "turns a + n \<le> 150"
  shows "\<exists>k\<le>n. \<exists>s'. ticks k s = retn s' \<and> running s' = t"
proof -
  have "length xs + credit a K (set (current a # ready a)) < n" using assms(5) by (simp add: credit_def)
  then obtain k where k: "k \<le> n" "current ((ascheduler ^^ k) a) = t"
    using ascheduler_eventually [OF assms(2) _ assms(4,6,3) _ assms(7)] by auto
  moreover have "turns a + k \<le> 150" using k(1) assms(7) by simp
  ultimately show ?thesis using ticks_absys [OF assms(1), of k] absysD(6) by blast
qed

theorem ready_thread_runs_witness:
  "\<exists>s. running s = 1 \<and> (\<exists>k\<le>2. \<exists>s'. ticks k s = retn s' \<and> running s' = 3)"
proof -
  obtain s where s: "absys True s {10, 11, 12} 4 three_threads" using three_threads_ex by blast
  have r: "ready three_threads = [2] @ 3 # []" "current three_threads = 1" "turns three_threads = 0"
    "th_priority (info three_threads u) = 0" for u
    by (simp_all add: three_threads_def thread_of_def)
  have "running s = 1" using absysD(6) [OF s] r(2) by simp
  moreover have "\<exists>k\<le>2. \<exists>s'. ticks k s = retn s' \<and> running s' = 3"
    using ready_thread_runs [OF s r(1), of 0 2] r by simp
  ultimately show ?thesis by blast
qed

section \<open>Exit, join and lock\<close>

text \<open>
  C27. A thread that exits wakes every thread that joined it: the call switches to another thread, the
  exited thread is marked finished and keeps its result, its queue of joiners is empty, and
  the running and the ready threads are then exactly the ready ones of before and the
  joiners. The other queues do not change.
\<close>

theorem threadExit_wakes:
  assumes "absys z s L N a" and "w = th_waitJoin (info a (current a))" "w \<in> L" "w \<noteq> rq a"
    and "ready a \<noteq> [] \<or> qs a w \<noteq> []"
  shows "\<exists>s' a'. threadExit s res slot = retn (s', True) \<and> absys z s' L N a' \<and>
    th_finished (threads s' (running s)) = 1 \<and> (res \<noteq> 0 \<longrightarrow> th_res (threads s' (running s)) = slot) \<and>
    qs a' w = [] \<and> mset (current a' # ready a') = mset (ready a) + mset (qs a w) \<and>
    (\<forall>l. l \<noteq> w \<longrightarrow> l \<noteq> rq a \<longrightarrow> qs a' l = qs a l)"
proof -
  obtain s' where s': "threadExit s res slot = retn (s', True)" "absys z s' L N (aexit a res slot)"
    using threadExit_absys [OF assms(1), of res slot] assms(2-5) by auto
  note d = absysD [OF s'(2)] absysD(6) [OF assms(1)]
  define x where "x = (let x = (info a (current a))\<lparr>th_finished := 1\<rparr> in if res \<noteq> 0 then x\<lparr>th_res := slot\<rparr> else x)"
  define b where "b = awake_all (a\<lparr>info := (info a)(current a := x)\<rparr>) w"
  have x: "th_waitJoin x = w" "th_finished x = 1" "res \<noteq> 0 \<longrightarrow> th_res x = slot"
    by (simp_all add: x_def Let_def assms(2))
  have e: "aexit a res slot = adispatch b" by (simp add: aexit_def b_def x_def Let_def assms(2))
  have b: "mset (ready b) = mset (ready a) + mset (qs a w)" "qs b w = []" "rq b = rq a"
    "l \<noteq> w \<Longrightarrow> l \<noteq> rq a \<Longrightarrow> qs b l = qs a l" "info b (current a) = x" for l
    using assms(4) by (simp_all add: b_def awake_all_def mset_fold_ordered_insert)
  then obtain t ts where t: "ready b = t # ts" using assms(5) by (cases "ready b") auto
  then have "mset (current (adispatch b) # ready (adispatch b)) = mset (ready b)"
    "qs (adispatch b) w = []" "info (adispatch b) (current a) = x"
    "l \<noteq> w \<Longrightarrow> l \<noteq> rq a \<Longrightarrow> qs (adispatch b) l = qs a l" for l
    using b assms(4) by (simp_all add: adispatch_def)
  then show ?thesis using s' d(8,11) x b(1) unfolding e by (intro exI [of _ s'] exI [of _ "adispatch b"]) auto
qed

text \<open>
  C40. Waiting for a held mutex when no other thread is ready is fatal: \<open>my_pthread_mutex_lock\<close> puts the
  caller into the queue of the mutex and then pops the empty run queue, a \<open>NULL\<close> dereference.
\<close>

theorem lock_without_ready_thread:
  assumes "absys z s L N a" "lk_state (locked a m) = 1" "ready a = []"
    and "lk_wait (locked a m) \<in> L" "lk_wait (locked a m) \<noteq> rq a"
  shows "lock_wait s m = fail NullDeref"
  by (rule lock_wait_stuck [OF assms(1,4,5,2,3)])

definition alone :: asys where
  "alone = \<lparr>qs = (\<lambda>l. if l = 11 then [4] else []), rq = 10, current = 1, info = (\<lambda>_. thread_of 0 11),
     locked = (\<lambda>_. \<lparr>lk_state = 1, lk_wait = 12\<rparr>), turns = 0\<rparr>"

lemma alone_ex: "\<exists>s. absys True s {10, 11, 12} 4 alone"
  using absys_ex [of "{10, 11, 12}" alone] by (auto simp: alone_def)

theorem lock_without_ready_thread_witness: "\<exists>s. running s = 1 \<and> lock_wait s 8 = fail NullDeref"
proof -
  obtain s where s: "absys True s {10, 11, 12} 4 alone" using alone_ex by blast
  then show ?thesis using lock_without_ready_thread [OF s, of 8] absysD(6) [OF s] by (auto simp: alone_def)
qed

theorem threadExit_wakes_witness:
  "\<exists>s s'. running s = 1 \<and> threadExit s 0 0 = retn (s', True) \<and> running s' = 4 \<and>
     th_finished (threads s' 1) = 1"
proof -
  obtain s where s: "absys True s {10, 11, 12} 4 alone" using alone_ex by blast
  have al: "current alone = 1" "th_waitJoin (info alone 1) = 11" "rq alone = 10" "ready alone = []" "qs alone 11 = [4]"
    by (simp_all add: alone_def thread_of_def)
  obtain s' a' where s': "threadExit s 0 0 = retn (s', True)" "absys True s' {10, 11, 12} 4 a'"
    "th_finished (threads s' (running s)) = 1" "mset (current a' # ready a') = {#4#}"
    using threadExit_wakes [OF s, of 11 0 0] al by auto
  then show ?thesis using absysD(6) [OF s] absysD(6) [OF s'(2)] al by auto
qed

end
