(* ===== verification/Thread_Create.thy ===== *)
theory Thread_Create
  imports Lib_Region Thread_Theorems
begin

text \<open>
  Creating a thread: three allocations in the region of the thread library, a page for the thread, and the
  run queue.
\<close>

section \<open>Creating a thread\<close>

lemma createNewThread_spec:
  assumes v: "lib_mem (vmem s) N b z" and free: "find (\<lambda>i. pg (bytes (vmem s)) (memPtr (vmem s)) i Free \<noteq> 0) [0..<N] = Some k"
    and n: "n = nextId s" "0 < n" "n < 2 ^ 31" and st: "st = sizeof_sthread e"
    and room: "st + 32848 < z" "b + z + 224 < 2 ^ 64" "b + st + 192 \<le> memPtr (vmem s) + MEMORY_START"
    and t: "t = b + sizeof_SpaceNode"
    and x: "x = (threads s t)\<lparr>th_waitJoin := t + st + sizeof_SpaceNode, th_id := int n, th_function := function, th_arg := arg,
      th_finished := 0, th_priority := 0, th_born := now e mod 2 ^ 64\<rparr>"
  obtains v' where "createNewThread e True s function arg =
      retn ((set_thread s t x)\<lparr>vmem := v', nextId := n + 1\<rparr>, t, 0)"
    "lib_mem v' N (b + st + 32960) (z - st - 32792)" "memPtr v' = memPtr (vmem s)"
    "pg (bytes v') (memPtr v') 0 Pid = n" "pg (bytes v') (memPtr v') 0 Free = 0"
    "pg (bytes v') (memPtr v') 0 Order = pg (bytes (vmem s)) (memPtr (vmem s)) k Order"
proof -
  let ?v = "vmem s" and ?mp = "memPtr (vmem s)"
  obtain v1 where v1: "os_alloc e ?v st = retn (v1, t)" "lib_mem v1 N (t + st) (z - st)" "memPtr v1 = ?mp"
    "\<And>i f. i < N \<Longrightarrow> pg (bytes v1) ?mp i f = pg (bytes ?v) ?mp i f"
    unfolding t by (rule os_alloc_tail [OF v, of st e]) (use room in auto)
  obtain v2 where v2: "os_alloc e v1 24 = retn (v2, t + st + sizeof_SpaceNode)"
    "lib_mem v2 N (t + st + sizeof_SpaceNode + 24) (z - st - 24)" "memPtr v2 = memPtr v1"
    "\<And>i f. i < N \<Longrightarrow> pg (bytes v2) (memPtr v1) i f = pg (bytes v1) (memPtr v1) i f"
    by (rule os_alloc_tail [OF v1(2), of 24 e]) (use room t in auto)
  have "find (\<lambda>i. pg (bytes v2) (memPtr v2) i Free \<noteq> 0) [0..<N] = Some k"
    using free v1(3,4) v2(3,4) unfolding find_upt_Some by (metis less_trans)
  then obtain v3 where v3: "myallocate e v2 0 (int n) = retn (v3, memPtr v2)"
    "lib_mem v3 N (t + st + sizeof_SpaceNode + 24) (z - st - 24)" "memPtr v3 = memPtr v2"
    "pg (bytes v3) (memPtr v2) 0 Pid = n" "pg (bytes v3) (memPtr v2) 0 Free = 0"
    "pg (bytes v3) (memPtr v2) 0 Order = pg (bytes v2) (memPtr v2) k Order"
    by (rule page_for_thread [OF v2(2) _ n(2,3), of k e 0]) (use room t v1(3) v2(3) in auto)
  obtain v4 where v4: "os_alloc e v3 STACK_SIZE = retn (v4, t + st + sizeof_SpaceNode + 24 + sizeof_SpaceNode)"
    "lib_mem v4 N (t + st + sizeof_SpaceNode + 24 + sizeof_SpaceNode + STACK_SIZE) (z - st - 24 - STACK_SIZE)" "memPtr v4 = memPtr v3"
    "\<And>i f. i < N \<Longrightarrow> pg (bytes v4) (memPtr v3) i f = pg (bytes v3) (memPtr v3) i f"
    by (rule os_alloc_tail [OF v3(2), of STACK_SIZE e]) (use room t in auto)
  have N: "0 < N" "k < N" using free by (auto simp: find_upt_Some)
  show ?thesis
  proof (rule that [of v4])
    show "createNewThread e True s function arg = retn ((set_thread s t x)\<lparr>vmem := v4, nextId := n + 1\<rparr>, t, 0)"
      using v1(1) v2(1) v3(1) v4(1) n t
      by (simp add: createNewThread_def os_new_def st [symmetric] Let_def x s32_small add.commute)
    show "lib_mem v4 N (b + st + 32960) (z - st - 32792)" using v4(2) by (simp add: t add.commute)
  qed (use v1(3,4) v2(3,4) v3(3-6) v4(3) v4(4) [OF N(1)] N in simp_all)
qed

text \<open>A new thread \<open>t\<close> with the record \<open>x\<close>, put into the run queue.\<close>

definition acreate :: "asys \<Rightarrow> tid \<Rightarrow> sthread \<Rightarrow> asys" where
  "acreate a t x =
     (let th = (info a)(t := x)
      in a\<lparr>info := th, qs := (qs a)(rq a := ordered_insert (order_key th 0) t (ready a))\<rparr>)"

text \<open>
  C9. \<open>my_pthread_create\<close>, on a running thread library whose region still has room at its end and with a
  free page: it returns 0 and a handle to the object it allocates, a thread with the next id and priority 0
  that has not finished; the new thread is in the run queue, behind all threads of its priority but never in front of the
  first, nothing else of the library changes; the first page belongs to the new thread; the next id is one more; and
  the region is shorter by the thread object, the queue of joiners, the stack and three headers.
\<close>

theorem create_adds_thread:
  assumes ab: "absys zr s L N a" "rq a \<noteq> 0" and mem: "lib_mem (vmem s) N b z"
    and free: "find (\<lambda>i. pg (bytes (vmem s)) (memPtr (vmem s)) i Free \<noteq> 0) [0..<N] = Some k"
    and n: "n = nextId s" "0 < n" "n < 2 ^ 31" and st: "st = sizeof_sthread e"
    and room: "st + 32848 < z" "b + z + 224 < 2 ^ 64" "b + st + 192 \<le> memPtr (vmem s) + MEMORY_START"
    and t: "t = b + sizeof_SpaceNode"
    and x: "x = (info a t)\<lparr>th_waitJoin := t + st + sizeof_SpaceNode, th_id := int n, th_function := function, th_arg := arg,
      th_finished := 0, th_priority := 0, th_born := now e mod 2 ^ 64\<rparr>"
  shows "\<exists>s'. my_pthread_create e True s False function arg = retn (s', t, 0) \<and> absys zr s' L N (acreate a t x) \<and>
    nextId s' = n + 1 \<and> pg (bytes (vmem s')) (memPtr (vmem s')) 0 Pid = n \<and> pg (bytes (vmem s')) (memPtr (vmem s')) 0 Free = 0 \<and>
    lib_mem (vmem s') N (b + st + 32960) (z - st - 32792)"
proof -
  have s: "queues zr (qheap s) L (qs a)" "run s = rq a" "rq a \<in> L" "\<forall>l\<in>L. 0 \<notin> set (qs a l)" "threads s = info a"
    using ab(1) by (simp_all add: absys_def)
  obtain v' where v': "createNewThread e True s function arg = retn ((set_thread s t x)\<lparr>vmem := v', nextId := n + 1\<rparr>, t, 0)"
    "lib_mem v' N (b + st + 32960) (z - st - 32792)" "memPtr v' = memPtr (vmem s)"
    "pg (bytes v') (memPtr v') 0 Pid = n" "pg (bytes v') (memPtr v') 0 Free = 0"
    using createNewThread_spec [OF mem free n st room t x [folded s(5)]] by metis
  let ?th = "(info a)(t := x)"
  obtain h where h: "pushOrdered ?th 0 (qheap s) (rq a) t = retn h"
    "queues zr h L ((qs a)(rq a := ordered_insert (order_key ?th 0) t (ready a)))"
    using queues_pushOrdered [OF s(1,3)] by blast
  let ?s = "(set_thread s t x)\<lparr>vmem := v', nextId := n + 1, qheap := h\<rparr>"
  have "my_pthread_create e True s False function arg = retn (?s, t, 0)"
    using v'(1) h(1) s(2,5) ab(2) by (simp add: my_pthread_create_def)
  moreover have "absys zr ?s L N (acreate a t x)"
    using ab(1) h(2) s v'(2) t by (simp add: absys_def acreate_def Let_def mem_ok_def lib_mem_def lib_objs_def)
  ultimately show ?thesis using v' by (intro exI [of _ ?s]) simp
qed

text \<open>A thread library with one running thread, right after \<open>init\<close>.\<close>

lemma started_ex:
  "\<exists>s. absys True s {10} 1438 \<lparr>qs = (\<lambda>_. []), rq = 10, current = 1, info = (\<lambda>_. thread_of 0 11),
       locked = (\<lambda>_. \<lparr>lk_state = 0, lk_wait = 12\<rparr>), turns = 0\<rparr> \<and>
     nextId s = 2 \<and> lib_mem (vmem s) 1438 1004096 1097096 \<and> memPtr (vmem s) = 4096 \<and>
     (\<forall>i<1438. pg (bytes (vmem s)) 4096 i Free = 1)"
proof -
  let ?v = "(example_vm zero_memory)\<lparr>memPtr := 0, swapBuf0 := 9000000, swapWritable := True\<rparr>"
  have "start_ok plain_platform ?v 4096" "4096 = sysPageSize plain_platform"
    by (simp_all add: start_ok_def plain_platform_def example_vm_def)
  then obtain v' where v': "memPtr v' = 4096" "pgSize v' = 4096" "vm_pages v' (thread_frames 4096)"
    "\<forall>i<thread_frames 4096. pg (bytes v') 4096 i Free = 1 \<and> pg (bytes v') 4096 i Pid = 0 \<and> pg (bytes v') 4096 i Order = 1"
    "rep (bytes v') (4096 + OSRESERVED_START) [(4096 + OSRESERVED_START, True, MEMORY_START - OSRESERVED_START - sizeof_SpaceNode)]"
    by (rule init_spec)
  have N: "thread_frames 4096 = 1438" by (simp add: thread_frames_def frames_in_def)
  have "objs (bytes v') (4096 + OSRESERVED_START) [] 1004096 1097096" using v'(5) by (simp add: objs_def spaced_def)
  then have "lib_objs v' 1438 [] 1004096 1097096" using v'(1-3) by (simp add: lib_objs_def N)
  then have mem: "lib_mem v' 1438 1004096 1097096" by (auto simp: lib_mem_def)
  obtain h where h: "queues True h {10} (\<lambda>_. [])" using queues_ex [of "{10}" "\<lambda>_. []"] by auto
  let ?s = "\<lparr>vmem = v', qheap = h, threads = (\<lambda>_. thread_of 0 11), locks = (\<lambda>_. \<lparr>lk_state = 0, lk_wait = 12\<rparr>), run = 10,
    running = 1, mainThread = 1, nextId = 2, nSchedulings = 0, tv_usec = 0,
    objects = \<lparr>obj_run = 0, obj_nextId = 0, obj_mainThread = 0, obj_running = 0, obj_nSchedulings = 0, obj_sa = 0, obj_timer = 0\<rparr>\<rparr>"
  show ?thesis
    by (rule exI [of _ ?s]) (use h mem v' in \<open>simp add: absys_def mem_ok_def N\<close>)
qed

theorem create_adds_thread_witness:
  "\<exists>s s'. my_pthread_create plain_platform True s False 77 5 = retn (s', 1004152, 0) \<and> nextId s' = 3 \<and>
     get (bytes (vmem s')) Pid (memPtr (vmem s')) = 2"
proof -
  obtain s where s: "absys True s {10} 1438 \<lparr>qs = (\<lambda>_. []), rq = 10, current = 1, info = (\<lambda>_. thread_of 0 11),
       locked = (\<lambda>_. \<lparr>lk_state = 0, lk_wait = 12\<rparr>), turns = 0\<rparr>" "nextId s = 2" "lib_mem (vmem s) 1438 1004096 1097096"
    "memPtr (vmem s) = 4096" "\<forall>i<1438. pg (bytes (vmem s)) 4096 i Free = 1" using started_ex by blast
  have "find (\<lambda>i. pg (bytes (vmem s)) (memPtr (vmem s)) i Free \<noteq> 0) [0..<1438] = Some 0"
    using s(4) s(5) [rule_format, of 0] by (simp add: find_upt_Some)
  moreover have "sizeof_sthread plain_platform = 992" by (simp add: sizeof_sthread_def plain_platform_def)
  ultimately obtain s' where s': "my_pthread_create plain_platform True s False 77 5 = retn (s', 1004152, 0)" "nextId s' = 3"
    "pg (bytes (vmem s')) (memPtr (vmem s')) 0 Pid = 2" "lib_mem (vmem s') 1438 (1004096 + 992 + 32960) (1097096 - 992 - 32792)"
    using create_adds_thread [OF s(1) _ s(3) _ s(2) [symmetric] _ _ _ _ _ _ refl refl, of 0 992 plain_platform 77 5] s(4) by auto
  then show ?thesis by auto
qed

end
