(* ===== verification/Boot.thy ===== *)
theory Boot
  imports Thread_Create
begin

text \<open>
  How a program comes up: the first \<open>malloc\<close> lays out the memory, starts the thread library and then serves the
  request.
\<close>

section \<open>Filling objects\<close>

lemma same_lib_trans: "same_lib u v N \<Longrightarrow> same_lib v w N \<Longrightarrow> same_lib u w N"
  by (simp add: same_lib_def)

lemma payload_objs:
  assumes v: "lib_objs v N os b z" and a: "(a, s) \<in> set os"
    and eq: "\<And>x. x < a + sizeof_SpaceNode \<or> a + sizeof_SpaceNode + s \<le> x \<Longrightarrow> m x = bytes v x"
  shows "lib_objs (v\<lparr>bytes := m\<rparr>) N os b z" "same_lib v (v\<lparr>bytes := m\<rparr>) N"
proof -
  have ok: "vm_pages v N" "sizeof_SpaceNode * N \<le> OSRESERVED_START" "objs (bytes v) (memPtr v + OSRESERVED_START) os b z"
    using v by (simp_all add: lib_objs_def)
  have "memPtr v + OSRESERVED_START \<le> a" using a ok(3) by (fastforce simp: objs_def)
  then have "m x = bytes v x" if "x < memPtr v + OSRESERVED_START" for x using that by (intro eq) simp
  note t = table_cong [OF ok(1,2) this]
  show "lib_objs (v\<lparr>bytes := m\<rparr>) N os b z" using v t(2) objs_write [OF ok(3) a eq] by (simp add: lib_objs_def)
  show "same_lib v (v\<lparr>bytes := m\<rparr>) N" using t(1) by (simp add: same_lib_def)
qed

lemma set_main_objs:
  assumes v: "lib_objs v N os b z" and a: "(a, sizeof_sthread e) \<in> set os" and t: "t = a + sizeof_SpaceNode"
  shows "lib_objs (set_main e v n t) N os b z" "same_lib v (set_main e v n t) N"
    "x < t \<or> t + sizeof_sthread e \<le> x \<Longrightarrow> bytes (set_main e v n t) x = bytes v x"
    "rd (bytes (set_main e v n t)) t 4 = rd (bytes v) n 4"
proof -
  let ?m = "bytes (set_main e v n t)"
  have eq: "set_main e v n t = v\<lparr>bytes := ?m\<rparr>" by (simp add: set_main_def Let_def)
  have out: "?m x = bytes v x" if "x < t \<or> t + sizeof_sthread e \<le> x" for x
    using that by (auto simp: set_main_def Let_def sizeof_sthread_def wr_other)
  then show "x < t \<or> t + sizeof_sthread e \<le> x \<Longrightarrow> ?m x = bytes v x" .
  show "lib_objs (set_main e v n t) N os b z" "same_lib v (set_main e v n t) N"
    by (subst eq, rule payload_objs [OF v a], rule out, simp add: t)+
  have "rd (bytes v) n 4 < 256 ^ 4" by (rule rd_less)
  then show "rd ?m t 4 = rd (bytes v) n 4"
    by (simp add: set_main_def Let_def rd_wr_other rd_wr_same)
qed

text \<open>An allocation that succeeds, with its addresses named: \<open>t\<close> is the object, \<open>b'\<close> the header behind it.\<close>

lemma os_new_objs:
  assumes v: "lib_objs v N os b z" and z: "z = z' + sz" "sizeof_SpaceNode < z'" "b + 2 * sizeof_SpaceNode + z < 2 ^ 64"
    and t: "t = b + sizeof_SpaceNode" "b' = t + sz"
  obtains v' where "os_alloc e v sz = retn (v', t)" "os_new e v sz = retn (v', t)" "lib_objs v' N (os @ [(b, sz)]) b' z'" "same_lib v v' N"
    "\<And>x. x < b \<or> b' + sizeof_SpaceNode \<le> x \<Longrightarrow> bytes v' x = bytes v x"
proof -
  have sz: "sz + sizeof_SpaceNode < z" using z by simp
  obtain v' where "os_alloc e v sz = retn (v', b + sizeof_SpaceNode)"
    "lib_objs v' N (os @ [(b, sz)]) (b + sizeof_SpaceNode + sz) (z - sz)" "same_lib v v' N"
    "\<And>x. x < b \<or> b + sizeof_SpaceNode + sz + sizeof_SpaceNode \<le> x \<Longrightarrow> bytes v' x = bytes v x"
    by (rule os_alloc_objs [OF v sz z(3), where e = e]) blast
  then show ?thesis by (intro that [of v']) (simp_all add: t z(1) os_new_def)
qed

lemma setMyScheduler_objs:
  assumes v: "lib_objs v N os b z" and a: "(a, 4) \<in> set os" and s: "ss = sizeofSigaction e" "ti = sizeofItimerval e"
    and size: "140 \<le> ss" "32 \<le> ti" "z = z' + ti + ss" "sizeof_SpaceNode < z'" "b + z + 4 * sizeof_SpaceNode < 2 ^ 64"
    and n: "n = a + sizeof_SpaceNode" and sa: "sa = b + sizeof_SpaceNode" "c = sa + ss" and tm: "tm = c + sizeof_SpaceNode" "d = tm + ti"
  obtains v' where "setMyScheduler e v n = retn (v', sa, tm)" "lib_objs v' N (os @ [(b, ss), (c, ti)]) d z'" "same_lib v v' N"
    "rd (bytes v') (tm + 24) 8 = QUANTUM"
    "\<And>x. x < n \<or> n + 4 \<le> x \<Longrightarrow> x < b \<or> d + sizeof_SpaceNode \<le> x \<Longrightarrow> bytes v' x = bytes v x"
proof -
  let ?v1 = "store v n 4 0"
  have "a + sizeof_SpaceNode \<le> n" "n + 4 \<le> a + sizeof_SpaceNode + 4" by (simp_all add: n)
  note v1 = store_objs [OF v a this, of 0]
  obtain v2 where v2: "os_new e ?v1 ss = retn (v2, sa)" "lib_objs v2 N (os @ [(b, ss)]) c (z' + ti)" "same_lib ?v1 v2 N"
    "\<And>x. x < b \<or> c + sizeof_SpaceNode \<le> x \<Longrightarrow> bytes v2 x = bytes ?v1 x"
    using os_new_objs [OF v1(1) size(3) _ _ sa, of e] size(4,5) by auto
  have room: "c + 2 * sizeof_SpaceNode + (z' + ti) < 2 ^ 64" using size sa by simp
  obtain v3 where v3: "os_new e v2 ti = retn (v3, tm)" "lib_objs v3 N ((os @ [(b, ss)]) @ [(c, ti)]) d z'" "same_lib v2 v3 N"
    "\<And>x. x < c \<or> d + sizeof_SpaceNode \<le> x \<Longrightarrow> bytes v3 x = bytes v2 x"
    by (rule os_new_objs [OF v2(2) refl size(4) room tm, of e]) blast
  let ?os = "os @ [(b, ss), (c, ti)]"
  define m4 where "m4 = wr (wr (wr (bytes v3) sa 8 (interruptAddr e)) (sa + 8) 128 (2 ^ (SIGPROF - 1))) (sa + 136) 4 0"
  define m5 where "m5 = wr (wr (wr (wr m4 (tm + 16) 8 0) (tm + 24) 8 QUANTUM) tm 8 0) (tm + 8) 8 QUANTUM"
  have m4: "m4 x = bytes v3 x" if "x < sa \<or> sa + ss \<le> x" for x
    using that size(1) by (auto simp: m4_def wr_other)
  have m5: "m5 x = m4 x" if "x < tm \<or> tm + ti \<le> x" for x
    using that size(2) by (auto simp: m5_def wr_other)
  let ?v4 = "v3\<lparr>bytes := m4\<rparr>" and ?v5 = "v3\<lparr>bytes := m5\<rparr>"
  have v4: "lib_objs ?v4 N ?os d z'" "same_lib v3 ?v4 N"
    using payload_objs [OF v3(2), of b ss m4] m4 sa by simp_all
  have v5: "lib_objs ?v5 N ?os d z'" "same_lib ?v4 ?v5 N"
    using payload_objs [OF v4(1), of c ti m5] m5 tm by simp_all
  show ?thesis
  proof (rule that [of ?v5])
    show "setMyScheduler e v n = retn (?v5, sa, tm)"
      using v2(1) v3(1) by (simp add: setMyScheduler_def Let_def s [symmetric] m4_def m5_def)
    show "same_lib v ?v5 N" by (rule same_lib_trans [OF v1(2) same_lib_trans [OF v2(3) same_lib_trans [OF v3(3) same_lib_trans [OF v4(2) v5(2)]]]])
    show "rd (bytes ?v5) (tm + 24) 8 = QUANTUM" by (simp add: m5_def rd_wr_other rd_wr_same)
    show "bytes ?v5 x = bytes v x" if "x < n \<or> n + 4 \<le> x" "x < b \<or> d + sizeof_SpaceNode \<le> x" for x
    proof -
      have o: "x < tm \<or> tm + ti \<le> x" "x < sa \<or> sa + ss \<le> x" "x < c \<or> d + sizeof_SpaceNode \<le> x" "x < b \<or> c + sizeof_SpaceNode \<le> x"
        using that(2) tm sa by auto
      show ?thesis
        using m5 [OF o(1)] m4 [OF o(2)] v3(4) [OF o(3)] v2(4) [OF o(4)] that(1) by (simp add: wr_other)
    qed
  qed (rule v5(1))
qed

section \<open>Starting the thread library\<close>

text \<open>The objects of the library, from the start \<open>p\<close> of its region, and the header behind them.\<close>

definition boot_objects :: "platform \<Rightarrow> addr \<Rightarrow> (addr \<times> nat) list" where
  "boot_objects e p =
     (let st = sizeof_sthread e; ss = sizeofSigaction e
      in [(p, 24), (p + 80, 4), (p + 140, st), (p + 196 + st, 8), (p + 260 + st, 4), (p + 320 + st, ss),
          (p + 376 + st + ss, sizeofItimerval e)])"

definition boot_end :: "platform \<Rightarrow> addr \<Rightarrow> addr" where
  "boot_end e p = p + 432 + sizeof_sthread e + sizeofSigaction e + sizeofItimerval e"

text \<open>The second half of \<open>initOS\<close>, from the allocation of \<open>running\<close>; \<open>t\<close> is the main thread.\<close>

lemma boot_tail:
  assumes v: "lib_objs v N os b (z + ti + ss + 4 + 8)" and s: "ss = sizeofSigaction e" "ti = sizeofItimerval e"
    and size: "140 \<le> ss" "32 \<le> ti" "sizeof_SpaceNode < z" "b + z + ss + ti + 500 < 2 ^ 64"
    and t: "rd (bytes v) t 4 = 1" "t + 4 \<le> b" "t < 2 ^ 64"
  obtains v5 v6 v7 where "os_new e v 8 = retn (v5, b + 56)" "rd (bytes (store v5 (b + 56) 8 t)) t 4 = 1"
    "os_new e ((store v5 (b + 56) 8 t)\<lparr>runningId := Some 1\<rparr>) 4 = retn (v6, b + 120)"
    "setMyScheduler e (store v6 (b + 120) 4 0) (b + 120) = retn (v7, b + 180, b + 236 + ss)"
    "lib_objs v7 N (os @ [(b, 8), (b + 64, 4), (b + 124, ss), (b + 180 + ss, ti)]) (b + 236 + ss + ti) z"
    "memPtr v7 = memPtr v" "pgSize v7 = pgSize v" "runningId v7 = Some 1" "rd (bytes v7) (b + 56) 8 = t"
    "\<And>i f. i < N \<Longrightarrow> pg (bytes v7) (memPtr v) i f = pg (bytes v) (memPtr v) i f"
    "\<And>x. x < b \<or> b + 292 + ss + ti \<le> x \<Longrightarrow> bytes v7 x = bytes v x"
proof -
  obtain v5 where v5: "os_new e v 8 = retn (v5, b + 56)" "lib_objs v5 N (os @ [(b, 8)]) (b + 64) (z + ti + ss + 4)" "same_lib v v5 N"
    "\<And>x. x < b \<or> b + 120 \<le> x \<Longrightarrow> bytes v5 x = bytes v x"
    using os_new_objs [OF v refl, of "b + 56" "b + 64" e] size by (auto simp: add.commute add.left_commute)
  let ?v5 = "store v5 (b + 56) 8 t" and ?v5r = "(store v5 (b + 56) 8 t)\<lparr>runningId := Some 1\<rparr>"
  have s5: "lib_objs ?v5 N (os @ [(b, 8)]) (b + 64) (z + ti + ss + 4)" "same_lib v5 ?v5 N"
    using store_objs [OF v5(2), of b 8 "b + 56" 8 t] by simp_all
  have r5: "lib_objs ?v5r N (os @ [(b, 8)]) (b + 64) (z + ti + ss + 4)" using s5(1) by (simp add: lib_objs_def)
  obtain v6 where v6: "os_new e ?v5r 4 = retn (v6, b + 120)" "lib_objs v6 N (os @ [(b, 8), (b + 64, 4)]) (b + 124) (z + ti + ss)"
    "same_lib ?v5r v6 N" "\<And>x. x < b + 64 \<or> b + 180 \<le> x \<Longrightarrow> bytes v6 x = bytes ?v5r x"
    using os_new_objs [OF r5 refl, of "b + 120" "b + 124" e] size by (auto simp: add.commute add.left_commute)
  let ?v6 = "store v6 (b + 120) 4 0"
  have s6: "lib_objs ?v6 N (os @ [(b, 8), (b + 64, 4)]) (b + 124) (z + ti + ss)" "same_lib v6 ?v6 N"
    using store_objs [OF v6(2), of "b + 64" 4 "b + 120" 4 0] by simp_all
  obtain v7 where v7: "setMyScheduler e ?v6 (b + 120) = retn (v7, b + 180, b + 236 + ss)"
    "lib_objs v7 N ((os @ [(b, 8), (b + 64, 4)]) @ [(b + 124, ss), (b + 180 + ss, ti)]) (b + 236 + ss + ti) z" "same_lib ?v6 v7 N"
    "\<And>x. x < b + 120 \<or> b + 124 \<le> x \<Longrightarrow> x < b + 124 \<or> b + 292 + ss + ti \<le> x \<Longrightarrow> bytes v7 x = bytes ?v6 x"
    using setMyScheduler_objs [OF s6(1) _ s size(1,2) refl size(3), of "b + 64" "b + 120" "b + 180" "b + 180 + ss" "b + 236 + ss" "b + 236 + ss + ti"] size(4)
    by (auto simp: add.commute add.left_commute)
  have out: "bytes v7 x = bytes ?v5 x" if "x < b + 64 \<or> b + 292 + ss + ti \<le> x" for x
    using v7(4) [of x] v6(4) [of x] that by (auto simp: wr_other)
  show ?thesis
  proof (rule that [OF v5(1) _ v6(1) v7(1)])
    have "rd (bytes ?v5) t 4 = rd (bytes v5) t 4" using t(2) by (simp add: rd_wr_other)
    also have "\<dots> = rd (bytes v) t 4" by (rule rd_cong, rule v5(4)) (use t(2) in simp)
    finally show "rd (bytes ?v5) t 4 = 1" using t(1) by simp
    show "memPtr v7 = memPtr v" "pgSize v7 = pgSize v" "runningId v7 = Some 1"
      using v5(3) s5(2) v6(3) s6(2) v7(3) by (simp_all add: same_lib_def)
    show "pg (bytes v7) (memPtr v) i f = pg (bytes v) (memPtr v) i f" if "i < N" for i f
      using v5(3) s5(2) v6(3) s6(2) v7(3) that by (simp add: same_lib_def)
    show "bytes v7 x = bytes v x" if "x < b \<or> b + 292 + ss + ti \<le> x" for x
      using out [of x] v5(4) [of x] that by (auto simp: wr_other)
    have "rd (bytes v7) (b + 56) 8 = rd (bytes ?v5) (b + 56) 8" by (rule rd_cong, rule out) simp
    then show "rd (bytes v7) (b + 56) 8 = t" using t(3) by (simp add: rd_wr_same)
  qed (use v7(2) in simp)
qed

text \<open>The first half of \<open>initOS\<close>: the queue, the counter, the main thread and its page.\<close>

lemma boot_head:
  assumes p: "p = memPtr v + OSRESERVED_START" and st: "st = sizeof_sthread e"
    and v: "lib_objs v N [] p (z + 8 + st + 4 + 24)"
    and free: "find (\<lambda>i. pg (bytes v) (memPtr v) i Free \<noteq> 0) [0..<N] = Some k"
    and size: "sizeof_SpaceNode < z" "p + z + st + 500 < 2 ^ 64" "p + 252 + st \<le> memPtr v + MEMORY_START"
  obtains v1 v2 v3 v4 where "os_alloc e v 24 = retn (v1, p + 56)" "os_new e v1 4 = retn (v2, p + 136)"
    "os_new e (store v2 (p + 136) 4 1) st = retn (v3, p + 196)" "rd (bytes (set_main e v3 (p + 136) (p + 196))) (p + 136) 4 = 1"
    "allocate_request (\<lambda>_. None) e (set_main e v3 (p + 136) (p + 196)) 0 (int 1) = retn (v4, memPtr v)"
    "lib_objs v4 N [(p, 24), (p + 80, 4), (p + 140, st)] (p + 196 + st) (z + 8)" "memPtr v4 = memPtr v" "pgSize v4 = pgSize v"
    "pg (bytes v4) (memPtr v) 0 Pid = 1" "pg (bytes v4) (memPtr v) 0 Free = 0"
    "pg (bytes v4) (memPtr v) 0 Order = pg (bytes v) (memPtr v) k Order"
    "rep (bytes v4) (frame (memPtr v) (pgSize v) 0) [(frame (memPtr v) (pgSize v) 0, True, pgSize v - sizeof_SpaceNode)]"
    "\<And>j f. 0 < j \<Longrightarrow> j < N \<Longrightarrow> j \<noteq> k \<Longrightarrow> pg (bytes v4) (memPtr v) j f = pg (bytes v) (memPtr v) j f"
    "rd (bytes v4) (p + 136) 4 = 1" "rd (bytes v4) (p + 196) 4 = 1"
proof -
  let ?mp = "memPtr v"
  obtain v1 where v1: "os_alloc e v 24 = retn (v1, p + 56)" "lib_objs v1 N [(p, 24)] (p + 80) (z + 8 + st + 4)" "same_lib v v1 N"
    using os_new_objs [OF v refl, of "p + 56" "p + 80" e] size by auto
  obtain v2 where v2: "os_new e v1 4 = retn (v2, p + 136)" "lib_objs v2 N [(p, 24), (p + 80, 4)] (p + 140) (z + 8 + st)" "same_lib v1 v2 N"
    using os_new_objs [OF v1(2) refl, of "p + 136" "p + 140" e] size by auto
  let ?v2 = "store v2 (p + 136) 4 1"
  have s2: "lib_objs ?v2 N [(p, 24), (p + 80, 4)] (p + 140) (z + 8 + st)" "same_lib v2 ?v2 N"
    using store_objs [OF v2(2), of "p + 80" 4 "p + 136" 4 1] by simp_all
  let ?os3 = "[(p, 24), (p + 80, 4), (p + 140, st)]"
  obtain v3 where v3: "os_new e ?v2 st = retn (v3, p + 196)" "lib_objs v3 N ?os3 (p + 196 + st) (z + 8)" "same_lib ?v2 v3 N"
    "\<And>x. x < p + 140 \<or> p + 196 + st + sizeof_SpaceNode \<le> x \<Longrightarrow> bytes v3 x = bytes ?v2 x"
    using os_new_objs [OF s2(1) refl, of "p + 196" "p + 196 + st" e] size by auto
  define v3' where "v3' = set_main e v3 (p + 136) (p + 196)"
  note sm = set_main_objs [where a = "p + 140" and e = e and n = "p + 136" and t = "p + 196", OF v3(2), folded v3'_def st]
  have s3: "lib_objs v3' N ?os3 (p + 196 + st) (z + 8)" "same_lib v3 v3' N"
    "\<And>x. x < p + 196 \<Longrightarrow> bytes v3' x = bytes v3 x" "rd (bytes v3') (p + 196) 4 = rd (bytes v3) (p + 136) 4"
    using sm by simp_all
  have "rd (bytes v3) (p + 136) 4 = rd (bytes ?v2) (p + 136) 4" by (rule rd_cong, rule v3(4)) simp
  then have id3: "rd (bytes v3) (p + 136) 4 = 1" by (simp add: rd_wr_same)
  have "rd (bytes v3') (p + 136) 4 = rd (bytes v3) (p + 136) 4" by (rule rd_cong, rule s3(3)) simp
  then have id3': "rd (bytes v3') (p + 136) 4 = 1" "rd (bytes v3') (p + 196) 4 = 1" using id3 s3(4) by simp_all
  have sl: "same_lib v v3' N"
    by (rule same_lib_trans [OF v1(3) same_lib_trans [OF v2(3) same_lib_trans [OF s2(2) same_lib_trans [OF v3(3) s3(2)]]]])
  have mp: "memPtr v3' = ?mp" "pgSize v3' = pgSize v" using sl by (simp_all add: same_lib_def)
  have free3: "find (\<lambda>i. pg (bytes v3') (memPtr v3') i Free \<noteq> 0) [0..<N] = Some k"
    using free sl unfolding find_upt_Some same_lib_def by (metis less_trans)
  have k: "k < N" "0 < N" using free by (auto simp: find_upt_Some)
  have top3: "p + 196 + st + sizeof_SpaceNode \<le> memPtr v3' + MEMORY_START" using size(3) mp(1) by simp
  let ?f = "frame ?mp (pgSize v) 0"
  obtain v4 where v4: "allocate_request (\<lambda>_. None) e v3' 0 (int 1) = retn (v4, ?mp)" "lib_objs v4 N ?os3 (p + 196 + st) (z + 8)"
    "memPtr v4 = ?mp" "pgSize v4 = pgSize v" "pg (bytes v4) ?mp 0 Pid = 1" "pg (bytes v4) ?mp 0 Free = 0"
    "pg (bytes v4) ?mp 0 Order = pg (bytes v3') ?mp k Order" "rep (bytes v4) ?f [(?f, True, pgSize v - sizeof_SpaceNode)]"
    "\<And>j f. 0 < j \<Longrightarrow> j < N \<Longrightarrow> j \<noteq> k \<Longrightarrow> pg (bytes v4) ?mp j f = pg (bytes v3') ?mp j f"
    "\<And>x. ?mp + OSRESERVED_START \<le> x \<Longrightarrow> x < ?mp + MEMORY_START \<Longrightarrow> bytes v4 x = bytes v3' x"
    by (rule page_objs [OF s3(1) free3 _ _ top3, where n = 1 and e = e and sz = 0 and boot = "\<lambda>_. None", unfolded mp]) auto
  have id4: "rd (bytes v4) (p + 136) 4 = 1" "rd (bytes v4) (p + 196) 4 = 1"
  proof -
    have "rd (bytes v4) y 4 = rd (bytes v3') y 4" if "p \<le> y" "y + 4 \<le> p + 196 + st" for y
      by (rule rd_cong, rule v4(10)) (use that p size(3) in auto)
    then show "rd (bytes v4) (p + 136) 4 = 1" "rd (bytes v4) (p + 196) 4 = 1"
      using id3' by (simp_all add: st sizeof_sthread_def)
  qed
  show ?thesis
  proof (rule that [OF v1(1) v2(1) v3(1) id3'(1) [unfolded v3'_def] v4(1) [unfolded v3'_def] v4(2-6) _ v4(8) _ id4])
    show "pg (bytes v4) ?mp 0 Order = pg (bytes v) ?mp k Order" using v4(7) sl k(1) by (simp add: same_lib_def)
    show "pg (bytes v4) ?mp j f = pg (bytes v) ?mp j f" if "0 < j" "j < N" "j \<noteq> k" for j f
      using v4(9) [OF that] sl that(2) by (simp add: same_lib_def)
  qed
qed

lemma initOS_memory_objs:
  assumes p: "p = memPtr v + OSRESERVED_START" and st: "st = sizeof_sthread e" "ss = sizeofSigaction e" "ti = sizeofItimerval e"
    and v: "lib_objs v N [] p (z + ti + ss + 4 + 8 + st + 4 + 24)"
    and free: "find (\<lambda>i. pg (bytes v) (memPtr v) i Free \<noteq> 0) [0..<N] = Some k"
    and size: "140 \<le> ss" "32 \<le> ti" "sizeof_SpaceNode < z" "p + z + st + ss + ti + 1000 < 2 ^ 64"
    and top: "boot_end e p + sizeof_SpaceNode \<le> memPtr v + MEMORY_START"
  obtains v' where "initOS_memory e v = retn (v', \<lparr>obj_run = p + 56, obj_nextId = p + 136, obj_mainThread = p + 196,
      obj_running = p + 252 + st, obj_nSchedulings = p + 316 + st, obj_sa = p + 376 + st, obj_timer = p + 432 + st + ss\<rparr>)"
    "lib_objs v' N (boot_objects e p) (boot_end e p) z" "memPtr v' = memPtr v" "pgSize v' = pgSize v"
    "runningId v' = Some 1" "rd (bytes v') (p + 136) 4 = 2" "rd (bytes v') (p + 252 + st) 8 = p + 196"
    "pg (bytes v') (memPtr v) 0 Pid = 1" "pg (bytes v') (memPtr v) 0 Free = 0"
    "pg (bytes v') (memPtr v) 0 Order = pg (bytes v) (memPtr v) k Order"
    "rep (bytes v') (frame (memPtr v) (pgSize v) 0) [(frame (memPtr v) (pgSize v) 0, True, pgSize v - sizeof_SpaceNode)]"
    "\<And>j f. 0 < j \<Longrightarrow> j < N \<Longrightarrow> j \<noteq> k \<Longrightarrow> pg (bytes v') (memPtr v) j f = pg (bytes v) (memPtr v) j f"
proof -
  let ?mp = "memPtr v" and ?f = "frame (memPtr v) (pgSize v) 0" and ?os3 = "[(p, 24), (p + 80, 4), (p + 140, st)]"
  have b: "boot_end e p = p + 432 + st + ss + ti" by (simp add: boot_end_def st)
  have k: "k < N" "0 < N" using free by (auto simp: find_upt_Some)
  obtain v1 v2 v3 v4 where h: "os_alloc e v 24 = retn (v1, p + 56)" "os_new e v1 4 = retn (v2, p + 136)"
    "os_new e (store v2 (p + 136) 4 1) st = retn (v3, p + 196)" "rd (bytes (set_main e v3 (p + 136) (p + 196))) (p + 136) 4 = 1"
    "allocate_request (\<lambda>_. None) e (set_main e v3 (p + 136) (p + 196)) 0 (int 1) = retn (v4, ?mp)"
    and v4: "lib_objs v4 N ?os3 (p + 196 + st) (z + ti + ss + 4 + 8)" "memPtr v4 = ?mp" "pgSize v4 = pgSize v"
    "pg (bytes v4) ?mp 0 Pid = 1" "pg (bytes v4) ?mp 0 Free = 0" "pg (bytes v4) ?mp 0 Order = pg (bytes v) ?mp k Order"
    "rep (bytes v4) ?f [(?f, True, pgSize v - sizeof_SpaceNode)]"
    "\<And>j f. 0 < j \<Longrightarrow> j < N \<Longrightarrow> j \<noteq> k \<Longrightarrow> pg (bytes v4) ?mp j f = pg (bytes v) ?mp j f"
    and id4: "rd (bytes v4) (p + 136) 4 = 1" "rd (bytes v4) (p + 196) 4 = 1"
    by (rule boot_head [OF p st(1) v free]) (use size top in \<open>auto simp: b\<close>)
  let ?v4 = "store v4 (p + 136) 4 2"
  have s4: "lib_objs ?v4 N ?os3 (p + 196 + st) (z + ti + ss + 4 + 8)" "same_lib v4 ?v4 N"
    using store_objs [OF v4(1), of "p + 80" 4 "p + 136" 4 2] by simp_all
  have t4: "rd (bytes ?v4) (p + 196) 4 = 1" "p + 196 + 4 \<le> p + 196 + st" using id4(2) by (simp_all add: rd_wr_other st(1) sizeof_sthread_def)
  show ?thesis
  proof (rule boot_tail [OF s4(1) st(2,3) size(1-3) _ t4])
    show "p + 196 + st + z + ss + ti + 500 < 2 ^ 64" "p + 196 < 2 ^ 64" using size(4) by simp_all
    fix v5 v6 v7
    assume v5: "os_new e ?v4 8 = retn (v5, p + 196 + st + 56)" "rd (bytes (store v5 (p + 196 + st + 56) 8 (p + 196))) (p + 196) 4 = 1"
      and v6: "os_new e ((store v5 (p + 196 + st + 56) 8 (p + 196))\<lparr>runningId := Some 1\<rparr>) 4 = retn (v6, p + 196 + st + 120)"
      and v7: "setMyScheduler e (store v6 (p + 196 + st + 120) 4 0) (p + 196 + st + 120) = retn (v7, p + 196 + st + 180, p + 196 + st + 236 + ss)"
        "lib_objs v7 N (?os3 @ [(p + 196 + st, 8), (p + 196 + st + 64, 4), (p + 196 + st + 124, ss), (p + 196 + st + 180 + ss, ti)])
          (p + 196 + st + 236 + ss + ti) z" "memPtr v7 = memPtr ?v4" "pgSize v7 = pgSize ?v4" "runningId v7 = Some 1"
        "rd (bytes v7) (p + 196 + st + 56) 8 = p + 196"
        "\<And>i f. i < N \<Longrightarrow> pg (bytes v7) (memPtr ?v4) i f = pg (bytes ?v4) (memPtr ?v4) i f"
        "\<And>x. x < p + 196 + st \<or> p + 196 + st + 292 + ss + ti \<le> x \<Longrightarrow> bytes v7 x = bytes ?v4 x"
    have pg7: "pg (bytes v7) ?mp i f = pg (bytes v4) ?mp i f" if "i < N" for i f
      using v7(7) [OF that] s4(2) that v4(2) by (simp add: same_lib_def)
    show ?thesis
    proof (rule that [of v7])
      show "initOS_memory e v = retn (v7, \<lparr>obj_run = p + 56, obj_nextId = p + 136, obj_mainThread = p + 196,
          obj_running = p + 252 + st, obj_nSchedulings = p + 316 + st, obj_sa = p + 376 + st, obj_timer = p + 432 + st + ss\<rparr>)"
        using h v5 v6 v7(1) id4(1)
        by (simp add: initOS_memory_def Let_def st(1) [symmetric] s32_small ac_simps del: One_nat_def)
      show "lib_objs v7 N (boot_objects e p) (boot_end e p) z"
        using v7(2) by (simp add: boot_objects_def boot_end_def Let_def st [symmetric] ac_simps)
      show "memPtr v7 = memPtr v" "pgSize v7 = pgSize v" "runningId v7 = Some 1" using v7(3-5) v4(2,3) by simp_all
      have "rd (bytes v7) (p + 136) 4 = rd (bytes ?v4) (p + 136) 4" by (rule rd_cong, rule v7(8)) simp
      then show "rd (bytes v7) (p + 136) 4 = 2" by (simp add: rd_wr_same)
      show "rd (bytes v7) (p + 252 + st) 8 = p + 196" using v7(6) by (simp add: ac_simps)
      show "pg (bytes v7) ?mp 0 Pid = 1" "pg (bytes v7) ?mp 0 Free = 0" using pg7 [OF k(2)] v4(4,5) by simp_all
      show "pg (bytes v7) ?mp 0 Order = pg (bytes v) ?mp k Order" using pg7 [OF k(2)] v4(6) by simp
      have f: "bytes v7 x = bytes v4 x" if "?mp + MEMORY_START \<le> x" for x
        using v7(8) [of x] that top by (auto simp: b wr_other)
      have "rep (bytes v7) ?f [(?f, True, pgSize v - sizeof_SpaceNode)] \<longleftrightarrow> rep (bytes v4) ?f [(?f, True, pgSize v - sizeof_SpaceNode)]"
        by (rule rep_cong, rule get_eq_bytes, rule f) (simp add: frame_def)
      then show "rep (bytes v7) ?f [(?f, True, pgSize v - sizeof_SpaceNode)]" using v4(7) by blast
      show "pg (bytes v7) ?mp j f = pg (bytes v) ?mp j f" if "0 < j" "j < N" "j \<noteq> k" for j f
        using pg7 [OF that(2)] v4(8) [OF that] by simp
    qed
  qed
qed

section \<open>From the start\<close>

text \<open>
  What \<open>initOS\<close> leaves in the memory of \<open>init\<close>: the objects at their places in the region, the id of the
  running thread, the next id and the pointer to the running thread as stored there, and the page of thread 1 in the first frame.
  The size of the free space behind the objects counts the seven headers in front of it as free bytes: a split does not
  subtract the header it adds.
\<close>

definition boot_record :: "platform \<Rightarrow> addr \<Rightarrow> os_objects" where
  "boot_record e p =
     (let st = sizeof_sthread e
      in \<lparr>obj_run = p + 56, obj_nextId = p + 136, obj_mainThread = p + 196, obj_running = p + 252 + st,
          obj_nSchedulings = p + 316 + st, obj_sa = p + 376 + st, obj_timer = p + 432 + st + sizeofSigaction e\<rparr>)"

definition booted :: "platform \<Rightarrow> addr \<Rightarrow> nat \<Rightarrow> nat \<Rightarrow> vm \<Rightarrow> bool" where
  "booted e mp psz N v \<longleftrightarrow>
     memPtr v = mp \<and> pgSize v = psz \<and> runningId v = Some 1 \<and>
     (let p = mp + OSRESERVED_START; f = frame mp psz 0
      in lib_objs v N (boot_objects e p) (boot_end e p) (mp + MEMORY_START + 6 * sizeof_SpaceNode - boot_end e p) \<and>
         rd (bytes v) (obj_nextId (boot_record e p)) 4 = 2 \<and>
         rd (bytes v) (obj_running (boot_record e p)) 8 = obj_mainThread (boot_record e p) \<and>
         rep (bytes v) f [(f, True, psz - sizeof_SpaceNode)]) \<and>
     page_at (bytes v) mp N 1 1 = Some 0 \<and> page_at (bytes v) mp N 1 2 = None"

text \<open>The sizes of the library's structs: large enough for their fields, and small enough for the region.\<close>

definition sizes_ok :: "platform \<Rightarrow> bool" where
  "sizes_ok e \<longleftrightarrow> 140 \<le> sizeofSigaction e \<and> 32 \<le> sizeofItimerval e \<and>
     sizeofUcontext e + sizeofSigaction e + sizeofItimerval e \<le> 1000000"

lemma init_running: "init e v = retn v' \<Longrightarrow> runningId v' = runningId v"
  by (auto simp: init_def bindR_def setSIGSEGV_def writeSwap_def Let_def split: option.splits sum.splits if_splits)

lemma boot_fresh:
  assumes ok: "start_ok e v mp" "psz = sysPageSize e" "N = thread_frames psz" "(mp + MEMORY_START) mod psz = 0" "sizes_ok e"
  obtains v0 where "init e v = retn v0" "memPtr v0 = mp" "runningId v0 = runningId v"
    "\<forall>pr. \<exists>v'. initOS_memory e (v0\<lparr>prot := pr\<rparr>) = retn (v', boot_record e (mp + OSRESERVED_START)) \<and> booted e mp psz N v'"
proof -
  obtain v0 where v0: "init e v = retn v0" "memPtr v0 = mp" "pgSize v0 = psz" "vm_pages v0 N"
    "\<forall>i<N. pg (bytes v0) mp i Free = 1 \<and> pg (bytes v0) mp i Pid = 0 \<and> pg (bytes v0) mp i Order = 1"
    "rep (bytes v0) (mp + OSRESERVED_START) [(mp + OSRESERVED_START, True, MEMORY_START - OSRESERVED_START - sizeof_SpaceNode)]"
    by (rule init_spec [OF ok(1,2), folded ok(3)])
  define p st ss ti where d: "p = mp + OSRESERVED_START" "st = sizeof_sthread e" "ss = sizeofSigaction e" "ti = sizeofItimerval e"
  have sz: "140 \<le> ss" "32 \<le> ti" "st + ss + ti \<le> 1000056" using ok(5) by (simp_all add: sizes_ok_def d sizeof_sthread_def)
  define z where "z = 1097056 - (st + ss + ti)"
  have z: "z + ti + ss + 4 + 8 + st + 4 + 24 = 1097096" "mp + MEMORY_START + 6 * sizeof_SpaceNode - boot_end e p = z"
    "sizeof_SpaceNode < z" "p + z + st + ss + ti + 1000 < 2 ^ 64" "boot_end e p + sizeof_SpaceNode \<le> mp + MEMORY_START"
    using sz ok(1) by (simp_all add: z_def boot_end_def d(1) d(2-4) [symmetric] start_ok_def)
  have p: "4096 \<le> psz" "psz \<le> 65536" using ok(1,2) by (simp_all add: start_ok_def)
  then have N: "sizeof_SpaceNode * N \<le> OSRESERVED_START"
    using frames_in_le [of psz "PHYSICAL_SIZE - psz * 4 - MEMORY_START"] ok(3) by (simp add: thread_frames_def)
  have N0: "0 < N" using v0(4) by (simp add: pages_ok_def)
  have "\<exists>v'. initOS_memory e (v0\<lparr>prot := pr\<rparr>) = retn (v', boot_record e p) \<and> booted e mp psz N v'" for pr
  proof -
    let ?v = "v0\<lparr>prot := pr\<rparr>"
    have v: "p = memPtr ?v + OSRESERVED_START" "bytes ?v = bytes v0" "memPtr ?v = mp" "pgSize ?v = psz" using v0 d by simp_all
    have "objs (bytes ?v) p [] p (z + ti + ss + 4 + 8 + st + 4 + 24)"
      using v0(6) unfolding z(1) d(1) by (simp add: objs_def spaced_def)
    then have lo: "lib_objs ?v N [] p (z + ti + ss + 4 + 8 + st + 4 + 24)"
      using v0(2-4) ok(4) N d(1) by (simp add: lib_objs_def)
    have free: "find (\<lambda>i. pg (bytes ?v) (memPtr ?v) i Free \<noteq> 0) [0..<N] = Some 0"
      using v0(2) v0(5) [rule_format, OF N0] N0 by (simp add: find_upt_Some)
    show ?thesis
    proof (rule initOS_memory_objs [OF v(1) d(2-4) lo free sz(1,2) z(3,4)], unfold v(2-4))
      show "boot_end e p + sizeof_SpaceNode \<le> mp + MEMORY_START" by (rule z(5))
      fix v'
      let ?f = "frame mp psz 0"
      assume run: "initOS_memory e ?v = retn (v', \<lparr>obj_run = p + 56, obj_nextId = p + 136, obj_mainThread = p + 196,
          obj_running = p + 252 + st, obj_nSchedulings = p + 316 + st, obj_sa = p + 376 + st, obj_timer = p + 432 + st + ss\<rparr>)"
        and v': "lib_objs v' N (boot_objects e p) (boot_end e p) z" "memPtr v' = mp" "pgSize v' = psz" "runningId v' = Some 1"
          "rd (bytes v') (p + 136) 4 = 2" "rd (bytes v') (p + 252 + st) 8 = p + 196"
          "pg (bytes v') mp 0 Pid = 1" "pg (bytes v') mp 0 Free = 0" "pg (bytes v') mp 0 Order = pg (bytes v0) mp 0 Order"
          "rep (bytes v') ?f [(?f, True, psz - sizeof_SpaceNode)]"
        and oth: "\<And>j f. 0 < j \<Longrightarrow> j < N \<Longrightarrow> j \<noteq> 0 \<Longrightarrow> pg (bytes v') mp j f = pg (bytes v0) mp j f"
      have own: "owns (bytes v') mp 1 o' i \<longleftrightarrow> i = 0 \<and> o' = 1" if "i < N" for o' i
        using that v0(5) [rule_format, OF that] v'(7,9) oth [of i] by (cases "i = 0") (auto simp: owns_def s32_small)
      have "page_at (bytes v') mp N 1 1 = Some 0" "page_at (bytes v') mp N 1 2 = None"
        using own N0 by (simp_all add: page_at_def find_upt_Some find_upt_None)
      then have "booted e mp psz N v'"
        using v' unfolding booted_def d(1) [symmetric] Let_def z(2) by (simp add: boot_record_def Let_def d(2) [symmetric])
      moreover have "initOS_memory e ?v = retn (v', boot_record e p)"
        using run by (simp add: boot_record_def Let_def d(2,3) [symmetric])
      ultimately show ?thesis by blast
    qed
  qed
  then show ?thesis using that [OF v0(1,2) init_running [OF v0(1)]] d(1) by simp
qed

text \<open>The first allocation of \<open>initOS\<close> lays out the memory, if nothing has done so before.\<close>

lemma initOS_memory_fresh:
  assumes "memPtr v = 0" "init e v = retn v0" "memPtr v0 \<noteq> 0"
  shows "initOS_memory e v = initOS_memory e v0"
proof -
  have "os_alloc e v 24 = os_alloc e v0 24" using assms by (simp add: os_alloc_def allocate_request_def)
  then show ?thesis by (simp only: initOS_memory_def)
qed

lemma booted_running: "booted e mp psz N v \<Longrightarrow> v\<lparr>runningId := Some 1\<rparr> = v"
  by (simp add: booted_def)


lemma plain_start:
  "start_ok plain_platform ((example_vm zero_memory)\<lparr>memPtr := 0, swapBuf0 := 9000000\<rparr>) 4096"
  "4096 = sysPageSize plain_platform" "1438 = thread_frames 4096" "(4096 + MEMORY_START) mod 4096 = 0" "sizes_ok plain_platform"
  by (simp_all add: start_ok_def plain_platform_def example_vm_def thread_frames_def frames_in_def sizes_ok_def)


section \<open>The first malloc\<close>

lemma one_space:
  assumes "rep m f [(f, True, psz - sizeof_SpaceNode)]" "sizeof_SpaceNode < psz"
  shows "page_elems m f psz = [(f, True, psz - sizeof_SpaceNode)]"
proof -
  have "walk m f 0 psz = f # walk m (f + 56 + (psz - 56)) (0 + 56 + (psz - 56)) psz"
    using walk_step [of 0 psz m f] assms by simp
  also have "\<dots> = [f]" using assms(2) by (simp add: walk_stop)
  finally show ?thesis using assms(1) by (simp add: page_elems_def)
qed



end
