(* ===== verification/Swap_Out.thy ===== *)
theory Swap_Out
  imports Thread_Heap
begin

text \<open>
  Moving a page to the swap file: what \<open>fixSwapPtrs\<close> makes of the table of the file, where the page is stored,
  and what becomes of the thread that owned it.
\<close>

section \<open>The table of the swap file\<close>

text \<open>The fields of node \<open>j\<close> after \<open>fixSwapPtrs\<close>; those that are not pointers, and the end of the list, are as in the file.\<close>

definition fixed_field :: "memory \<Rightarrow> addr \<Rightarrow> addr \<Rightarrow> nat \<Rightarrow> nat \<Rightarrow> nat \<Rightarrow> field \<Rightarrow> nat" where
  "fixed_field m base p0 psz N j f =
     (case f of
        Start \<Rightarrow> p0 + psz * j
      | Prev \<Rightarrow> prev_node base j
      | Next \<Rightarrow> if Suc j < N then node base (Suc j) else pg m base j Next
      | _ \<Rightarrow> pg m base j f)"

lemma fixSwapPtrs_stop:
  "\<not> (nodePtr < mx \<and> s < maxSize) \<Longrightarrow> fixSwapPtrs_loop m nodePtr ptr s old mx maxSize psz = m"
  by (subst fixSwapPtrs_loop.simps) (rule if_not_P)

lemma fixSwapPtrs_step:
  assumes "nodePtr < mx \<and> s < maxSize"
    and "m2 = (let m1 = put (put m Start nodePtr ptr) Prev nodePtr old in if old \<noteq> 0 then put m1 Next old nodePtr else m1)"
  shows "fixSwapPtrs_loop m nodePtr ptr s old mx maxSize psz =
    fixSwapPtrs_loop m2 (nodePtr + sizeof_SpaceNode) (ptr + psz) (s + psz) nodePtr mx maxSize psz"
  unfolding assms(2) using assms(1) by (subst fixSwapPtrs_loop.simps) (simp only: if_P Let_def)

lemma fixSwapPtrs_loop_spec:
  assumes base: "base \<noteq> 0" "node base N < 2 ^ 64" "p0 + psz * N < 2 ^ 64"
    and fills: "fills N base mx maxSize psz" and "i \<le> N"
    and m': "m' = fixSwapPtrs_loop m (node base i) (p0 + psz * i) (psz * i) (prev_node base i) mx maxSize psz"
  shows "(\<forall>j f. i \<le> j \<longrightarrow> j < N \<longrightarrow> pg m' base j f = fixed_field m base p0 psz N j f) \<and>
    (\<forall>j f. j < i \<longrightarrow> \<not> (Suc j = i \<and> f = Next) \<longrightarrow> pg m' base j f = pg m base j f) \<and>
    (0 < i \<longrightarrow> pg m' base (i - 1) Next = (if i < N then node base i else pg m base (i - 1) Next)) \<and>
    (\<forall>x. x < base \<or> node base N \<le> x \<longrightarrow> m' x = m x)"
  using assms(5) m'
proof (induction i arbitrary: m m' rule: inc_induct)
  case base
  have "m' = m" unfolding base by (rule fixSwapPtrs_stop) (use fills in \<open>simp add: fills_def\<close>)
  then show ?case by simp
next
  case (step i)
  let ?old = "prev_node base i"
  define m1 where "m1 = put (put m Start (node base i) (p0 + psz * i)) Prev (node base i) ?old"
  define m2 where "m2 = (if ?old \<noteq> 0 then put m1 Next ?old (node base i) else m1)"
  have go: "node base i < mx \<and> psz * i < maxSize" using fills step.hyps(2) by (simp add: fills_def)
  have nxt: "node base i + 56 = node base (Suc i)" "p0 + psz * i + psz = p0 + psz * Suc i"
    "psz * i + psz = psz * Suc i" "prev_node base (Suc i) = node base i"
    by (simp_all add: node_def prev_node_def)
  have run: "m' = fixSwapPtrs_loop m2 (node base (Suc i)) (p0 + psz * Suc i) (psz * Suc i)
      (prev_node base (Suc i)) mx maxSize psz"
    unfolding step.prems nxt(4) using fixSwapPtrs_step [OF go refl, where old = ?old and m = m]
    by (simp only: nxt(1-3) m1_def m2_def Let_def)
  note IH = step.IH [OF run]
  have lt: "node base i < 2 ^ 64" "p0 + psz * i < 2 ^ 64" "?old < 2 ^ 64"
  proof -
    have "psz * i \<le> psz * N" using step.hyps(2) by (intro mult_le_mono2) simp
    then show "p0 + psz * i < 2 ^ 64" using base(3) by linarith
    show "node base i < 2 ^ 64" using step.hyps(2) base(2) by (simp add: node_def)
    then show "?old < 2 ^ 64" by (auto simp: prev_node_def node_def)
  qed
  have m1j: "pg m1 base j f = (if j = i \<and> f = Start then p0 + psz * i else if j = i \<and> f = Prev then ?old else pg m base j f)" for j f
    using lt by (simp add: m1_def pg_put)
  have m2j: "pg m2 base j f = (if Suc j = i \<and> f = Next then node base i else pg m1 base j f)" for j f
    using lt(1) \<open>base \<noteq> 0\<close> by (cases i) (auto simp: m2_def prev_node_def pg_put)
  have out: "m2 x = m x" if "x < base \<or> node base N \<le> x" for x
  proof -
    have "sizeof_SpaceNode * Suc i \<le> sizeof_SpaceNode * N" using step.hyps(2) by (intro mult_le_mono2) simp
    then have "x < node base i \<or> node base i + 56 \<le> x" "x < ?old \<or> ?old + 56 \<le> x \<or> ?old = 0"
      using that by (auto simp: node_def prev_node_def)
    then show ?thesis by (auto simp: m2_def m1_def put_outside)
  qed
  have "pg m' base j f = fixed_field m base p0 psz N j f" if j: "i \<le> j" "j < N" for j f
  proof (cases "j = i")
    case True
    then have "pg m' base i f = (if f = Next \<and> Suc i < N then node base (Suc i) else pg m2 base i f)"
      using IH by (cases "f = Next") auto
    then show ?thesis using True m2j [of f i] m1j [of f i] by (cases f) (auto simp: fixed_field_def)
  next
    case False
    then show ?thesis using IH j m2j [of _ j] m1j [of _ j] by (cases f) (auto simp: fixed_field_def)
  qed
  moreover have "pg m' base j f = pg m base j f" if "j < i" "\<not> (Suc j = i \<and> f = Next)" for j f
    using IH that m2j [of f j] m1j [of f j] by auto
  moreover have "pg m' base (i - 1) Next = node base i" if "0 < i"
    using IH that m2j [of Next "i - 1"] by auto
  ultimately show ?case using IH out step.hyps(2) by auto
qed

text \<open>
  The file has been written before, its table ends with its last node, and the static buffer it is read into lies
  outside the memory.
\<close>

definition swap_ok :: "vm \<Rightarrow> memory \<Rightarrow> bool" where
  "swap_ok v img \<longleftrightarrow>
     swapFile v = Some img \<and> swapWritable v \<and> pg img 0 (swap_frames (pgSize v) - 1) Next = 0 \<and>
     4096 \<le> pgSize v \<and> pgSize v \<le> 65536 \<and> swapBuf v \<noteq> 0 \<and> swapBuf v + SWAP_SIZE < 2 ^ 64 \<and>
     (swapBuf v + SWAP_SIZE \<le> memPtr v \<or> memPtr v + PHYSICAL_SIZE \<le> swapBuf v)"

lemma swap_frames_bounds:
  assumes "4096 \<le> psz" "psz \<le> 65536"
  shows "0 < swap_frames psz" "swap_frames psz \<le> 1442" "SWAP_MEMORY_START + psz * swap_frames psz \<le> SWAP_SIZE"
proof -
  show "0 < swap_frames psz" using assms by (simp add: swap_frames_def frames_in_def div_greater_zero_iff)
  show "swap_frames psz \<le> 1442" unfolding swap_frames_def by (rule frames_in_le) (use assms in auto)
  have "psz * swap_frames psz \<le> SWAP_SIZE - (SWAP_MEMORY_START + psz) + psz"
    unfolding swap_frames_def frames_in_def by (rule order.trans [OF times_div_less_eq_dividend]) simp
  then show "SWAP_MEMORY_START + psz * swap_frames psz \<le> SWAP_SIZE" using assms by simp
qed

lemma getSwap_spec:
  assumes ok: "swap_ok v img" and M: "M = swap_frames (pgSize v)" and B: "B = swapBuf v"
  obtains m where "getSwap v B = (v\<lparr>bytes := m\<rparr>, 0)" "\<And>x. x < B \<or> B + SWAP_SIZE \<le> x \<Longrightarrow> m x = bytes v x"
    "\<And>i f. i < M \<Longrightarrow> f \<notin> {Start, Next, Prev} \<Longrightarrow> pg m B i f = pg img 0 i f"
    "\<And>i. i < M \<Longrightarrow> pg m B i Start = B + SWAP_MEMORY_START + pgSize v * i"
    "\<And>x. SWAP_MEMORY_START \<le> x \<Longrightarrow> x < SWAP_SIZE \<Longrightarrow> m (B + x) = img x"
    "chain (get m Next) B (nodes B M)"
proof -
  let ?psz = "pgSize v"
  have p: "4096 \<le> ?psz" "?psz \<le> 65536" "B \<noteq> 0" "B + 4000000 < 2 ^ 64" "swapFile v = Some img" "pg img 0 (M - 1) Next = 0"
    using ok by (simp_all add: swap_ok_def B M)
  note b = swap_frames_bounds [OF p(1,2), folded M]
  define m0 where "m0 = copy_in (bytes v) B img SWAP_SIZE"
  define m where "m = fixSwapPtrs m0 ?psz B"
  have sub: "sub64 SWAP_SIZE (SWAP_MEMORY_START + ?psz) = SWAP_SIZE - (SWAP_MEMORY_START + ?psz)"
    using p by (simp add: cint_simps)
  have node: "node B i \<le> B + 80752" if "i \<le> M" for i using that b(2) by (simp add: node_def)
  have fills: "fills M B (B + SWAP_MEMORY_START - sizeof_SpaceNode) (SWAP_SIZE - (SWAP_MEMORY_START + ?psz)) ?psz"
  proof (rule fills_by_size)
    show "\<forall>i<M. node B i < B + SWAP_MEMORY_START - sizeof_SpaceNode"
    proof (intro allI impI)
      fix i
      assume "i < M"
      then show "node B i < B + SWAP_MEMORY_START - sizeof_SpaceNode" using node [of i] by simp
    qed
  qed (use p(1) in \<open>simp_all add: M swap_frames_def frames_in_def\<close>)
  have "m = fixSwapPtrs_loop m0 (node B 0) (B + SWAP_MEMORY_START + ?psz * 0) (?psz * 0) (prev_node B 0)
      (B + SWAP_MEMORY_START - sizeof_SpaceNode) (SWAP_SIZE - (SWAP_MEMORY_START + ?psz)) ?psz"
    by (simp add: m_def fixSwapPtrs_def sub prev_node_def)
  note spec = fixSwapPtrs_loop_spec [OF p(3) _ _ fills _ this]
  have m: "(\<forall>j f. j < M \<longrightarrow> pg m B j f = fixed_field m0 B (B + SWAP_MEMORY_START) ?psz M j f) \<and>
      (\<forall>x. x < B \<or> node B M \<le> x \<longrightarrow> m x = m0 x)"
    using spec b(3) node [of M] p(4) by simp
  have m0: "pg m0 B i f = pg img 0 i f" if "i < M" for i f
    using node [of "Suc i"] that by (simp add: m0_def sn.gt_copy_in_inside node_def)
  show ?thesis
  proof (rule that [of m])
    show "getSwap v B = (v\<lparr>bytes := m\<rparr>, 0)" using p(5) by (simp add: getSwap_def m_def m0_def)
    show "m x = bytes v x" if "x < B \<or> B + SWAP_SIZE \<le> x" for x
      using m that node [of M] by (auto simp: m0_def)
    show "pg m B i f = pg img 0 i f" if "i < M" "f \<notin> {Start, Next, Prev}" for i f
      using m that m0 [OF that(1)] by (cases f) (simp_all add: fixed_field_def)
    show "pg m B i Start = B + SWAP_MEMORY_START + ?psz * i" if "i < M" for i
      using m that by (simp add: fixed_field_def)
    show "m (B + x) = img x" if "SWAP_MEMORY_START \<le> x" "x < SWAP_SIZE" for x
      using m that node [of M] by (auto simp: m0_def)
    have "chain (get m Next) (if i < M then node B i else 0) (map (node B) [i..<M])" if "i \<le> M" for i
      using that
    proof (induction i rule: inc_induct)
      case (step i)
      then show ?case using m m0 [of i] p(3,6)
        by (cases "Suc i < M") (auto simp: upt_conv_Cons fixed_field_def not_less_eq less_Suc_eq)
    qed simp
    from this [of 0] show "chain (get m Next) B (nodes B M)" using b(1) by simp
  qed
qed

section \<open>Moving a page out\<close>

lemma put_pointwise: "m' x = m x \<Longrightarrow> put m' f p v x = put m f p v x"
proof -
  have "m' x = m x \<Longrightarrow> wr m' a n v x = wr m a n v x" for a n v
    by (induction n arbitrary: a v) simp_all
  then show "m' x = m x \<Longrightarrow> put m' f p v x = put m f p v x" by (simp add: put_def)
qed

lemma victim_other: "pg m mem (N - 1) Pid \<noteq> pid \<Longrightarrow> pages_ok m mem psz N \<Longrightarrow>
    getVictimPage m mem pid = retn (m, node mem (N - 1))"
  by (simp add: getVictimPage_def getLastPage_pages SWAP_STRATEGY_def victim_loop.simps)

text \<open>The page \<open>E\<close> stored in the slot \<open>F\<close> of the buffer at \<open>B\<close>.\<close>

definition stored :: "memory \<Rightarrow> addr \<Rightarrow> addr \<Rightarrow> nat \<Rightarrow> memory" where
  "stored m E F psz =
     (let m1 = put m Pid F (get m Pid E);
          m2 = put m1 Free F 0;
          m3 = put m2 Reference F (get m2 Reference E);
          m4 = put m3 DataStartsAnotherPage F (get m3 DataStartsAnotherPage E);
          m5 = put m4 Size F (get m4 Size E);
          m6 = put m5 Order F (get m5 Order E)
      in memcpy m6 (get m6 Start F) (get m6 Start E) psz)"

lemma stored_fields:
  assumes "napart E F" "get m Start F = to" "get m Start E = from" "disjnt F 56 from psz" "m' = stored m E F psz"
  shows "x < F \<or> F + 56 \<le> x \<Longrightarrow> x < to \<or> to + psz \<le> x \<Longrightarrow> m' x = m x"
    and "disjnt F 56 to psz \<Longrightarrow> get m' f F =
      (if f = Free then 0 else if f \<in> {Pid, Reference, DataStartsAnotherPage, Size, Order} then get m f E else get m f F)"
    and "x < psz \<Longrightarrow> m' (to + x) = m (from + x)"
proof -
  define m6 where "m6 = put (put (put (put (put (put m Pid F (get m Pid E)) Free F 0) Reference F (get m Reference E))
     DataStartsAnotherPage F (get m DataStartsAnotherPage E)) Size F (get m Size E)) Order F (get m Order E)"
  have m': "m' = memcpy m6 to from psz"
    using assms by (simp add: stored_def Let_def m6_def)
  have out: "m6 x = m x" if "x < F \<or> F + 56 \<le> x" for x using that by (simp add: m6_def put_outside)
  show "m' x = m x" if "x < F \<or> F + 56 \<le> x" "x < to \<or> to + psz \<le> x"
    using that out by (simp add: m' memcpy_def)
  show "get m' f F = (if f = Free then 0 else if f \<in> {Pid, Reference, DataStartsAnotherPage, Size, Order} then get m f E else get m f F)"
    if "disjnt F 56 to psz"
  proof -
    have "get m' f F = get m6 f F" using that unfolding m' memcpy_def by (intro get_copy_in_outside) (auto simp: disjnt_def)
    then show ?thesis by (cases f) (simp_all add: m6_def)
  qed
  show "m' (to + x) = m (from + x)" if "x < psz"
    using that out [of "from + x"] assms(4) by (auto simp: m' memcpy_def disjnt_def)
qed

text \<open>What holds of the file afterwards: the page is in slot \<open>k\<close>, the other slots are as they were.\<close>

definition saved :: "memory \<Rightarrow> memory \<Rightarrow> memory \<Rightarrow> addr \<Rightarrow> addr \<Rightarrow> nat \<Rightarrow> nat \<Rightarrow> bool" where
  "saved m img img' E from psz k \<longleftrightarrow>
     (\<forall>f\<in>{Pid, Reference, DataStartsAnotherPage, Size, Order}. pg img' 0 k f = get m f E) \<and> pg img' 0 k Free = 0 \<and>
     (\<forall>x<psz. img' (SWAP_MEMORY_START + psz * k + x) = m (from + x)) \<and>
     (\<forall>i < swap_frames psz. i \<noteq> k \<longrightarrow>
        (\<forall>f. f \<notin> {Start, Next, Prev} \<longrightarrow> pg img' 0 i f = pg img 0 i f) \<and>
        (\<forall>x<psz. img' (SWAP_MEMORY_START + psz * i + x) = img (SWAP_MEMORY_START + psz * i + x)))"

lemma stored_saved:
  assumes psz: "4096 \<le> psz" "psz \<le> 65536" and k: "k < swap_frames psz"
    and E: "E + 56 \<le> B \<or> B + SWAP_SIZE \<le> E" "from + psz \<le> B \<or> B + SWAP_SIZE \<le> from" "get m Start E = from"
    and m: "\<And>i f. i < swap_frames psz \<Longrightarrow> f \<notin> {Start, Next, Prev} \<Longrightarrow> pg m B i f = pg img 0 i f"
      "\<And>i. i < swap_frames psz \<Longrightarrow> pg m B i Start = B + SWAP_MEMORY_START + psz * i"
      "\<And>x. SWAP_MEMORY_START \<le> x \<Longrightarrow> x < SWAP_SIZE \<Longrightarrow> m (B + x) = img x"
    and m': "m' = stored m E (node B k) psz"
  shows "saved m img (copy_out m' B) E from psz k"
    and "x < B \<or> B + SWAP_SIZE \<le> x \<Longrightarrow> m' x = m x"
proof -
  let ?F = "node B k" and ?to = "B + SWAP_MEMORY_START + psz * k"
  note b = swap_frames_bounds [OF psz]
  have node: "node B i + 56 \<le> B + 80752" "B \<le> node B i" if "i < swap_frames psz" for i
  proof -
    have "56 * Suc i \<le> 56 * 1442" using that b(2) by (intro mult_le_mono2) simp
    then show "node B i + 56 \<le> B + 80752" "B \<le> node B i" by (simp_all add: node_def)
  qed
  have slot: "SWAP_MEMORY_START + psz * i + psz \<le> SWAP_SIZE" if "i < swap_frames psz" for i
  proof -
    have "psz * Suc i \<le> psz * swap_frames psz" using that by (intro mult_le_mono2) simp
    then show ?thesis using b(3) by simp
  qed
  have "napart E ?F" "disjnt ?F 56 from psz" "disjnt ?F 56 ?to psz"
    using E node [OF k] slot [OF k] by (auto simp: apart_def disjnt_def)
  note st = stored_fields [OF this(1) m(2) [OF k] E(3) this(2) m'] and Fto = this(3)
  have img: "pg (copy_out m' B) 0 i f = pg m' B i f" for i f by (simp add: sn.gt_copy_out node_def)
  have other: "pg m' B i f = pg m B i f" if "i < swap_frames psz" "i \<noteq> k" for i f
  proof (rule get_eq_bytes, rule st(1))
    fix x
    assume x: "node B i \<le> x" "x < node B i + sizeof_SpaceNode"
    show "x < ?F \<or> ?F + 56 \<le> x" using x node_apart [OF that(2), of B] by (auto simp: apart_def)
    show "x < ?to \<or> ?to + psz \<le> x" using x node [OF that(1)] by simp
  qed
  have data: "m' (B + SWAP_MEMORY_START + psz * i + x) = m (B + SWAP_MEMORY_START + psz * i + x)"
    if "i < swap_frames psz" "i \<noteq> k" "x < psz" for i x
  proof (rule st(1))
    have "psz * Suc i \<le> psz * k \<or> psz * Suc k \<le> psz * i" using that(2) by (metis Suc_leI linorder_neqE_nat mult_le_mono2)
    then show "B + SWAP_MEMORY_START + psz * i + x < ?to \<or> ?to + psz \<le> B + SWAP_MEMORY_START + psz * i + x"
      using that(3) by auto
    show "B + SWAP_MEMORY_START + psz * i + x < ?F \<or> ?F + 56 \<le> B + SWAP_MEMORY_START + psz * i + x"
      using node [OF k] by simp
  qed
  show "saved m img (copy_out m' B) E from psz k"
    unfolding saved_def img copy_out_apply
  proof (intro conjI ballI allI impI)
    show "m' (B + (SWAP_MEMORY_START + psz * i + x)) = img (SWAP_MEMORY_START + psz * i + x)"
      if "i < swap_frames psz" "i \<noteq> k" "x < psz" for i x
      using data [OF that] m(3) [of "SWAP_MEMORY_START + psz * i + x"] slot [OF that(1)] that(3) by (simp add: add.assoc)
    show "m' (B + (SWAP_MEMORY_START + psz * k + x)) = m (from + x)" if "x < psz" for x
      using st(3) [OF that] by (simp add: add.assoc)
  qed (use st(2) [OF Fto] other m(1) in auto)
  show "m' x = m x" if "x < B \<or> B + SWAP_SIZE \<le> x"
    by (rule st(1)) (use that node [OF k] slot [OF k] in auto)
qed

lemma movePageToSwap_spec:
  assumes ok: "vm_pages v N" "swap_ok v img" "frame (memPtr v) (pgSize v) N \<le> memPtr v + PHYSICAL_SIZE"
    and E: "E = node (memPtr v) (N - 1)" "get (bytes v) Pid E \<noteq> pid" "get (bytes v) Free E = 0"
    and k: "find (\<lambda>i. pg img 0 i Free \<noteq> 0) [0..<swap_frames (pgSize v)] = Some k"
  obtains v' img' where "movePageToSwap v pid = retn (v', 0)" "swapFile v' = Some img'" "memPtr v' = memPtr v" "pgSize v' = pgSize v"
    "saved (bytes v) img img' E (frame (memPtr v) (pgSize v) (N - 1)) (pgSize v) k"
    "\<And>x. memPtr v \<le> x \<Longrightarrow> x < memPtr v + PHYSICAL_SIZE \<Longrightarrow> bytes v' x = put (put (bytes v) Free E 1) Pid E 0 x"
proof -
  let ?mp = "memPtr v" and ?psz = "pgSize v" and ?B = "swapBuf v"
  let ?from = "frame ?mp ?psz (N - 1)"
  have N: "0 < N" using ok(1) by (simp add: pages_ok_def)
  have p: "4096 \<le> ?psz" "?psz \<le> 65536" "?B + SWAP_SIZE \<le> ?mp \<or> ?mp + PHYSICAL_SIZE \<le> ?B" "swapWritable v"
    "?B \<noteq> 0" using ok(2) by (simp_all add: swap_ok_def)
  have kM: "k < swap_frames ?psz" using k by (simp add: find_upt_Some)
  obtain m where m: "getSwap v ?B = (v\<lparr>bytes := m\<rparr>, 0)" "\<And>x. x < ?B \<or> ?B + SWAP_SIZE \<le> x \<Longrightarrow> m x = bytes v x"
    "\<And>i f. i < swap_frames ?psz \<Longrightarrow> f \<notin> {Start, Next, Prev} \<Longrightarrow> pg m ?B i f = pg img 0 i f"
    "\<And>i. i < swap_frames ?psz \<Longrightarrow> pg m ?B i Start = ?B + SWAP_MEMORY_START + ?psz * i"
    "\<And>x. SWAP_MEMORY_START \<le> x \<Longrightarrow> x < SWAP_SIZE \<Longrightarrow> m (?B + x) = img x"
    "chain (get m Next) ?B (nodes ?B (swap_frames ?psz))"
    by (rule getSwap_spec [OF ok(2) refl refl]) blast
  have mem: "m x = bytes v x" if "?mp \<le> x" "x < ?mp + PHYSICAL_SIZE" for x using m(2) p(3) that by auto
  have fr: "?from + ?psz \<le> ?mp + PHYSICAL_SIZE"
  proof -
    have "?psz * N = ?psz * (N - 1) + ?psz" using N by (cases N) simp_all
    then show ?thesis using ok(3) by (simp add: frame_def)
  qed
  have Eb: "?mp \<le> E" "E + 56 \<le> ?mp + PHYSICAL_SIZE"
    using node_bytes [OF ok(1), of "N - 1" 55 "N - 1"] N fr by (simp_all add: E(1) node_def)
  have getE: "get m f E = get (bytes v) f E" for f by (rule get_eq_bytes, rule mem) (use Eb in auto)
  let ?F = "node ?B k"
  have "find (\<lambda>i. get m Free (node ?B i) \<noteq> 0) [0..<swap_frames ?psz] = Some k"
    using k m(3) [where f = Free] by (simp add: find_upt_Some)
  then have search: "search (get m Next) (\<lambda>n. get m Free n \<noteq> 0) ?B = retn ?F"
    using search_chain [OF m(6)] by (simp add: first_match_def find_map_comp)
  define m' where "m' = stored m E ?F ?psz"
  have st: "get m Start E = ?from" using getE pages_okD(9) [OF ok(1)] N by (simp add: E(1))
  have "E + 56 \<le> ?B \<or> ?B + SWAP_SIZE \<le> E" "?from + ?psz \<le> ?B \<or> ?B + SWAP_SIZE \<le> ?from"
    using Eb fr p(3) by (auto simp: frame_def)
  note sv = stored_saved [OF p(1,2) kM this st m(3-5) m'_def]
  have "get m' f E = get (bytes v) f E" for f
    using get_eq_bytes [of E m' m f] sv(2) Eb p(3) getE by fastforce
  then have rm: "removeSpace m' E PAGE = retn (put (put m' Free E 1) Pid E 0)"
    using E(3) node_nonzero [OF ok(1), of "N - 1"] by (simp add: removeSpace_page E(1))
  let ?v = "v\<lparr>swapFile := Some (copy_out m' ?B), bytes := put (put m' Free E 1) Pid E 0\<rparr>"
  have run: "movePageToSwap v pid = retn (?v, 0)"
    using victim_other [of "bytes v" ?mp N pid ?psz] ok(1) E node_nonzero [OF ok(1), of "N - 1"] m(1) search rm p(4,5)
    by (simp add: movePageToSwap_def Let_def writeSwap_def m'_def stored_def)
  have "saved (bytes v) img (copy_out m' ?B) E ?from ?psz k"
    using sv(1) getE mem fr unfolding saved_def by (simp add: frame_def)
  moreover have "put (put m' Free E 1) Pid E 0 x = put (put (bytes v) Free E 1) Pid E 0 x" if "?mp \<le> x" "x < ?mp + PHYSICAL_SIZE" for x
    by (intro put_pointwise) (use sv(2) [of x] mem that p(3) in auto)
  ultimately show ?thesis using that [OF run] by simp
qed

text \<open>The page table afterwards: the page \<open>N - 1\<close> is free and owned by nobody.\<close>

lemma movePageToSwap_table:
  assumes ok: "vm_pages v N" "swap_ok v img" "frame (memPtr v) (pgSize v) N \<le> memPtr v + PHYSICAL_SIZE"
    and E: "E = node (memPtr v) (N - 1)" "get (bytes v) Pid E \<noteq> pid" "get (bytes v) Free E = 0"
    and k: "find (\<lambda>i. pg img 0 i Free \<noteq> 0) [0..<swap_frames (pgSize v)] = Some k"
  obtains v' img' where "movePageToSwap v pid = retn (v', 0)" "swapFile v' = Some img'" "memPtr v' = memPtr v" "pgSize v' = pgSize v"
    "saved (bytes v) img img' E (frame (memPtr v) (pgSize v) (N - 1)) (pgSize v) k"
    "\<And>x. memPtr v \<le> x \<Longrightarrow> x < memPtr v + PHYSICAL_SIZE \<Longrightarrow> x < E \<or> E + sizeof_SpaceNode \<le> x \<Longrightarrow> bytes v' x = bytes v x"
    "vm_pages v' N"
    "\<And>i f. i < N \<Longrightarrow> pg (bytes v') (memPtr v) i f =
       (if i = N - 1 \<and> f = Free then 1 else if i = N - 1 \<and> f = Pid then 0 else pg (bytes v) (memPtr v) i f)"
proof -
  let ?m = "put (put (bytes v) Free E 1) Pid E 0"
  obtain v' img' where v': "movePageToSwap v pid = retn (v', 0)" "swapFile v' = Some img'" "memPtr v' = memPtr v" "pgSize v' = pgSize v"
    "saved (bytes v) img img' E (frame (memPtr v) (pgSize v) (N - 1)) (pgSize v) k"
    "\<And>x. memPtr v \<le> x \<Longrightarrow> x < memPtr v + PHYSICAL_SIZE \<Longrightarrow> bytes v' x = ?m x"
    by (rule movePageToSwap_spec [OF assms]) blast
  have N: "0 < N" using ok(1) by (simp add: pages_ok_def)
  have pages: "pages_ok ?m (memPtr v) (pgSize v) N"
    using pages_ok_put [OF pages_ok_put [OF ok(1), of Free "N - 1" 1], of Pid "N - 1" 0] N by (simp add: E)
  have same: "pg (bytes v') (memPtr v) i f = pg ?m (memPtr v) i f" if "i < N" for i f
  proof (rule get_eq_bytes, rule v'(6))
    fix x
    assume x: "node (memPtr v) i \<le> x" "x < node (memPtr v) i + sizeof_SpaceNode"
    then show "memPtr v \<le> x" by (simp add: node_def)
    have "sizeof_SpaceNode * Suc i \<le> sizeof_SpaceNode * N" using that by (intro mult_le_mono2) simp
    then show "x < memPtr v + PHYSICAL_SIZE" using x(2) ok(1,3) by (simp add: pages_ok_def node_def frame_def)
  qed
  show ?thesis
  proof (rule that [OF v'(1-5)])
    show "bytes v' x = bytes v x" if "memPtr v \<le> x" "x < memPtr v + PHYSICAL_SIZE" "x < E \<or> E + sizeof_SpaceNode \<le> x" for x
      using v'(6) that by (simp add: put_outside)
    show "vm_pages v' N" unfolding v'(3,4) by (rule pages_ok_cong [OF pages]) (rule same)
    show "pg (bytes v') (memPtr v) i f =
        (if i = N - 1 \<and> f = Free then 1 else if i = N - 1 \<and> f = Pid then 0 else pg (bytes v) (memPtr v) i f)" if "i < N" for i f
      using same [OF that] by (simp add: E pg_put)
  qed
qed

text \<open>
  C11. A page is taken from another thread when memory is full. Let every page be in use, the last one by another thread than
  \<open>pid\<close>, and let \<open>k\<close> be the first free slot of the swap file. Then \<open>getFreePage\<close> returns the first page node; slot \<open>k\<close> of the
  file is in use and holds the owner, order, flags and bytes of the page that was last, and all other slots are as before; the page in
  front belongs to \<open>pid\<close>, is in use, has the order of the page that was evicted and one free element; the page that was in
  front is now last, with its data.
\<close>

theorem getFreePage_evicts:
  assumes ok: "vm_pages v N" "1 < N" "swap_ok v img" "frame (memPtr v) (pgSize v) N \<le> memPtr v + PHYSICAL_SIZE"
    and used: "\<forall>i<N. pg (bytes v) (memPtr v) i Free = 0" and other: "pg (bytes v) (memPtr v) (N - 1) Pid \<noteq> pid" and pid: "pid < 2 ^ 32"
    and k: "find (\<lambda>i. pg img 0 i Free \<noteq> 0) [0..<swap_frames (pgSize v)] = Some k"
  shows "\<exists>v' img'. getFreePage junk v pid = retn (v', memPtr v) \<and> swapFile v' = Some img' \<and>
    saved (bytes v) img img' (node (memPtr v) (N - 1)) (frame (memPtr v) (pgSize v) (N - 1)) (pgSize v) k \<and>
    vm_pages v' N \<and> pg (bytes v') (memPtr v) 0 Pid = pid \<and> pg (bytes v') (memPtr v) 0 Free = 0 \<and>
    pg (bytes v') (memPtr v) 0 Order = pg (bytes v) (memPtr v) (N - 1) Order \<and>
    rep (bytes v') (frame (memPtr v) (pgSize v) 0) [(frame (memPtr v) (pgSize v) 0, True, pgSize v - sizeof_SpaceNode)] \<and>
    frame_moved (bytes v) (bytes v') (memPtr v) (pgSize v) (N - 1) 0"
proof -
  let ?mp = "memPtr v" and ?psz = "pgSize v" and ?E = "node (memPtr v) (N - 1)"
  have N: "N - 1 < N" "N - 1 \<noteq> 0" "0 < N" using ok(2) by simp_all
  obtain v1 img' where v1: "movePageToSwap v pid = retn (v1, 0)" "swapFile v1 = Some img'" "memPtr v1 = ?mp" "pgSize v1 = ?psz"
    "saved (bytes v) img img' ?E (frame ?mp ?psz (N - 1)) ?psz k"
    "\<And>x. ?mp \<le> x \<Longrightarrow> x < ?mp + PHYSICAL_SIZE \<Longrightarrow> x < ?E \<or> ?E + sizeof_SpaceNode \<le> x \<Longrightarrow> bytes v1 x = bytes v x"
    "vm_pages v1 N"
    "\<And>i f. i < N \<Longrightarrow> pg (bytes v1) ?mp i f =
       (if i = N - 1 \<and> f = Free then 1 else if i = N - 1 \<and> f = Pid then 0 else pg (bytes v) ?mp i f)"
    by (rule movePageToSwap_table [OF ok(1,3,4) refl other _ k]) (use used N in auto)
  have "find (\<lambda>i. pg (bytes v1) ?mp i Free \<noteq> 0) [0..<N] = Some (N - 1)"
    using v1(8) used N by (simp add: find_upt_Some)
  then obtain m' where m': "getFreePage junk v1 pid = retn (v1\<lparr>bytes := m'\<rparr>, ?mp)"
    "pages_ok m' ?mp ?psz N" "pg m' ?mp 0 Pid = pid" "pg m' ?mp 0 Free = 0" "pg m' ?mp 0 Order = pg (bytes v1) ?mp (N - 1) Order"
    "rep m' (frame ?mp ?psz 0) [(frame ?mp ?psz 0, True, ?psz - sizeof_SpaceNode)]"
    "moved (bytes v1) m' ?mp ?psz (N - 1) 0"
    using getFreePage_pages [OF v1(7), of "N - 1" pid junk] pid N unfolding v1(3,4) by auto
  have "findFreePage (bytes v) ?mp = retn 0"
  proof -
    have "find (\<lambda>i. pg (bytes v) ?mp i Free \<noteq> 0) [0..<N] = None" using used by (simp add: find_None_iff)
    then show ?thesis using findFreePage_pages [OF ok(1)] by simp
  qed
  then have "getFreePage junk v pid = retn (v1\<lparr>bytes := m'\<rparr>, ?mp)"
    using m'(1) v1(1) by (subst getFreePage.simps) (simp add: USE_SWAP_F_def)
  moreover have "frame_moved (bytes v) m' ?mp ?psz (N - 1) 0"
  proof (rule frame_moved_src_cong [OF moved_frame_moved [OF m'(7)]], rule v1(6))
    fix x
    assume x: "x < ?psz"
    show "?mp \<le> frame ?mp ?psz 0 + x" by (simp add: frame_def)
    have "?psz \<le> ?psz * N" using ok(2) by simp
    then show "frame ?mp ?psz 0 + x < ?mp + PHYSICAL_SIZE" using x ok(4) by (simp only: frame_def mult_0_right)
    show "frame ?mp ?psz 0 + x < ?E \<or> ?E + sizeof_SpaceNode \<le> frame ?mp ?psz 0 + x"
      using node_frame_disjnt [OF ok(1) N(1), of 0 "Suc x"] by (auto simp: disjnt_def)
  qed
  ultimately show ?thesis using v1 m' N by (intro exI [of _ "v1\<lparr>bytes := m'\<rparr>"] exI [of _ img']) simp
qed

text \<open>
  C32. A thread whose first page is swapped out is lost. If the page evicted is the only first page of the thread \<open>q\<close>, then it
  is in the swap file under that owner, and yet loading the pages of \<open>q\<close> dereferences \<open>NULL\<close>: with \<open>USE_FIND_IN_SWAP\<close> set to 0
  nothing looks for it there.
\<close>

theorem swapped_thread_lost:
  assumes ok: "vm_pages v N" "swap_ok v img" "frame (memPtr v) (pgSize v) N \<le> memPtr v + PHYSICAL_SIZE"
    and q: "pg (bytes v) (memPtr v) (N - 1) Pid = q" "q \<noteq> pid" "q \<noteq> 0" "pg (bytes v) (memPtr v) (N - 1) Free = 0"
    and only: "\<forall>i<N. owns (bytes v) (memPtr v) q 1 i \<longrightarrow> i = N - 1"
    and k: "find (\<lambda>i. pg img 0 i Free \<noteq> 0) [0..<swap_frames (pgSize v)] = Some k"
  shows "\<exists>v' img'. movePageToSwap v pid = retn (v', 0) \<and> swapFile v' = Some img' \<and>
    pg img' 0 k Pid = q \<and> pg img' 0 k Free = 0 \<and> loadProcessPages junk v' q = fail NullDeref"
proof -
  have pid: "pg (bytes v) (memPtr v) (N - 1) Pid \<noteq> pid" using q(1,2) by simp
  let ?E = "node (memPtr v) (N - 1)"
  obtain v' img' where v': "movePageToSwap v pid = retn (v', 0)" "swapFile v' = Some img'" "memPtr v' = memPtr v" "pgSize v' = pgSize v"
    "saved (bytes v) img img' ?E (frame (memPtr v) (pgSize v) (N - 1)) (pgSize v) k"
    "\<And>x. memPtr v \<le> x \<Longrightarrow> x < memPtr v + PHYSICAL_SIZE \<Longrightarrow> x < ?E \<or> ?E + sizeof_SpaceNode \<le> x \<Longrightarrow> bytes v' x = bytes v x"
    "vm_pages v' N"
    "\<And>i f. i < N \<Longrightarrow> pg (bytes v') (memPtr v) i f =
       (if i = N - 1 \<and> f = Free then 1 else if i = N - 1 \<and> f = Pid then 0 else pg (bytes v) (memPtr v) i f)"
    by (rule movePageToSwap_table [OF ok refl pid q(4) k]) blast
  have "\<not> owns (bytes v') (memPtr v') q 1 i" if "i < N" for i
  proof (cases "i = N - 1")
    case True
    then show ?thesis using v'(8) [OF that, of Pid] q(3) by (simp add: owns_def v'(3))
  next
    case False
    then have "\<not> owns (bytes v) (memPtr v) q 1 i" using only that by blast
    then show ?thesis using False v'(8) [OF that, of Pid] v'(8) [OF that, of Order] by (simp add: owns_def v'(3))
  qed
  then have "\<forall>i<N. \<not> owns (bytes v') (memPtr v') q 1 i" by blast
  then have "loadProcessPages junk v' q = fail NullDeref" by (rule loadProcessPages_no_page [OF v'(7)])
  then show ?thesis using v'(1,2,5) q(1) by (intro exI [of _ v'] exI [of _ img']) (simp add: saved_def)
qed

lemma victim_loop_null:
  assumes "pages_ok m mem psz N" "i < N" "\<forall>j\<le>i. pg m mem j Pid = pid"
    "s8 (pg m mem i Swapclock) < 3" "\<forall>j<i. pg m mem j Swapclock < 2"
  shows "victim_loop m pid (node mem i) = fail NullDeref"
  using assms
proof (induction i arbitrary: m)
  case 0
  then show ?case using pages_okD(1) [OF 0(1)] pages_okD(8) [OF 0(1,2)] by (simp add: victim_loop.simps [of m pid])
next
  case (Suc i)
  let ?m' = "put m Swapclock (node mem i) (pg m mem i Swapclock + 1)"
  have "victim_loop ?m' pid (node mem i) = fail NullDeref"
  proof (rule Suc.IH)
    show "pages_ok ?m' mem psz N" by (rule pages_ok_put [OF Suc.prems(1)]) (use Suc.prems(2) in auto)
    show "s8 (pg ?m' mem i Swapclock) < 3" using Suc.prems(5) by (auto simp: pg_put s8_def Let_def)
  qed (use Suc.prems in \<open>auto simp: pg_put\<close>)
  then show ?case using Suc.prems node_nonzero [OF Suc.prems(1), of i] node_nonzero [OF Suc.prems(1), of "Suc i"]
      pages_okD(8) [OF Suc.prems(1,2)] by (subst victim_loop.simps) (simp add: Let_def del: node_eq_0)
qed

text \<open>
  C33. A thread that owns all pages and asks for one more crashes the program. The search for a victim passes over the pages of
  the thread itself and steps from the first page to \<open>NULL\<close>, whose \<open>swapclock\<close> it increments before the test; the restart from
  the last page that the code means to do is never reached.
\<close>

theorem getFreePage_exhausted:
  assumes ok: "vm_pages v N" and all: "\<forall>i<N. pg (bytes v) (memPtr v) i Free = 0 \<and> pg (bytes v) (memPtr v) i Pid = pid"
    and fresh: "\<forall>i<N. pg (bytes v) (memPtr v) i Swapclock < 2"
  shows "getFreePage junk v pid = fail NullDeref"
proof -
  let ?m = "bytes v" and ?mp = "memPtr v"
  have N: "N - 1 < N" using pages_okD(2) [OF ok] by simp
  have "victim_loop ?m pid (node ?mp (N - 1)) = fail NullDeref"
    by (rule victim_loop_null [OF ok N]) (use all fresh N in \<open>auto simp: s8_def Let_def\<close>)
  then have "movePageToSwap v pid = fail NullDeref"
    by (simp add: movePageToSwap_def getVictimPage_def getLastPage_pages [OF ok] SWAP_STRATEGY_def)
  moreover have "find (\<lambda>i. pg ?m ?mp i Free \<noteq> 0) [0..<N] = None" using all by (simp add: find_None_iff)
  ultimately show ?thesis
    using findFreePage_pages [OF ok] by (subst getFreePage.simps) (simp add: USE_SWAP_F_def)
qed

section \<open>Examples\<close>

lemma example_pages_other:
  assumes "f \<notin> {Start, Next, Prev, Pid, Order, Size}" "i < length ls" "length ls \<le> 1000"
  shows "pg (example_pages ls) 4096 i f = 0"
proof -
  let ?N = "length ls"
  let ?t = "table_loop (zero_node\<lparr>sn_size := 4096\<rparr>) zero_memory
     4096 (4096 + MEMORY_START) 0 0 (node 4096 ?N) (4096 * ?N) 4096"
  have "fills ?N 4096 (node 4096 ?N) (4096 * ?N) 4096" by (simp add: fills_def node_def)
  then have "pg ?t 4096 i f = sn_field (zero_node\<lparr>sn_size := 4096\<rparr>) f mod 256 ^ sn_wid f"
    by (intro table_pages_ok(2) [OF _ _ _ _ _ _ _ _ _ refl]) (use assms in \<open>auto simp: frame_def zero_node_def\<close>)
  also have "\<dots> = 0" using assms(1) by (cases f) (simp_all add: zero_node_def)
  finally have "pg ?t 4096 i f = 0" .
  moreover have "pg (label_pages m j xs) 4096 i f = pg m 4096 i f" for m j xs
    using assms(1) by (induction m j xs rule: label_pages.induct) (auto simp: pg_put)
  ultimately show ?thesis by (simp add: example_pages_def)
qed

text \<open>Three pages, one of thread 5 and two of thread 7, and a swap file whose first slot is free.\<close>

definition full_labels :: "(nat \<times> int) list" where
  "full_labels = [(5, 1), (7, 2), (7, 1)]"

definition one_slot :: memory where
  "one_slot = put zero_memory Free 0 1"

definition full_vm :: vm where
  "full_vm = (example_vm (example_pages full_labels))\<lparr>swapFile := Some one_slot, swapWritable := True, swapBuf := 14000000\<rparr>"

lemma full_vm:
  "vm_pages full_vm 3" "swap_ok full_vm one_slot" "memPtr full_vm = 4096" "pgSize full_vm = 4096" "bytes full_vm = example_pages full_labels"
  "i < 3 \<Longrightarrow> pg (example_pages full_labels) 4096 i Free = 0" "i < 3 \<Longrightarrow> label (example_pages full_labels) 4096 i = full_labels ! i"
  "find (\<lambda>i. pg one_slot 0 i Free \<noteq> 0) [0..<swap_frames 4096] = Some 0"
proof -
  have l: "full_labels \<noteq> []" "length full_labels = 3"
    "list_all (\<lambda>(p, r). p < 2 ^ 32 \<and> - (2 ^ 31) \<le> r \<and> r < 2 ^ 31) full_labels"
    by (simp_all add: full_labels_def)
  show v: "memPtr full_vm = 4096" "pgSize full_vm = 4096" "bytes full_vm = example_pages full_labels"
    by (simp_all add: full_vm_def example_vm_def)
  show "vm_pages full_vm 3" using example_pages_ok(1) [OF l(1) _ l(3)] by (simp add: v l(2))
  show "i < 3 \<Longrightarrow> pg (example_pages full_labels) 4096 i Free = 0" by (rule example_pages_other) (simp_all add: l(2))
  show "i < 3 \<Longrightarrow> label (example_pages full_labels) 4096 i = full_labels ! i"
    using example_pages_ok(2) [OF l(1) _ l(3)] by (simp add: l(2))
  have f: "swap_frames 4096 = 732" by (simp add: swap_frames_def frames_in_def)
  have z: "pg zero_memory 0 i f = 0" for i f
    by (simp add: zero_memory_def get_def rd_zero)
  have s: "pg one_slot 0 i f = (if i = 0 \<and> f = Free then 1 else 0)" for i f
  proof -
    have eq: "one_slot = put zero_memory Free (node 0 0) 1" by (simp add: one_slot_def)
    show ?thesis unfolding eq pg_put z by auto
  qed
  then show "find (\<lambda>i. pg one_slot 0 i Free \<noteq> 0) [0..<swap_frames 4096] = Some 0" by (simp add: f find_upt_Some)
  show "swap_ok full_vm one_slot" using s by (simp add: swap_ok_def full_vm_def example_vm_def f)
qed

theorem getFreePage_evicts_witness:
  "\<exists>v' img'. getFreePage zero_node full_vm 5 = retn (v', 4096) \<and> swapFile v' = Some img' \<and> pg img' 0 0 Pid = 7 \<and>
    pg (bytes v') 4096 0 Pid = 5"
proof -
  have "pg (example_pages full_labels) 4096 2 Pid = 7" using full_vm(7) [of 2] by (simp add: label_def full_labels_def)
  then show ?thesis
    using getFreePage_evicts [OF full_vm(1) _ full_vm(2), of 5 0 zero_node] full_vm(3-6,8) by (auto simp: frame_def saved_def)
qed

theorem swapped_thread_lost_witness:
  "\<exists>v' img'. movePageToSwap full_vm 5 = retn (v', 0) \<and> swapFile v' = Some img' \<and> pg img' 0 0 Pid = 7 \<and>
    loadProcessPages zero_node v' 7 = fail NullDeref"
proof -
  have "owns (example_pages full_labels) 4096 7 1 i \<longrightarrow> i = 2" if "i < 3" for i
  proof -
    have "i = 0 \<or> i = 1 \<or> i = 2" using that by arith
    then show ?thesis using full_vm(7) [OF that] by (auto simp: label_owns [symmetric] full_labels_def)
  qed
  moreover have "pg (example_pages full_labels) 4096 2 Pid = 7" using full_vm(7) [of 2] by (simp add: label_def full_labels_def)
  ultimately show ?thesis
    using swapped_thread_lost [OF full_vm(1,2), of 7 5 0 zero_node] full_vm(3-6,8) by (auto simp: frame_def)
qed

theorem getFreePage_exhausted_witness:
  "getFreePage zero_node (example_vm (example_pages [(7, 1), (7, 2)])) 7 = fail NullDeref"
proof (rule getFreePage_exhausted [where N = 2])
  let ?ls = "[(7, 1), (7, 2)] :: (nat \<times> int) list"
  have l: "?ls \<noteq> []" "length ?ls \<le> 1000" "list_all (\<lambda>(p, r). p < 2 ^ 32 \<and> - (2 ^ 31) \<le> r \<and> r < 2 ^ 31) ?ls" "length ?ls = 2" by simp_all
  show "vm_pages (example_vm (example_pages ?ls)) 2" using example_pages_ok(1) [OF l(1-3), unfolded l(4)] by (simp add: example_vm_def)
  have "pg (example_pages ?ls) 4096 i Pid = 7" if "i < 2" for i
    using example_pages_ok(2) [OF l(1-3), of i] that by (cases i) (simp_all add: label_def)
  then show "\<forall>i<2. pg (bytes (example_vm (example_pages ?ls))) (memPtr (example_vm (example_pages ?ls))) i Free = 0 \<and>
      pg (bytes (example_vm (example_pages ?ls))) (memPtr (example_vm (example_pages ?ls))) i Pid = 7"
    using example_pages_other [of Free _ ?ls] by (simp add: example_vm_def)
  show "\<forall>i<2. pg (bytes (example_vm (example_pages ?ls))) (memPtr (example_vm (example_pages ?ls))) i Swapclock < 2"
    using example_pages_other [of Swapclock _ ?ls] by (simp add: example_vm_def)
qed

end
