(* ===== verification/C_Format.thy ===== *)
theory C_Format
  imports Prelude
begin

text \<open>
  \<open>printf\<close>, as far as the sources use it: the text that a format and its arguments produce. The number systems are a locale over
  the base, with the round trip between numbers and their digits.
\<close>

section \<open>Number systems\<close>

definition digit :: "nat \<Rightarrow> char" where
  "digit k = char_of (if k < 10 then 48 + k else 87 + k)"

definition digit_val :: "char \<Rightarrow> nat" where
  "digit_val c = (let k = of_char c in if k < 58 then k - 48 else k - 87)"

function digits :: "nat \<Rightarrow> nat \<Rightarrow> string" where
  "digits b n = (if b < 2 \<or> n < b then [digit n] else digits b (n div b) @ [digit (n mod b)])"
  by auto
termination by (relation "measure snd") auto

declare digits.simps [simp del]

definition number :: "nat \<Rightarrow> string \<Rightarrow> nat" where
  "number b s = foldl (\<lambda>a c. a * b + digit_val c) 0 s"

lemma digit_val_digit [simp]: "k < 16 \<Longrightarrow> digit_val (digit k) = k"
  by (auto simp: digit_val_def digit_def Let_def of_char_of)

definition digit_chars :: "char set" where
  "digit_chars = digit ` {..<16}"

lemma digit_chars: "c \<in> digit_chars \<longleftrightarrow> c \<in> set ''0123456789abcdef''"
proof -
  have "digit_chars = set (map digit [0..<16])" by (auto simp: digit_chars_def atLeast0LessThan)
  also have "map digit [0..<16] = ''0123456789abcdef''" by code_simp
  finally show ?thesis by simp
qed

text \<open>A base between 2 and 16: digits are read back, also behind leading zeros.\<close>

locale positional =
  fixes b :: nat
  assumes base: "2 \<le> b" "b \<le> 16"
begin

lemma number_snoc: "number b (s @ [c]) = number b s * b + digit_val c"
  by (simp add: number_def)

lemma mod_digit: "n mod b < 16"
proof -
  have "n mod b < b" using base by simp
  then show ?thesis using base(2) by linarith
qed

lemma number_digits: "number b (digits b n) = n"
proof (induction n rule: less_induct)
  case (less n)
  show ?case
  proof (cases "n < b")
    case True
    then show ?thesis using base by (simp add: digits.simps number_def)
  next
    case False
    then have "n div b < n" using base by simp
    then show ?thesis using False base less.IH mod_digit by (subst digits.simps) (simp add: number_snoc)
  qed
qed

lemma digits_chars: "set (digits b n) \<subseteq> digit_chars"
proof (induction n rule: less_induct)
  case (less n)
  show ?case
  proof (cases "n < b")
    case True
    then show ?thesis using base by (simp add: digits.simps digit_chars_def)
  next
    case False
    then have "n div b < n" using base by simp
    then show ?thesis using False base less.IH mod_digit by (subst digits.simps) (simp add: digit_chars_def)
  qed
qed

lemma digits_nonempty: "digits b n \<noteq> []"
  by (simp add: digits.simps)

lemma number_zeros: "number b (replicate k (CHR ''0'') @ s) = number b s"
proof (induction k)
  case (Suc k)
  have "digit_val CHR ''0'' = 0" by code_simp
  then show ?case using Suc by (simp add: number_def)
qed simp

lemma digits_inject: "digits b m = digits b n \<longleftrightarrow> m = n"
  by (metis number_digits)

end

interpretation dec: positional 10
  by unfold_locales simp_all

interpretation oct: positional 8
  by unfold_locales simp_all

interpretation hex: positional 16
  by unfold_locales simp_all

section \<open>Conversions\<close>

text \<open>Reading a 64-bit value as two's complement.\<close>

definition s64 :: "nat \<Rightarrow> int" where
  "s64 v = (let w = int (v mod 2 ^ 64) in if w < 2 ^ 63 then w else w - 2 ^ 64)"

lemma u64_s64 [cint_simps]: "v < 2 ^ 64 \<Longrightarrow> u64 (s64 v) = v"
  by (simp add: u64_def s64_def Let_def)

text \<open>
  A variadic argument is a string or an 8-byte slot with an integer of 32 or 64 bits or a pointer in it. C leaves a conversion
  undefined whose type is not that of its argument; which conversions fit is \<open>arg_fits\<close>. What the program then writes is that
  of the calling convention of x86-64: a conversion without \<open>l\<close> reads the low 32 bits of the slot, whatever was passed.
\<close>

datatype ctype = W32 | W64 | Pointer

datatype arg = Num ctype nat | Str string

definition arg_fits :: "bool \<Rightarrow> char \<Rightarrow> arg \<Rightarrow> bool" where
  "arg_fits long c a =
     (case a of
        Num t v \<Rightarrow> if c = CHR ''p'' then t = Pointer else c \<in> set ''diuxo'' \<and> t = (if long then W64 else W32)
      | Str s \<Rightarrow> c = CHR ''s'')"

definition pad :: "bool \<Rightarrow> nat \<Rightarrow> string \<Rightarrow> string" where
  "pad zero w s = replicate (w - length s) (if zero then CHR ''0'' else CHR '' '') @ s"

definition signed :: "bool \<Rightarrow> nat \<Rightarrow> int \<Rightarrow> string" where
  "signed zero w i =
     (if i < 0
      then if zero then CHR ''-'' # pad True (w - 1) (digits 10 (nat (- i))) else pad False w (CHR ''-'' # digits 10 (nat (- i)))
      else pad zero w (digits 10 (nat i)))"

abbreviation s32_text :: "nat \<Rightarrow> string" where "s32_text v \<equiv> signed False 0 (s32 v)"
abbreviation s64_text :: "nat \<Rightarrow> string" where "s64_text v \<equiv> signed False 0 (s64 v)"

text \<open>A pointer, as glibc prints it.\<close>

definition ptr_text :: "nat \<Rightarrow> string" where
  "ptr_text v = (if v mod 2 ^ 64 = 0 then ''(nil)'' else ''0x'' @ digits 16 (v mod 2 ^ 64))"

definition convert :: "bool \<Rightarrow> nat \<Rightarrow> bool \<Rightarrow> char \<Rightarrow> arg \<Rightarrow> string ret" where
  "convert zero w long c a =
     (case a of
        Num t v \<Rightarrow>
          let u = (if long then v mod 2 ^ 64 else v mod 2 ^ 32) in
          if c = CHR ''d'' \<or> c = CHR ''i'' then retn (signed zero w (if long then s64 v else s32 v))
          else if c = CHR ''u'' then retn (pad zero w (digits 10 u))
          else if c = CHR ''x'' then retn (pad zero w (digits 16 u))
          else if c = CHR ''o'' then retn (pad zero w (digits 8 u))
          else if c = CHR ''p'' then retn (pad False w (ptr_text v))
          else fail BadFormat
      | Str s \<Rightarrow> if c = CHR ''s'' then retn (pad False w s) else fail BadFormat)"

text \<open>
  \<open>vfprintf\<close>: the first argument is the directive being read, with its flag \<open>0\<close>, its width and whether \<open>l\<close> was seen. Too few
  arguments, an argument of the wrong kind and an unknown conversion are undefined in C.
\<close>

fun format_from :: "(bool \<times> nat \<times> bool) option \<Rightarrow> string \<Rightarrow> arg list \<Rightarrow> string ret" where
  "format_from None [] as = retn []"
| "format_from None (c # cs) as =
     (if c = CHR ''%'' then format_from (Some (False, 0, False)) cs as
      else bindR (format_from None cs as) (\<lambda>t. retn (c # t)))"
| "format_from (Some d) [] as = fail BadFormat"
| "format_from (Some (zero, w, long)) (c # cs) as =
     (if c = CHR ''l'' then format_from (Some (zero, w, True)) cs as
      else if c = CHR ''0'' \<and> w = 0 then format_from (Some (True, 0, long)) cs as
      else if 48 \<le> (of_char c :: nat) \<and> of_char c \<le> (57 :: nat) then format_from (Some (zero, 10 * w + digit_val c, long)) cs as
      else
        (case as of
           [] \<Rightarrow> fail BadFormat
         | a # as' \<Rightarrow> bindR (convert zero w long c a) (\<lambda>s. bindR (format_from None cs as') (\<lambda>t. retn (s @ t)))))"

definition vfprintf :: "string \<Rightarrow> arg list \<Rightarrow> string ret" where
  "vfprintf = format_from None"

text \<open>Every conversion of a format has an argument of its type; the state is whether \<open>l\<close> was seen in the directive being read.\<close>

fun fits_from :: "bool option \<Rightarrow> string \<Rightarrow> arg list \<Rightarrow> bool" where
  "fits_from None [] as = True"
| "fits_from None (c # cs) as = fits_from (if c = CHR ''%'' then Some False else None) cs as"
| "fits_from (Some long) [] as = False"
| "fits_from (Some long) (c # cs) as =
     (if c = CHR ''l'' then fits_from (Some True) cs as
      else if 48 \<le> (of_char c :: nat) \<and> of_char c \<le> (57 :: nat) then fits_from (Some long) cs as
      else case as of [] \<Rightarrow> False | a # as' \<Rightarrow> arg_fits long c a \<and> fits_from None cs as')"

definition format_fits :: "string \<Rightarrow> arg list \<Rightarrow> bool" where
  "format_fits = fits_from None"

lemma convert_fits: "arg_fits long c a \<Longrightarrow> \<exists>t. convert zero w long c a = retn t"
  by (cases a) (auto simp: arg_fits_def convert_def Let_def split: if_splits)

lemma format_from_fits: "fits_from (map_option (\<lambda>(zero, w, long). long) d) f as \<Longrightarrow> \<exists>t. format_from d f as = retn t"
proof (induction d f as rule: format_from.induct)
  case (4 zero w long c cs as)
  then show ?case
    using convert_fits [of long c "hd as" zero w] by (auto simp: bindR_eq_retn split: if_splits list.splits)
qed (auto split: if_splits)

lemma vfprintf_fits: "format_fits f as \<Longrightarrow> \<exists>t. vfprintf f as = retn t"
  using format_from_fits [of None f as] by (simp add: format_fits_def vfprintf_def)

text \<open>Several outputs in a row.\<close>

fun outputs :: "string ret list \<Rightarrow> string ret" where
  "outputs [] = retn []"
| "outputs (r # rs) = bindR r (\<lambda>s. bindR (outputs rs) (\<lambda>t. retn (s @ t)))"

lemma vfprintf_plain:
  "CHR ''%'' \<notin> set s \<Longrightarrow> vfprintf (s @ f) as = bindR (vfprintf f as) (\<lambda>t. retn (s @ t))"
  by (induction s) (auto simp: vfprintf_def bindR_def split: option.split sum.split)

lemma vfprintf_text: "CHR ''%'' \<notin> set s \<Longrightarrow> vfprintf s as = retn s"
  using vfprintf_plain [of s "[]" as] by (simp add: vfprintf_def)

lemma outputs_retn: "outputs (map retn ts) = retn (concat ts)"
  by (induction ts) simp_all

lemma pad_0 [simp]: "pad z 0 s = s"
  by (simp add: pad_def)

text \<open>A line with one number or pointer in it.\<close>

lemma vfprintf_one:
  assumes "CHR ''%'' \<notin> set s" "CHR ''%'' \<notin> set t"
  shows "vfprintf (s @ ''%i'' @ t) [Num ty v] = retn (s @ s32_text v @ t)" "vfprintf (s @ ''%p'' @ t) [Num ty v] = retn (s @ ptr_text v @ t)"
proof -
  have "vfprintf (''%i'' @ t) [Num ty v] = retn (s32_text v @ t)" "vfprintf (''%p'' @ t) [Num ty v] = retn (ptr_text v @ t)"
    using vfprintf_text [OF assms(2), of "[]"] by (simp_all add: vfprintf_def convert_def Let_def)
  then show "vfprintf (s @ ''%i'' @ t) [Num ty v] = retn (s @ s32_text v @ t)" "vfprintf (s @ ''%p'' @ t) [Num ty v] = retn (s @ ptr_text v @ t)"
    using vfprintf_plain [OF assms(1)] by simp_all
qed

end
