(* ===== verification/Memory_Dump.thy ===== *)
theory Memory_Dump
  imports C_Format Page_Load VM_Api Linked_List
begin

text \<open>
  The dumps: \<open>printMemory\<close>, \<open>printOSMemory\<close> and \<open>printSwapF\<close> of vm.c and \<open>print\<close> of LinkedList.c. Each returns the text it
  prints. Reading the spaces of a page can hit a protected frame; the handler runs then and the access is repeated.
\<close>

section \<open>Reading protected memory\<close>

partial_function (option) access :: "SpaceNode \<Rightarrow> vm \<Rightarrow> addr \<Rightarrow> nat \<Rightarrow> vm ret" where
  "access junk v a w =
     (case find (prot v) [a..<a + w] of
        None \<Rightarrow> retn v
      | Some x \<Rightarrow> if \<not> handlerSet v then fail SegFault else bindR (handler junk v x) (\<lambda>v'. access junk v' a w))"

definition load :: "SpaceNode \<Rightarrow> vm \<Rightarrow> field \<Rightarrow> addr \<Rightarrow> (vm \<times> nat) ret" where
  "load junk v f s = bindR (access junk v (s + sn_off f) (sn_wid f)) (\<lambda>v'. retn (v', get (bytes v') f s))"

section \<open>Lists of spaces\<close>

text \<open>
  The loop over spaces that \<open>printMemory\<close> and \<open>printOSMemory\<close> share, with their formats for a free space, an element and a size.
  \<open>j\<close> counts the elements.
\<close>

partial_function (option) print_spaces ::
  "string \<Rightarrow> string \<Rightarrow> string \<Rightarrow> SpaceNode \<Rightarrow> vm \<Rightarrow> addr \<Rightarrow> nat \<Rightarrow> (vm \<times> string) ret" where
  "print_spaces ff ef sf junk v s j =
     (if s = 0 then retn (v, [])
      else
        bindR (load junk v Free s) (\<lambda>(v1, fr).
        bindR (if fr \<noteq> 0 then vfprintf ff [] else vfprintf ef [Num W32 j]) (\<lambda>t1.
        bindR (load junk v1 Size s) (\<lambda>(v2, sz).
        bindR (vfprintf sf [Num W32 sz]) (\<lambda>t2.
        bindR (load junk v2 Next s) (\<lambda>(v3, nx).
        bindR (print_spaces ff ef sf junk v3 nx (if fr \<noteq> 0 then j else (j + 1) mod 2 ^ 32)) (\<lambda>(v4, t).
          retn (v4, t1 @ t2 @ t))))))))"

abbreviation RULE :: string where
  "RULE \<equiv> ''----------------------------------\<newline>''"

definition printOSMemory :: "SpaceNode \<Rightarrow> vm \<Rightarrow> (vm \<times> string) ret" where
  "printOSMemory junk v =
     bindR (vfprintf (''\<newline>\<newline>OS Memory: \<newline>'' @ RULE) []) (\<lambda>t0.
     bindR (print_spaces ''----- Free Space -----\<newline>'' ''----- OS Element %i -----\<newline>'' ''Size: %i\<newline>''
       junk v (memPtr v + OSRESERVED_START) 1) (\<lambda>(v', t1).
     bindR (vfprintf RULE []) (\<lambda>t2. retn (v', t0 @ t1 @ t2))))"

section \<open>The page table\<close>

definition print_page :: "SpaceNode \<Rightarrow> vm \<Rightarrow> addr \<Rightarrow> (vm \<times> string) ret" where
  "print_page junk v n =
     bindR (outputs
       [vfprintf ''----- Page thread %i -----\<newline>'' [Num W32 (get (bytes v) Pid n)],
        vfprintf ''Page start address %p     \<newline>'' [Num Pointer (get (bytes v) Start n)],
        vfprintf ''Order %i     \<newline>'' [Num W32 (get (bytes v) Order n)],
        vfprintf ''Size: %i\<newline>'' [Num W32 (get (bytes v) Size n)]]) (\<lambda>t0.
     bindR (if get (bytes v) DataStartsAnotherPage n \<noteq> 1
            then bindR (vfprintf ''      Contents:\<newline>'' []) (\<lambda>t1.
                 bindR (print_spaces ''      ----- Free Space -----\<newline>'' ''      ----- Element %i -----\<newline>'' ''      Size: %i\<newline>''
                   junk v (get (bytes v) Start n) 1) (\<lambda>(v', t2). retn (v', t1 @ t2)))
            else bindR (vfprintf ''***This page's content starts on previous process page***\<newline>'' []) (\<lambda>t1. retn (v, t1))) (\<lambda>(v', t1).
     bindR (vfprintf RULE []) (\<lambda>t2. retn (v', t0 @ t1 @ t2))))"

partial_function (option) print_pages :: "SpaceNode \<Rightarrow> vm \<Rightarrow> addr \<Rightarrow> (vm \<times> string) ret" where
  "print_pages junk v n =
     (if n = 0 then retn (v, [])
      else
        bindR (if get (bytes v) Free n = 0 then print_page junk v n else retn (v, [])) (\<lambda>(v1, t1).
        bindR (print_pages junk v1 (getNextSpace (bytes v1) n)) (\<lambda>(v2, t2). retn (v2, t1 @ t2))))"

definition printMemory :: "SpaceNode \<Rightarrow> vm \<Rightarrow> (vm \<times> string) ret" where
  "printMemory junk v =
     bindR (vfprintf (''\<newline>\<newline>\<newline>Memory: \<newline>'' @ RULE) []) (\<lambda>t0.
     bindR (print_pages junk v (getFirstPage (memPtr v))) (\<lambda>(v', t1).
     bindR (vfprintf (RULE @ ''\<newline>\<newline>'') []) (\<lambda>t2. retn (v', t0 @ t1 @ t2))))"

section \<open>The swap file\<close>

text \<open>The loop of \<open>printSwapF\<close>; \<open>k\<close> counts the rounds that are left.\<close>

fun print_swap_nodes :: "memory \<Rightarrow> nat \<Rightarrow> nat \<Rightarrow> addr \<Rightarrow> string ret" where
  "print_swap_nodes m 0 i n = retn []"
| "print_swap_nodes m (Suc k) i n =
     (if n = 0 then vfprintf ''printSwapF finished early: node was null.\<newline>'' []
      else if get m Start n = 0 then fail SegFault
      else
        bindR (vfprintf ''%dth Node. n is at %d. Pid is %d. Order is %d. Next is at %d, val was %d.\<newline>''
          [Num W32 i, Num Pointer n, Num W32 (get m Pid n), Num W32 (get m Order n), Num Pointer (get m Next n),
           Num W32 (rd m (get m Start n + sizeof_SpaceNode) 4)]) (\<lambda>t.
        bindR (print_swap_nodes m k (Suc i) (get m Next n)) (\<lambda>u. retn (t @ u))))"

text \<open>\<open>buf\<close> is the address of the static array of \<open>printSwapF\<close>.\<close>

definition printSwapF :: "vm \<Rightarrow> addr \<Rightarrow> int \<Rightarrow> (vm \<times> string) ret" where
  "printSwapF v buf k =
     (case getSwap v buf of (v1, r) \<Rightarrow>
        if r = 1 then bindR (vfprintf ''Error opening swap.\<newline>'' []) (\<lambda>t. retn (v1, t))
        else
          bindR (vfprintf ''Printing first %d pages of swapfile.\<newline>'' [Num W32 (u32 k), Num Pointer buf]) (\<lambda>t0.
          bindR (print_swap_nodes (bytes v1) (nat k) 0 buf) (\<lambda>t1. retn (v1, t0 @ t1))))"

section \<open>Thread queues\<close>

partial_function (option) print_nodes :: "heap \<Rightarrow> ptr \<Rightarrow> string ret" where
  "print_nodes h n =
     (if n = 0 then retn []
      else
        bindR (vfprintf ''%p | '' [Num Pointer (cells_at h (nd_thread (nodes_at h n)))]) (\<lambda>t.
        bindR (print_nodes h (nd_next (nodes_at h n))) (\<lambda>u. retn (t @ u))))"

definition print :: "heap \<Rightarrow> ptr \<Rightarrow> string ret" where
  "print h l =
     (if l = 0 then fail NullDeref
      else outputs [vfprintf ''LIST:\<newline>\<newline>'' [], print_nodes h (ll_head (lists_at h l)), vfprintf ''ENDLIST\<newline>\<newline>'' []])"

section \<open>What the dumps show\<close>

text \<open>The report on a list of spaces: one entry per space, in order, with the elements numbered from \<open>j\<close>.\<close>

definition spaces_report :: "string \<Rightarrow> (nat \<Rightarrow> string) \<Rightarrow> (nat \<Rightarrow> string) \<Rightarrow> nat \<Rightarrow> block list \<Rightarrow> string" where
  "spaces_report tf te ts j bs =
     concat (map (\<lambda>k. (if fst (snd (bs ! k)) then tf else te (j + length (filter (\<lambda>b. \<not> fst (snd b)) (take k bs)))) @
       ts (snd (snd (bs ! k)))) [0..<length bs])"

lemma spaces_report_simps [simp]:
  "spaces_report tf te ts j [] = []"
  "spaces_report tf te ts j ((a, fr, s) # bs) = (if fr then tf else te j) @ ts s @ spaces_report tf te ts (if fr then j else Suc j) bs"
proof -
  have "[0..<Suc n] = 0 # map Suc [0..<n]" for n by (simp add: upt_conv_Cons map_Suc_upt del: upt_Suc)
  then show "spaces_report tf te ts j ((a, fr, s) # bs) =
      (if fr then tf else te j) @ ts s @ spaces_report tf te ts (if fr then j else Suc j) bs"
    by (simp add: spaces_report_def o_def cong: if_cong del: upt_Suc)
qed (simp add: spaces_report_def)

lemma load_plain: "\<forall>x. \<not> prot v x \<Longrightarrow> load junk v f s = retn (v, get (bytes v) f s)"
proof -
  assume "\<forall>x. \<not> prot v x"
  then have "find (prot v) xs = None" for xs by (simp add: find_None_iff)
  then show ?thesis by (simp add: load_def access.simps)
qed

lemma print_spaces_rep:
  assumes prot: "\<forall>x. \<not> prot v x" and rep: "rep (bytes v) s bs" and j: "j + length bs < 2 ^ 32"
    and fmt: "vfprintf ff [] = retn tf" "\<And>k. vfprintf ef [Num W32 k] = retn (te k)" "\<And>z. vfprintf sf [Num W32 z] = retn (ts z)"
  shows "print_spaces ff ef sf junk v s j = retn (v, spaces_report tf te ts j bs)"
  using rep j
proof (induction bs arbitrary: s j)
  case Nil
  then show ?case by (simp add: print_spaces.simps)
next
  case (Cons b bs)
  obtain a fr z where b: "b = (a, fr, z)" by (cases b)
  have r: "s = a" "a \<noteq> 0" "fr = (get (bytes v) Free a \<noteq> 0)" "z = get (bytes v) Size a" "rep (bytes v) (get (bytes v) Next a) bs"
    using Cons.prems(1) by (simp_all add: b)
  have "print_spaces ff ef sf junk v (get (bytes v) Next a) (if fr then j else Suc j) =
      retn (v, spaces_report tf te ts (if fr then j else Suc j) bs)"
    by (rule Cons.IH [OF r(5)]) (use Cons.prems(2) in simp)
  then show ?case using r Cons.prems(2) fmt load_plain [OF prot]
    by (subst print_spaces.simps) (cases fr; simp add: b)
qed

abbreviation elem_text :: "nat \<Rightarrow> string" where
  "elem_text k \<equiv> ''      ----- Element '' @ s32_text k @ '' -----\<newline>''"

abbreviation size_text :: "nat \<Rightarrow> string" where
  "size_text z \<equiv> ''      Size: '' @ s32_text z @ ''\<newline>''"

definition page_report :: "memory \<Rightarrow> addr \<Rightarrow> nat \<Rightarrow> nat \<Rightarrow> block list \<Rightarrow> string" where
  "page_report m mem psz i bs =
     ''----- Page thread '' @ s32_text (pg m mem i Pid) @ '' -----\<newline>'' @
     ''Page start address '' @ ptr_text (frame mem psz i) @ ''     \<newline>'' @
     ''Order '' @ s32_text (pg m mem i Order) @ ''     \<newline>'' @ ''Size: '' @ s32_text psz @ ''\<newline>'' @
     (if pg m mem i DataStartsAnotherPage \<noteq> 1
      then ''      Contents:\<newline>'' @ spaces_report ''      ----- Free Space -----\<newline>'' elem_text size_text 1 bs
      else ''***This page's content starts on previous process page***\<newline>'') @ RULE"

lemma print_page_report:
  assumes ok: "vm_pages v N" "i < N" and prot: "\<forall>x. \<not> prot v x"
    and bs: "pg (bytes v) (memPtr v) i DataStartsAnotherPage \<noteq> 1 \<Longrightarrow>
      rep (bytes v) (frame (memPtr v) (pgSize v) i) bs \<and> length bs < 2 ^ 32 - 1"
  shows "print_page junk v (node (memPtr v) i) = retn (v, page_report (bytes v) (memPtr v) (pgSize v) i bs)"
proof -
  let ?n = "node (memPtr v) i"
  have st: "get (bytes v) Start ?n = frame (memPtr v) (pgSize v) i" "get (bytes v) Size ?n = pgSize v"
    using pages_okD(9,10) [OF ok(1)] ok(2) by simp_all
  have f: "vfprintf ''----- Page thread %i -----\<newline>'' [Num W32 k] = retn (''----- Page thread '' @ s32_text k @ '' -----\<newline>'')"
    "vfprintf ''Page start address %p     \<newline>'' [Num Pointer k] = retn (''Page start address '' @ ptr_text k @ ''     \<newline>'')"
    "vfprintf ''Order %i     \<newline>'' [Num W32 k] = retn (''Order '' @ s32_text k @ ''     \<newline>'')"
    "vfprintf ''Size: %i\<newline>'' [Num W32 k] = retn (''Size: '' @ s32_text k @ ''\<newline>'')"
    "vfprintf ''      ----- Element %i -----\<newline>'' [Num W32 k] = retn (elem_text k)"
    "vfprintf ''      Size: %i\<newline>'' [Num W32 k] = retn (size_text k)" for k
    using vfprintf_one(1) [of "''----- Page thread ''" "'' -----\<newline>''" _ k] vfprintf_one(2) [of "''Page start address ''" "''     \<newline>''" _ k]
      vfprintf_one(1) [of "''Order ''" "''     \<newline>''" _ k] vfprintf_one(1) [of "''Size: ''" "''\<newline>''" _ k]
      vfprintf_one(1) [of "''      ----- Element ''" "'' -----\<newline>''" _ k] vfprintf_one(1) [of "''      Size: ''" "''\<newline>''" _ k]
    by simp_all
  show ?thesis
  proof (cases "pg (bytes v) (memPtr v) i DataStartsAnotherPage = 1")
    case True
    then show ?thesis by (simp add: print_page_def page_report_def f st vfprintf_text)
  next
    case False
    then have "print_spaces ''      ----- Free Space -----\<newline>'' ''      ----- Element %i -----\<newline>'' ''      Size: %i\<newline>''
        junk v (frame (memPtr v) (pgSize v) i) 1 =
      retn (v, spaces_report ''      ----- Free Space -----\<newline>'' elem_text size_text 1 bs)"
      using bs by (intro print_spaces_rep [OF prot] f) (simp_all add: vfprintf_text)
    then show ?thesis using False by (simp add: print_page_def page_report_def f(1-4) st vfprintf_text)
  qed
qed

lemma print_pages_report:
  assumes ok: "vm_pages v N" and prot: "\<forall>x. \<not> prot v x" and "i \<le> N"
    and bs: "\<And>i. i < N \<Longrightarrow> pg (bytes v) (memPtr v) i Free = 0 \<Longrightarrow> pg (bytes v) (memPtr v) i DataStartsAnotherPage \<noteq> 1 \<Longrightarrow>
      rep (bytes v) (frame (memPtr v) (pgSize v) i) (bs i) \<and> length (bs i) < 2 ^ 32 - 1"
  shows "print_pages junk v (if i < N then node (memPtr v) i else 0) = retn (v,
    concat (map (\<lambda>i. page_report (bytes v) (memPtr v) (pgSize v) i (bs i)) (filter (\<lambda>i. pg (bytes v) (memPtr v) i Free = 0) [i..<N])))"
  using assms(3)
proof (induction i rule: inc_induct)
  case base
  show ?case by (simp add: print_pages.simps)
next
  case (step i)
  let ?n = "node (memPtr v) i"
  have nx: "getNextSpace (bytes v) ?n = (if Suc i < N then node (memPtr v) (Suc i) else 0)"
    using pages_okD(7) [OF ok step.hyps(2)] pages_okD(1) [OF ok] by (simp add: getNextSpace_def)
  have "pg (bytes v) (memPtr v) i Free = 0 \<Longrightarrow>
      print_page junk v ?n = retn (v, page_report (bytes v) (memPtr v) (pgSize v) i (bs i))"
    by (rule print_page_report [OF ok step.hyps(2) prot bs [OF step.hyps(2)]])
  moreover have "print_pages junk v ?n =
      bindR (if get (bytes v) Free ?n = 0 then print_page junk v ?n else retn (v, [])) (\<lambda>(v1, t1).
      bindR (print_pages junk v1 (getNextSpace (bytes v1) ?n)) (\<lambda>(v2, t2). retn (v2, t1 @ t2)))"
    using node_nonzero [OF ok, of i] by (subst print_pages.simps) (rule if_not_P)
  moreover note step.IH [folded nx]
  ultimately show ?case
    unfolding upt_conv_Cons [OF step.hyps(2)] if_P [OF step.hyps(2)] by (cases "pg (bytes v) (memPtr v) i Free = 0") simp_all
qed

text \<open>
  C22. \<open>printMemory\<close> tells the truth and changes nothing. With a well-formed table and no protected frame it returns, leaves the memory
  as it is, and prints one block for every page in use, in the order of the table, with its owner, address, order and size, and below it
  every space of the page in order, free ones and elements, the elements numbered from 1; a page that continues the one
  before is named as such.
\<close>

theorem printMemory_reports:
  assumes "vm_pages v N" "\<forall>x. \<not> prot v x"
    and "\<And>i. i < N \<Longrightarrow> pg (bytes v) (memPtr v) i Free = 0 \<Longrightarrow> pg (bytes v) (memPtr v) i DataStartsAnotherPage \<noteq> 1 \<Longrightarrow>
      rep (bytes v) (frame (memPtr v) (pgSize v) i) (bs i) \<and> length (bs i) < 2 ^ 32 - 1"
  shows "printMemory junk v = retn (v, ''\<newline>\<newline>\<newline>Memory: \<newline>'' @ RULE @
    concat (map (\<lambda>i. page_report (bytes v) (memPtr v) (pgSize v) i (bs i)) (filter (\<lambda>i. pg (bytes v) (memPtr v) i Free = 0) [0..<N])) @
    RULE @ ''\<newline>\<newline>'')"
proof -
  have "print_pages junk v (if 0 < N then node (memPtr v) 0 else 0) = retn (v,
    concat (map (\<lambda>i. page_report (bytes v) (memPtr v) (pgSize v) i (bs i)) (filter (\<lambda>i. pg (bytes v) (memPtr v) i Free = 0) [0..<N])))"
    by (rule print_pages_report [OF assms(1,2) le0 assms(3)])
  then have "print_pages junk v (getFirstPage (memPtr v)) = retn (v,
    concat (map (\<lambda>i. page_report (bytes v) (memPtr v) (pgSize v) i (bs i)) (filter (\<lambda>i. pg (bytes v) (memPtr v) i Free = 0) [0..<N])))"
    using pages_okD(2) [OF assms(1)] by (simp only: if_True getFirstPage_def node_0)
  then show ?thesis by (simp add: printMemory_def vfprintf_text)
qed

theorem printMemory_reports_witness:
  "\<exists>m t. pg m 4096 3 Pid = 7 \<and> printMemory zero_node (example_vm m) = retn (example_vm m, t) \<and>
     t = ''\<newline>\<newline>\<newline>Memory: \<newline>'' @ RULE @ page_report m 4096 4096 3 [(frame 4096 4096 3, True, 4040)] @ RULE @ ''\<newline>\<newline>''"
proof -
  define m where "m = claimed zero_node four_pages 4096 4096 3 7"
  let ?v = "example_vm m" and ?bs = "[(frame 4096 4096 3, True, 4040)]"
  note c = claimed_pages [OF four_pages(1) _ _ m_def]
  have v: "bytes ?v = m" "memPtr ?v = 4096" "pgSize ?v = 4096" "\<forall>x. \<not> prot ?v x" by (simp_all add: example_vm_def)
  have free: "pg m 4096 i Free = (if i = 3 then 0 else 1)" if "i < 4" for i
    using c(2) [of Free] c(3) [of i] four_pages(2) [OF that] that by (cases "i = 3") (simp_all add: untouched_def)
  have "printMemory zero_node ?v = retn (?v, ''\<newline>\<newline>\<newline>Memory: \<newline>'' @ RULE @
      concat (map (\<lambda>i. page_report (bytes ?v) (memPtr ?v) (pgSize ?v) i ?bs) (filter (\<lambda>i. pg (bytes ?v) (memPtr ?v) i Free = 0) [0..<4])) @
      RULE @ ''\<newline>\<newline>'')"
  proof (rule printMemory_reports [OF _ v(4)])
    show "vm_pages ?v 4" unfolding v by (rule c(1)) simp_all
    fix i
    assume "i < (4 :: nat)" "pg (bytes ?v) (memPtr ?v) i Free = 0"
    then have "i = 3" unfolding v using free by (auto split: if_splits)
    then show "rep (bytes ?v) (frame (memPtr ?v) (pgSize ?v) i) ?bs \<and> length ?bs < 2 ^ 32 - 1"
      unfolding v using c(5) by simp
  qed
  moreover have "filter (\<lambda>i. pg m 4096 i Free = 0) [0..<4] = [3]"
  proof -
    have "filter (\<lambda>i. pg m 4096 i Free = 0) [0..<4] = filter (\<lambda>i. i = 3) [0..<4]" by (rule filter_cong) (auto simp: free)
    also have "\<dots> = [3]" by (simp add: upt_rec)
    finally show ?thesis .
  qed
  moreover have "pg m 4096 3 Pid = 7" using c(2) [of Pid] by simp
  ultimately show ?thesis unfolding v by (intro exI [of _ m]) simp
qed

text \<open>The same for the region of the thread library.\<close>

theorem printOSMemory_reports:
  assumes "rep (bytes v) (memPtr v + OSRESERVED_START) bs" "\<forall>x. \<not> prot v x" "length bs < 2 ^ 32 - 1"
  shows "printOSMemory junk v = retn (v, ''\<newline>\<newline>OS Memory: \<newline>'' @ RULE @
    spaces_report ''----- Free Space -----\<newline>'' (\<lambda>k. ''----- OS Element '' @ s32_text k @ '' -----\<newline>'')
      (\<lambda>z. ''Size: '' @ s32_text z @ ''\<newline>'') 1 bs @ RULE)"
proof -
  have "vfprintf ''----- OS Element %i -----\<newline>'' [Num W32 k] = retn (''----- OS Element '' @ s32_text k @ '' -----\<newline>'')"
    "vfprintf ''Size: %i\<newline>'' [Num W32 k] = retn (''Size: '' @ s32_text k @ ''\<newline>'')" for k
    using vfprintf_one(1) [of "''----- OS Element ''" "'' -----\<newline>''" _ k] vfprintf_one(1) [of "''Size: ''" "''\<newline>''" _ k] by simp_all
  from print_spaces_rep [OF assms(2,1) _ _ this, of 1 "''----- Free Space -----\<newline>''" "''----- Free Space -----\<newline>''" junk]
  show ?thesis using assms(3) by (simp add: printOSMemory_def vfprintf_text)
qed

lemma print_nodes_chain:
  "chain (\<lambda>n. nd_next (nodes_at h n)) n ns \<Longrightarrow>
    print_nodes h n = retn (concat (map (\<lambda>n. ptr_text (cells_at h (nd_thread (nodes_at h n))) @ '' | '') ns))"
proof (induction ns arbitrary: n)
  case Nil
  then show ?case by (simp add: print_nodes.simps)
next
  case (Cons a ns)
  have "vfprintf ''%p | '' [Num Pointer k] = retn (ptr_text k @ '' | '')" for k using vfprintf_one(2) [of "[]" "'' | ''" _ k] by simp
  then show ?case using Cons by (subst print_nodes.simps) simp
qed

text \<open>\<open>print\<close> lists the threads of a queue from front to back.\<close>

theorem print_lists:
  assumes "queues z h L A" "l \<in> L"
  shows "print h l = retn (''LIST:\<newline>\<newline>'' @ concat (map (\<lambda>t. ptr_text t @ '' | '') (A l)) @ ''ENDLIST\<newline>\<newline>'')"
proof -
  obtain ns where ns: "lrep h l ns (A l)" using assms by (auto simp: queues_def)
  then have "A l = map (node_tid h) ns" "chain (next_of h) (ll_head (lists_at h l)) ns" by (simp_all add: lrep_def)
  then have "print_nodes h (ll_head (lists_at h l)) = retn (concat (map (\<lambda>t. ptr_text t @ '' | '') (A l)))"
    using print_nodes_chain [of h "ll_head (lists_at h l)" ns] by (simp add: o_def)
  then show ?thesis using ns by (simp add: print_def vfprintf_text lrep_def)
qed

end
