(* ===== verification/Mutex.thy ===== *)
theory Mutex
  imports Thread_Theorems
begin

text \<open>
  The mutex of my_pthread.c as an interleaving of steps. Each thread that uses the mutex has a
  program counter in \<open>my_pthread_mutex_lock\<close>; a step is one piece of code that the timer cannot
  interrupt. The flag \<open>atomic\<close> says whether the timer is kept out of \<open>testAndSet\<close>. With it
  the lock excludes, without it, which is how the code is written, it does not.
\<close>

section \<open>Steps\<close>

text \<open>
  \<open>Out\<close>: not in the lock function and not holding the mutex; \<open>Wants\<close>: about to call \<open>testAndSet\<close>; \<open>Got v\<close>: has read
  the state \<open>v\<close> and not yet written it; \<open>Retry\<close>: in the loop body; \<open>In\<close>: the lock function has returned.
\<close>

datatype pc = Out | Wants | Got int | Retry | In

inductive mstep :: "bool \<Rightarrow> ptr \<Rightarrow> os \<times> (tid \<Rightarrow> pc) \<Rightarrow> os \<times> (tid \<Rightarrow> pc) \<Rightarrow> bool"
  for atomic m where
  Call: "pc (running s) = Out \<Longrightarrow> mstep atomic m (s, pc) (s, pc(running s := Wants))"
| Read: "pc (running s) = Wants \<Longrightarrow> mstep atomic m (s, pc) (s, pc(running s := Got (tas_read s m)))"
| Write: "pc (running s) = Got v \<Longrightarrow>
    mstep atomic m (s, pc) (tas_write s m, pc(running s := if v = 1 then Retry else In))"
| Wait: "\<lbrakk>pc (running s) = Retry; lock_wait s m = retn (s', b)\<rbrakk> \<Longrightarrow>
    mstep atomic m (s, pc) (s', pc(running s := Wants))"
| Unlock: "\<lbrakk>pc (running s) = In; my_pthread_mutex_unlock s m = retn s'\<rbrakk> \<Longrightarrow>
    mstep atomic m (s, pc) (s', pc(running s := Out))"
| Tick: "\<lbrakk>atomic \<longrightarrow> (\<forall>v. pc (running s) \<noteq> Got v); scheduler s = retn s'\<rbrakk> \<Longrightarrow> mstep atomic m (s, pc) (s', pc)"
| Yield: "\<lbrakk>pc (running s) \<in> {Out, In}; my_pthread_yield s = retn s'\<rbrakk> \<Longrightarrow> mstep atomic m (s, pc) (s', pc)"
| Join: "\<lbrakk>pc (running s) \<in> {Out, In}; my_pthread_join s t = retn (s', b)\<rbrakk> \<Longrightarrow> mstep atomic m (s, pc) (s', pc)"
| Exit: "\<lbrakk>pc (running s) = Out; threadExit s res slot = retn (s', b)\<rbrakk> \<Longrightarrow> mstep atomic m (s, pc) (s', pc)"

section \<open>What the calls keep of the mutexes\<close>

lemma virtualMemory_locks: "virtualMemory s = retn s' \<Longrightarrow> locks s' = locks s"
  by (auto simp: virtualMemory_def Let_def bindR_eq_retn split: if_splits)

lemma pop_run_locks: "pop_run s = retn s' \<Longrightarrow> locks s' = locks s"
  by (auto simp: pop_run_def bindR_eq_retn)

lemma count_turn_locks: "count_turn s = retn s' \<Longrightarrow> locks s' = locks s"
  by (auto simp: count_turn_def Let_def bindR_eq_retn split: if_splits)

lemma scheduler_locks:
  assumes "scheduler s = retn s'"
  shows "locks s' = locks s"
proof -
  obtain s2 where s2: "count_turn s = retn s2" "running s2 \<noteq> 0"
    using assms by (auto simp: scheduler_def bindR_eq_retn split: if_splits)
  obtain s3 where s3: "s3 = set_thread s2 (running s2) ((threads s2 (running s2))
      \<lparr>th_priority := (th_priority (threads s2 (running s2)) + 1) mod 2 ^ 32\<rparr>)" by simp
  have "locks s3 = locks s" using count_turn_locks [OF s2(1)] s3 by simp
  then show ?thesis
    using assms unfolding scheduler_after_turn [OF s2 s3]
    by (auto simp: bindR_eq_retn dest!: virtualMemory_locks split: if_splits)
qed

lemma yield_locks: "my_pthread_yield s = retn s' \<Longrightarrow> locks s' = locks s"
  by (auto simp: my_pthread_yield_def interrupt_def Let_def dest!: scheduler_locks split: if_splits)

lemma join_locks: "my_pthread_join s t = retn (s', b) \<Longrightarrow> locks s' = locks s"
  by (auto simp: my_pthread_join_def Let_def bindR_eq_retn dest!: virtualMemory_locks pop_run_locks split: if_splits)

lemma threadExit_locks: "threadExit s res slot = retn (s', b) \<Longrightarrow> locks s' = locks s"
  by (auto simp: threadExit_def Let_def bindR_eq_retn dest!: virtualMemory_locks pop_run_locks split: if_splits)

lemma lock_wait_locks: "lock_wait s m = retn (s', b) \<Longrightarrow> locks s' = locks s"
  by (auto simp: lock_wait_def bindR_eq_retn dest!: virtualMemory_locks pop_run_locks split: if_splits)

lemma unlock_locks:
  "my_pthread_mutex_unlock s m = retn s' \<Longrightarrow> lk_state (locks s' m) = 0 \<and> running s' = running s"
  by (auto simp: my_pthread_mutex_unlock_def bindR_eq_retn)

section \<open>Mutual exclusion\<close>

text \<open>
  A held mutex is marked as such and has one holder; only the running thread is between the
  two statements of \<open>testAndSet\<close>, and what it has read is still true.
\<close>

definition excl :: "ptr \<Rightarrow> os \<Rightarrow> (tid \<Rightarrow> pc) \<Rightarrow> bool" where
  "excl m s pc \<longleftrightarrow>
     lk_state (locks s m) \<in> {0, 1} \<and>
     (\<forall>t. pc t = In \<longrightarrow> lk_state (locks s m) = 1) \<and>
     (\<forall>t u. pc t = In \<longrightarrow> pc u = In \<longrightarrow> t = u) \<and>
     (\<forall>t v. pc t = Got v \<longrightarrow> t = running s \<and> v = lk_state (locks s m))"

lemma excl_switch:
  assumes "excl m s pc" "locks s' = locks s" "\<forall>v. pc (running s) \<noteq> Got v"
  shows "excl m s' pc"
  using assms unfolding excl_def by metis

lemma mstep_excl:
  assumes "mstep True m (s, pc) (s', pc')" "excl m s pc"
  shows "excl m s' pc'"
  using assms(1)
proof cases
  case Call
  then show ?thesis using assms(2) by (auto simp: excl_def)
next
  case Read
  then show ?thesis using assms(2) by (auto simp: excl_def tas_read_def)
next
  case (Write v)
  have v: "v = lk_state (locks s m)" and got: "pc t = Got w \<Longrightarrow> t = running s" for t w
    using assms(2) Write(3) by (auto simp: excl_def)
  have st: "lk_state (locks s' m) = 1" "running s' = running s" by (simp_all add: Write(1) tas_write_def)
  show ?thesis
  proof (cases "v = 1")
    case True
    then show ?thesis using assms(2) got unfolding excl_def st Write(2) by (simp add: v)
  next
    case False
    then have "pc t \<noteq> In" for t using assms(2) v unfolding excl_def by metis
    then show ?thesis using False got unfolding excl_def st Write(2) by (simp split: if_splits) blast
  qed
next
  case (Wait b)
  have "excl m s' pc" by (rule excl_switch [OF assms(2) lock_wait_locks [OF Wait(3)]]) (simp add: Wait(2))
  then show ?thesis using Wait(1) by (auto simp: excl_def)
next
  case Unlock
  then show ?thesis using assms(2) unlock_locks [OF Unlock(3)] by (auto simp: excl_def)
next
  case Tick
  then show ?thesis using excl_switch [OF assms(2) scheduler_locks] by simp
next
  case Yield
  then show ?thesis using excl_switch [OF assms(2) yield_locks] by auto
next
  case (Join t b)
  then show ?thesis using excl_switch [OF assms(2) join_locks] by auto
next
  case (Exit res slot b)
  then show ?thesis using excl_switch [OF assms(2) threadExit_locks] by auto
qed

lemma msteps_excl:
  assumes "(mstep True m)\<^sup>*\<^sup>* (s, pc) (s', pc')" "excl m s pc"
  shows "excl m s' pc'"
  using assms
proof (induction "(s', pc')" arbitrary: s' pc' rule: rtranclp_induct)
  case (step p)
  then show ?case using mstep_excl by (cases p) blast
qed simp

text \<open>
  C4. Mutual exclusion, if \<open>testAndSet\<close> is not interrupted: from a free mutex that no thread is at, in
  any interleaving of locking, unlocking, timer ticks, yields, joins and exits, at most one
  thread is between its lock and its unlock, and the mutex is then marked as held.
\<close>

theorem mutual_exclusion:
  assumes "(mstep True m)\<^sup>*\<^sup>* (s, \<lambda>_. Out) (s', pc)" "lk_state (locks s m) = 0"
    and "pc t = In" "pc u = In"
  shows "t = u \<and> lk_state (locks s' m) = 1"
proof -
  have "excl m s (\<lambda>_. Out)" using assms(2) by (simp add: excl_def)
  then have "excl m s' pc" by (rule msteps_excl [OF assms(1)])
  then show ?thesis using assms(3,4) by (auto simp: excl_def)
qed

lemma lock_free:
  assumes "lk_state (locks s m) = 0" "pc (running s) = Out"
  shows "(mstep atomic m)\<^sup>*\<^sup>* (s, pc) (tas_write s m, pc(running s := In))"
proof -
  let ?r = "running s"
  have "mstep atomic m (s, pc) (s, pc(?r := Wants))" using assms(2) by (rule mstep.Call)
  moreover have "mstep atomic m (s, pc(?r := Wants)) (s, pc(?r := Got 0))"
    using mstep.Read [of "pc(?r := Wants)" s atomic m] assms(1) by (simp add: tas_read_def)
  moreover have "mstep atomic m (s, pc(?r := Got 0)) (tas_write s m, pc(?r := In))"
    using mstep.Write [of "pc(?r := Got 0)" s 0 atomic m] by simp
  ultimately show ?thesis by (meson converse_rtranclp_into_rtranclp rtranclp.rtrancl_refl)
qed

theorem mutual_exclusion_witness:
  "\<exists>s s' pc. (mstep True 8)\<^sup>*\<^sup>* (s, \<lambda>_. Out) (s', pc) \<and> lk_state (locks s 8) = 0 \<and> pc 1 = In \<and>
     lk_state (locks s' 8) = 1"
proof -
  obtain s where s: "absys True s {10, 11, 12} 4 three_threads" using three_threads_ex by blast
  have z: "lk_state (locks s 8) = 0" "running s = 1"
    using absysD(6,9) [OF s] by (simp_all add: three_threads_def)
  have st: "(mstep True 8)\<^sup>*\<^sup>* (s, \<lambda>_. Out) (tas_write s 8, (\<lambda>_. Out)(1 := In))"
    using lock_free [of s 8 "\<lambda>_. Out" True] z by simp
  have "lk_state (locks (tas_write s 8) 8) = 1" using mutual_exclusion [OF st z(1), of 1 1] by simp
  then show ?thesis using st z(1)
    by (intro exI [of _ s] exI [of _ "tas_write s 8"] exI [of _ "(\<lambda>_. Out)(1 := In)"]) (simp only: fun_upd_same simp_thms)
qed

section \<open>The race\<close>

lemma scheduler_turn:
  assumes "absys z s L N a" "z \<or> turns a + 1 \<le> 150"
  shows "\<exists>s'. scheduler s = retn s' \<and> absys z s' L N (ascheduler a)"
proof -
  have "turn_ok s"
  proof (cases z)
    case True
    then show ?thesis using assms(1) turn_ok_zeroed by simp
  next
    case False
    then show ?thesis using assms turn_ok_early by blast
  qed
  then show ?thesis by (rule scheduler_absys [OF assms(1)])
qed

lemma ascheduler_pair:
  assumes "ready a = [u]"
  shows "current (ascheduler a) = u" "ready (ascheduler a) = [current a]"
    "locked (ascheduler a) = locked a"
  using assms by (simp_all add: ascheduler_def areorder_def arotate_def Let_def)

text \<open>
  C30. The mutex as written does not exclude: with two threads, one running and one ready, and a free
  mutex, there is a run in which both hold it. The timer fires between the two statements
  of \<open>testAndSet\<close> in the first thread; nothing masks it there. The two turns of the scheduler in this run do not reorder the
  queue by age, or new lists read as empty.
\<close>

theorem mutex_race:
  assumes ab: "absys z s L N a" and two: "current a = t" "ready a = [u]" "t \<noteq> u"
    and free: "lk_state (locked a m) = 0" and turns: "z \<or> turns a + 2 \<le> 150"
  shows "\<exists>s' pc. (mstep False m)\<^sup>*\<^sup>* (s, \<lambda>_. Out) (s', pc) \<and> pc t = In \<and> pc u = In"
proof -
  define p1 where "p1 = (\<lambda>_. Out)(t := Got 0)"
  have r: "running s = t" using absysD(6) [OF ab] two(1) by simp
  have "mstep False m (s, \<lambda>_. Out) (s, (\<lambda>_. Out)(t := Wants))"
    using mstep.Call [of "\<lambda>_. Out" s] r by simp
  moreover have "mstep False m (s, (\<lambda>_. Out)(t := Wants)) (s, p1)"
    using mstep.Read [of "(\<lambda>_. Out)(t := Wants)" s False m] r free absysD(9) [OF ab] by (simp add: tas_read_def p1_def)
  ultimately have A: "(mstep False m)\<^sup>*\<^sup>* (s, \<lambda>_. Out) (s, p1)" by simp
  obtain s1 where s1: "scheduler s = retn s1" "absys z s1 L N (ascheduler a)" using scheduler_turn [OF ab] turns by auto
  have r1: "running s1 = u" "lk_state (locks s1 m) = 0"
    using absysD(6,9) [OF s1(2)] ascheduler_pair [OF two(2)] free by auto
  have "(mstep False m)\<^sup>*\<^sup>* (s1, p1) (tas_write s1 m, p1(u := In))"
    using lock_free [of s1 m p1 False] r1 two(3) by (simp add: p1_def)
  then have B: "(mstep False m)\<^sup>*\<^sup>* (s, \<lambda>_. Out) (tas_write s1 m, p1(u := In))"
    using A mstep.Tick [of False p1 s s1 m] s1(1) by (meson converse_rtranclp_into_rtranclp rtranclp_trans)
  define a2 where "a2 = (ascheduler a)\<lparr>locked := (locked a)(m := (locked a m)\<lparr>lk_state := 1\<rparr>)\<rparr>"
  have "absys z (tas_write s1 m) L N a2"
    using s1(2) ascheduler_pair(3) [OF two(2)] by (simp add: absys_def tas_write_def mem_ok_def a2_def)
  moreover have "z \<or> turns a2 + 1 \<le> 150"
    using turns two(2) by (auto simp: a2_def ascheduler_def areorder_def arotate_def Let_def)
  ultimately obtain s2 where s2: "scheduler (tas_write s1 m) = retn s2" "absys z s2 L N (ascheduler a2)"
    using scheduler_turn by blast
  have r2: "running s2 = t"
    using absysD(6) [OF s2(2)] ascheduler_pair(1) [of a2 t] ascheduler_pair [OF two(2)] two(1) by (simp add: a2_def)
  have "mstep False m (tas_write s1 m, p1(u := In)) (s2, p1(u := In))" using s2(1) by (auto intro: mstep.Tick)
  moreover have "mstep False m (s2, p1(u := In)) (tas_write s2 m, p1(u := In, t := In))"
    using mstep.Write [of "p1(u := In)" s2 0 False m] r2 two(3) by (simp add: p1_def)
  ultimately have "(mstep False m)\<^sup>*\<^sup>* (s, \<lambda>_. Out) (tas_write s2 m, p1(u := In, t := In))" using B by simp
  then show ?thesis by (intro exI [of _ "tas_write s2 m"] exI [of _ "p1(u := In, t := In)"]) simp
qed

definition two_threads :: asys where
  "two_threads = three_threads\<lparr>qs := (\<lambda>l. if l = 10 then [2] else [])\<rparr>"

theorem mutex_race_witness:
  "\<exists>s s' pc. lk_state (locks s 8) = 0 \<and> (mstep False 8)\<^sup>*\<^sup>* (s, \<lambda>_. Out) (s', pc) \<and> pc 1 = In \<and> pc 2 = In"
proof -
  obtain s where s: "absys True s {10, 11, 12} 4 two_threads"
    using absys_ex [of "{10, 11, 12}" two_threads] by (auto simp: two_threads_def three_threads_def)
  have a: "current two_threads = 1" "ready two_threads = [2]" "lk_state (locked two_threads 8) = 0"
    by (simp_all add: two_threads_def three_threads_def)
  then obtain s' pc where "(mstep False 8)\<^sup>*\<^sup>* (s, \<lambda>_. Out) (s', pc)" "pc 1 = In" "pc 2 = In"
    using mutex_race [OF s a(1,2) _ a(3)] by auto
  moreover have "lk_state (locks s 8) = 0" using absysD(9) [OF s] a(3) by simp
  ultimately show ?thesis by (intro exI conjI)
qed

section \<open>Unlocking\<close>

text \<open>
  \<open>my_pthread_mutex_unlock\<close> frees the mutex and wakes the thread that has waited longest: it leaves
  the queue of the mutex and is ready, the others stay in their order, and the caller goes
  on running. With no waiter only the state changes.
\<close>

theorem unlock_wakes_first:
  assumes "absys z s L N a" "w = lk_wait (locked a m)" "w \<in> L" "w \<noteq> rq a"
  shows "\<exists>s' a'. my_pthread_mutex_unlock s m = retn s' \<and> absys z s' L N a' \<and> running s' = running s \<and>
    locks s' m = (locks s m)\<lparr>lk_state := 0\<rparr> \<and> qs a' w = tl (qs a w) \<and>
    mset (ready a') = mset (take 1 (qs a w)) + mset (ready a)"
proof -
  obtain s' where s': "my_pthread_mutex_unlock s m = retn s'" "absys z s' L N (aunlock a m)"
    using unlock_absys [OF assms(1), of m] assms(2-4) by auto
  have "current (aunlock a m) = current a" "locked (aunlock a m) m = (locked a m)\<lparr>lk_state := 0\<rparr>"
    "qs (aunlock a m) w = tl (qs a w)" "mset (ready (aunlock a m)) = mset (take 1 (qs a w)) + mset (ready a)"
    using assms(2,4) by (auto simp: aunlock_def Let_def ordered_insert_mset split: list.split)
  then show ?thesis using s' absysD(6,9) [OF assms(1)] absysD(6,9) [OF s'(2)] by auto
qed

theorem unlock_wakes_first_witness:
  "\<exists>s s' a'. my_pthread_mutex_unlock s 8 = retn s' \<and> absys True s' {10, 11, 12} 4 a' \<and> qs a' 11 = [5] \<and> ready a' = [4]"
proof -
  define a where "a = alone\<lparr>qs := (\<lambda>l. if l = 11 then [4, 5] else []), locked := (\<lambda>_. \<lparr>lk_state = 1, lk_wait = 11\<rparr>)\<rparr>"
  obtain s where s: "absys True s {10, 11, 12} 4 a"
    using absys_ex [of "{10, 11, 12}" a] by (auto simp: a_def alone_def)
  have "qs a 11 = [4, 5]" "ready a = []" "rq a = 10" "lk_wait (locked a 8) = 11" by (simp_all add: a_def alone_def)
  then show ?thesis using unlock_wakes_first [OF s, of 11 8] by auto
qed

end
