(* ===== verification/FS_Log.thy ===== *)
theory FS_Log
  imports C_Format
begin

text \<open>
  log.c: what the log functions write to the log file. A function that logs returns the text it appends; the log file is the
  concatenation. \<open>log_msg\<close> is \<open>vfprintf\<close> on the file, \<open>log_struct\<close> the macro of log.h.
\<close>

section \<open>The structs\<close>

text \<open>The state of the mounted file system (params.h): the log file is an open stream, here its address.\<close>

record sfs_state =
  sd_logfile :: nat
  sd_diskfile :: string

record fuse_context =
  fc_fuse :: nat
  fc_uid :: nat
  fc_gid :: nat
  fc_pid :: nat
  fc_private_data :: nat
  fc_umask :: nat

record fuse_conn_info =
  proto_major :: nat
  proto_minor :: nat
  async_read :: nat
  max_write :: nat
  max_readahead :: nat
  capable :: nat
  want :: nat

record fuse_file_info =
  fi_flags :: nat
  fh_old :: nat
  fi_writepage :: nat
  direct_io :: nat
  keep_cache :: nat
  fi_fh :: nat
  lock_owner :: nat

record stat_info =
  si_dev :: nat
  si_ino :: nat
  si_mode :: nat
  si_nlink :: nat
  si_uid :: nat
  si_gid :: nat
  si_rdev :: nat
  si_size :: nat
  si_blksize :: nat
  si_blocks :: nat
  si_atime :: nat
  si_mtime :: nat
  si_ctime :: nat

record statvfs =
  f_bsize :: nat
  f_frsize :: nat
  f_blocks :: nat
  f_bfree :: nat
  f_bavail :: nat
  f_files :: nat
  f_ffree :: nat
  f_favail :: nat
  f_fsid :: nat
  f_flag :: nat
  f_namemax :: nat

record utimbuf =
  actime :: nat
  modtime :: nat

section \<open>The log functions\<close>

text \<open>\<open>log_open\<close>: the stream that \<open>fopen("sfs.log", "w")\<close> gives, 0 when it fails. The file is empty afterwards.\<close>

definition log_open :: "nat \<Rightarrow> nat ret" where
  "log_open fopen_result = (if fopen_result = 0 then fail (ExitCall 1) else retn fopen_result)"

definition log_msg :: "string \<Rightarrow> arg list \<Rightarrow> string ret" where
  "log_msg fmt as = vfprintf fmt as"

definition log_struct :: "string \<Rightarrow> string \<Rightarrow> arg \<Rightarrow> string ret" where
  "log_struct name fmt a = log_msg (''    '' @ name @ '' = '' @ fmt @ ''\<newline>'') [a]"

text \<open>
  A log function writes a headline and then one line per member of its struct. The members are listed with their formats and with
  their types: those the comments in log.c and fuse.h give, as x86-64 Linux defines them (\<open>uid_t\<close>, \<open>gid_t\<close>, \<open>mode_t\<close> and
  \<open>pid_t\<close> have 32 bits; \<open>dev_t\<close>, \<open>ino_t\<close>, \<open>nlink_t\<close>, \<open>off_t\<close>, \<open>blksize_t\<close>, \<open>blkcnt_t\<close>, \<open>time_t\<close>, the counts of
  \<open>struct statvfs\<close> and \<open>uint64_t\<close> have 64).
\<close>

type_synonym member = "string \<times> string \<times> arg"

definition log_members :: "member list \<Rightarrow> string ret" where
  "log_members ms = outputs (map (\<lambda>(name, fmt, a). log_struct name fmt a) ms)"

text \<open>\<open>sd\<close> is what \<open>context->private_data\<close> points to.\<close>

definition context_members :: "fuse_context \<Rightarrow> member list" where
  "context_members ctx =
     [(''fuse'', ''%08x'', Num Pointer (fc_fuse ctx)),
      (''uid'', ''%d'', Num W32 (fc_uid ctx)),
      (''gid'', ''%d'', Num W32 (fc_gid ctx)),
      (''pid'', ''%d'', Num W32 (fc_pid ctx)),
      (''private_data'', ''%08x'', Num Pointer (fc_private_data ctx))]"

definition state_members :: "sfs_state \<Rightarrow> member list" where
  "state_members sd =
     [(''logfile'', ''%08x'', Num Pointer (sd_logfile sd)),
      (''diskfile'', ''%s'', Str (sd_diskfile sd))]"

definition umask_members :: "fuse_context \<Rightarrow> member list" where
  "umask_members ctx = [(''umask'', ''%05o'', Num W32 (fc_umask ctx))]"

definition log_fuse_context :: "fuse_context \<Rightarrow> sfs_state \<Rightarrow> string ret" where
  "log_fuse_context ctx sd = outputs
     [log_msg ''    context:\<newline>'' [],
      log_members (context_members ctx),
      (if fc_private_data ctx = 0 then fail NullDeref else log_members (state_members sd)),
      log_members (umask_members ctx)]"

definition conn_members :: "fuse_conn_info \<Rightarrow> member list" where
  "conn_members conn =
     [(''proto_major'', ''%d'', Num W32 (proto_major conn)),
      (''proto_minor'', ''%d'', Num W32 (proto_minor conn)),
      (''async_read'', ''%d'', Num W32 (async_read conn)),
      (''max_write'', ''%d'', Num W32 (max_write conn)),
      (''max_readahead'', ''%d'', Num W32 (max_readahead conn)),
      (''capable'', ''%08x'', Num W32 (capable conn)),
      (''want'', ''%08x'', Num W32 (want conn))]"

definition log_conn :: "fuse_conn_info \<Rightarrow> string ret" where
  "log_conn conn = outputs [log_msg ''    conn:\<newline>'' [], log_members (conn_members conn)]"

definition fi_members :: "fuse_file_info \<Rightarrow> member list" where
  "fi_members fi =
     [(''flags'', ''0x%08x'', Num W32 (fi_flags fi)),
      (''fh_old'', ''0x%08lx'', Num W64 (fh_old fi)),
      (''writepage'', ''%d'', Num W32 (fi_writepage fi)),
      (''direct_io'', ''%d'', Num W32 (direct_io fi)),
      (''keep_cache'', ''%d'', Num W32 (keep_cache fi)),
      (''fh'', ''0x%016llx'', Num W64 (fi_fh fi)),
      (''lock_owner'', ''0x%016llx'', Num W64 (lock_owner fi))]"

definition log_fi :: "fuse_file_info \<Rightarrow> string ret" where
  "log_fi fi = outputs [log_msg ''    fi:\<newline>'' [], log_members (fi_members fi)]"

definition stat_members :: "stat_info \<Rightarrow> member list" where
  "stat_members si =
     [(''st_dev'', ''%lld'', Num W64 (si_dev si)),
      (''st_ino'', ''%lld'', Num W64 (si_ino si)),
      (''st_mode'', ''0%o'', Num W32 (si_mode si)),
      (''st_nlink'', ''%d'', Num W64 (si_nlink si)),
      (''st_uid'', ''%d'', Num W32 (si_uid si)),
      (''st_gid'', ''%d'', Num W32 (si_gid si)),
      (''st_rdev'', ''%lld'', Num W64 (si_rdev si)),
      (''st_size'', ''%lld'', Num W64 (si_size si)),
      (''st_blksize'', ''%ld'', Num W64 (si_blksize si)),
      (''st_blocks'', ''%lld'', Num W64 (si_blocks si)),
      (''st_atime'', ''0x%08lx'', Num W64 (si_atime si)),
      (''st_mtime'', ''0x%08lx'', Num W64 (si_mtime si)),
      (''st_ctime'', ''0x%08lx'', Num W64 (si_ctime si))]"

definition log_stat :: "stat_info \<Rightarrow> string ret" where
  "log_stat si = outputs [log_msg ''    si:\<newline>'' [], log_members (stat_members si)]"

definition statvfs_members :: "statvfs \<Rightarrow> member list" where
  "statvfs_members sv =
     [(''f_bsize'', ''%ld'', Num W64 (f_bsize sv)),
      (''f_frsize'', ''%ld'', Num W64 (f_frsize sv)),
      (''f_blocks'', ''%lld'', Num W64 (f_blocks sv)),
      (''f_bfree'', ''%lld'', Num W64 (f_bfree sv)),
      (''f_bavail'', ''%lld'', Num W64 (f_bavail sv)),
      (''f_files'', ''%lld'', Num W64 (f_files sv)),
      (''f_ffree'', ''%lld'', Num W64 (f_ffree sv)),
      (''f_favail'', ''%lld'', Num W64 (f_favail sv)),
      (''f_fsid'', ''%ld'', Num W64 (f_fsid sv)),
      (''f_flag'', ''0x%08lx'', Num W64 (f_flag sv)),
      (''f_namemax'', ''%ld'', Num W64 (f_namemax sv))]"

definition log_statvfs :: "statvfs \<Rightarrow> string ret" where
  "log_statvfs sv = outputs [log_msg ''    sv:\<newline>'' [], log_members (statvfs_members sv)]"

definition utime_members :: "utimbuf \<Rightarrow> member list" where
  "utime_members buf =
     [(''actime'', ''0x%08lx'', Num W64 (actime buf)),
      (''modtime'', ''0x%08lx'', Num W64 (modtime buf))]"

definition log_utime :: "utimbuf \<Rightarrow> string ret" where
  "log_utime buf = outputs [log_msg ''    buf:\<newline>'' [], log_members (utime_members buf)]"

section \<open>What the formats write\<close>

abbreviation x32_text :: "nat \<Rightarrow> string" where "x32_text v \<equiv> pad True 8 (digits 16 (v mod 2 ^ 32))"
abbreviation x64_text :: "nat \<Rightarrow> nat \<Rightarrow> string" where "x64_text w v \<equiv> pad True w (digits 16 (v mod 2 ^ 64))"

definition entry :: "string \<times> string \<Rightarrow> string" where
  "entry e = ''    '' @ fst e @ '' = '' @ snd e @ ''\<newline>''"

lemma log_struct_entry:
  assumes "CHR ''%'' \<notin> set name" "vfprintf (fmt @ ''\<newline>'') [a] = retn (t @ ''\<newline>'')"
  shows "log_struct name fmt a = retn (entry (name, t))"
proof -
  have "CHR ''%'' \<notin> set (''    '' @ name @ '' = '')" using assms(1) by simp
  from vfprintf_plain [OF this, of "fmt @ ''\<newline>''" "[a]"] show ?thesis
    using assms(2) by (simp add: log_struct_def log_msg_def entry_def)
qed

lemma log_formats:
  "vfprintf (''%d'' @ ''\<newline>'') [Num ty v] = retn (s32_text v @ ''\<newline>'')"
  "vfprintf (''%ld'' @ ''\<newline>'') [Num ty v] = retn (s64_text v @ ''\<newline>'')"
  "vfprintf (''%lld'' @ ''\<newline>'') [Num ty v] = retn (s64_text v @ ''\<newline>'')"
  "vfprintf (''%08x'' @ ''\<newline>'') [Num ty v] = retn (x32_text v @ ''\<newline>'')"
  "vfprintf (''0x%08x'' @ ''\<newline>'') [Num ty v] = retn ((''0x'' @ x32_text v) @ ''\<newline>'')"
  "vfprintf (''0x%08lx'' @ ''\<newline>'') [Num ty v] = retn ((''0x'' @ x64_text 8 v) @ ''\<newline>'')"
  "vfprintf (''0x%016llx'' @ ''\<newline>'') [Num ty v] = retn ((''0x'' @ x64_text 16 v) @ ''\<newline>'')"
  "vfprintf (''0%o'' @ ''\<newline>'') [Num ty v] = retn ((''0'' @ digits 8 (v mod 2 ^ 32)) @ ''\<newline>'')"
  "vfprintf (''%05o'' @ ''\<newline>'') [Num ty v] = retn (pad True 5 (digits 8 (v mod 2 ^ 32)) @ ''\<newline>'')"
  "vfprintf (''%s'' @ ''\<newline>'') [Str s] = retn (s @ ''\<newline>'')"
  by (simp_all add: vfprintf_def convert_def Let_def digit_val_def)

lemmas log_entries = log_formats [THEN log_struct_entry [rotated]]


lemma log_stat_text:
  "log_stat si = retn (''    si:\<newline>'' @ concat (map entry
     [(''st_dev'', s64_text (si_dev si)), (''st_ino'', s64_text (si_ino si)),
      (''st_mode'', ''0'' @ digits 8 (si_mode si mod 2 ^ 32)),
      (''st_nlink'', s32_text (si_nlink si)), (''st_uid'', s32_text (si_uid si)), (''st_gid'', s32_text (si_gid si)),
      (''st_rdev'', s64_text (si_rdev si)), (''st_size'', s64_text (si_size si)), (''st_blksize'', s64_text (si_blksize si)),
      (''st_blocks'', s64_text (si_blocks si)), (''st_atime'', ''0x'' @ x64_text 8 (si_atime si)),
      (''st_mtime'', ''0x'' @ x64_text 8 (si_mtime si)), (''st_ctime'', ''0x'' @ x64_text 8 (si_ctime si))]))"
  by (simp add: log_stat_def log_members_def stat_members_def log_msg_def vfprintf_text log_entries)

section \<open>Reading the log back\<close>

text \<open>The lines of a text, and the name and value of a line that \<open>log_struct\<close> wrote.\<close>

function text_lines :: "string \<Rightarrow> string list" where
  "text_lines s =
     (case dropWhile (\<lambda>c. c \<noteq> CHR ''\<newline>'') s of
        [] \<Rightarrow> []
      | c # r \<Rightarrow> takeWhile (\<lambda>c. c \<noteq> CHR ''\<newline>'') s # text_lines r)"
  by auto
termination
proof (relation "measure length")
  fix s :: string and c r
  assume "dropWhile (\<lambda>c. c \<noteq> CHR ''\<newline>'') s = c # r"
  then have "length (c # r) \<le> length s" by (metis length_dropWhile_le)
  then show "(r, s) \<in> measure length" by simp
qed simp

declare text_lines.simps [simp del]

definition field_of :: "string \<Rightarrow> string \<times> string" where
  "field_of l =
     (let r = drop 4 l in (takeWhile (\<lambda>c. c \<noteq> CHR '' '') r, drop 3 (dropWhile (\<lambda>c. c \<noteq> CHR '' '') r)))"

definition log_fields :: "string \<Rightarrow> (string \<times> string) list" where
  "log_fields t = map field_of (tl (text_lines t))"

lemma upto_char:
  assumes "c \<notin> set s"
  shows "takeWhile (\<lambda>x. x \<noteq> c) (s @ c # r) = s" "dropWhile (\<lambda>x. x \<noteq> c) (s @ c # r) = c # r"
  using assms by (induction s) auto

lemma text_lines_line:
  assumes "CHR ''\<newline>'' \<notin> set s"
  shows "text_lines (s @ CHR ''\<newline>'' # r) = s # text_lines r"
  by (subst text_lines.simps) (simp only: upto_char [OF assms] list.case)

definition field_ok :: "string \<times> string \<Rightarrow> bool" where
  "field_ok e \<longleftrightarrow> CHR '' '' \<notin> set (fst e) \<and> CHR ''\<newline>'' \<notin> set (fst e) \<and> CHR ''\<newline>'' \<notin> set (snd e)"

lemma text_lines_entries:
  "list_all field_ok es \<Longrightarrow> map field_of (text_lines (concat (map entry es))) = es"
proof (induction es)
  case Nil
  show ?case by (subst text_lines.simps) simp
next
  case (Cons e es)
  let ?l = "''    '' @ fst e @ '' = '' @ snd e"
  have ok: "CHR '' '' \<notin> set (fst e)" "CHR ''\<newline>'' \<notin> set ?l" using Cons.prems by (simp_all add: field_ok_def)
  have "drop 4 ?l = fst e @ CHR '' '' # ''= '' @ snd e" by simp
  then have "field_of ?l = e" by (simp add: field_of_def Let_def upto_char [OF ok(1)])
  moreover have "concat (map entry (e # es)) = ?l @ CHR ''\<newline>'' # concat (map entry es)" by (simp add: entry_def)
  ultimately show ?case using text_lines_line [OF ok(2)] Cons by simp
qed

lemma log_fields_entries:
  assumes "CHR ''\<newline>'' \<notin> set h" "list_all field_ok es"
  shows "log_fields ((h @ ''\<newline>'') @ concat (map entry es)) = es"
  using text_lines_line [OF assms(1)] text_lines_entries [OF assms(2)] by (simp add: log_fields_def)

text \<open>Numbers as the log shows them.\<close>

definition read_dec :: "string \<Rightarrow> int" where
  "read_dec s = (case s of [] \<Rightarrow> 0 | c # r \<Rightarrow> if c = CHR ''-'' then - int (number 10 r) else int (number 10 s))"

lemma read_dec_signed [simp]: "read_dec (signed False 0 i) = i"
proof -
  have "\<exists>c r. digits 10 n = c # r \<and> c \<noteq> CHR ''-''" for n
  proof -
    obtain c r where c: "digits 10 n = c # r" using dec.digits_nonempty [of n] by (cases "digits 10 n") auto
    then have "c \<in> digit_chars" using dec.digits_chars [of n] by simp
    then show ?thesis using c by (auto simp: digit_chars)
  qed
  then obtain c r where "digits 10 (nat i) = c # r" "c \<noteq> CHR ''-''" by blast
  then show ?thesis using dec.number_digits [of "nat i"] dec.number_digits [of "nat (- i)"]
    by (simp add: signed_def pad_def read_dec_def)
qed

definition read_stat :: "string \<Rightarrow> stat_info" where
  "read_stat t =
     (let f = (\<lambda>n. case map_of (log_fields t) n of None \<Rightarrow> [] | Some s \<Rightarrow> s)
      in \<lparr>si_dev = u64 (read_dec (f ''st_dev'')), si_ino = u64 (read_dec (f ''st_ino'')), si_mode = number 8 (f ''st_mode''),
          si_nlink = u32 (read_dec (f ''st_nlink'')), si_uid = u32 (read_dec (f ''st_uid'')), si_gid = u32 (read_dec (f ''st_gid'')),
          si_rdev = u64 (read_dec (f ''st_rdev'')), si_size = u64 (read_dec (f ''st_size'')),
          si_blksize = u64 (read_dec (f ''st_blksize'')), si_blocks = u64 (read_dec (f ''st_blocks'')),
          si_atime = number 16 (drop 2 (f ''st_atime'')), si_mtime = number 16 (drop 2 (f ''st_mtime'')),
          si_ctime = number 16 (drop 2 (f ''st_ctime''))\<rparr>)"

text \<open>The fields of a \<open>struct stat\<close> in their C widths.\<close>

definition stat_fits :: "stat_info \<Rightarrow> bool" where
  "stat_fits si \<longleftrightarrow>
     list_all (\<lambda>v. v < 2 ^ 64) [si_dev si, si_ino si, si_nlink si, si_rdev si, si_size si, si_blksize si, si_blocks si,
       si_atime si, si_mtime si, si_ctime si] \<and>
     list_all (\<lambda>v. v < 2 ^ 32) [si_mode si, si_uid si, si_gid si]"

lemma u32_s32: "u32 (s32 v) = v mod 2 ^ 32"
  by (simp add: u32_def s32_def Let_def zmod_int nat_mod_distrib)

lemma read_based [simp]:
  "number 16 (pad True w (digits 16 n)) = n" "number 8 (CHR ''0'' # digits 8 n) = n"
proof -
  show "number 16 (pad True w (digits 16 n)) = n" by (simp add: pad_def hex.number_zeros hex.number_digits)
  show "number 8 (CHR ''0'' # digits 8 n) = n"
    using oct.number_zeros [of 1 "digits 8 n"] by (simp add: pad_def oct.number_digits)
qed

lemma one_line [simp]:
  "CHR ''\<newline>'' \<notin> set (signed False 0 i)" "CHR ''\<newline>'' \<notin> set (pad True w (digits 16 n))"
  "CHR ''\<newline>'' \<notin> set (digits 8 n)"
proof -
  have "CHR ''\<newline>'' \<notin> digit_chars" by (simp add: digit_chars)
  then have "CHR ''\<newline>'' \<notin> set (digits 10 k)" "CHR ''\<newline>'' \<notin> set (digits 16 k)" "CHR ''\<newline>'' \<notin> set (digits 8 k)" for k
    using dec.digits_chars [of k] hex.digits_chars [of k] oct.digits_chars [of k] by blast+
  then show "CHR ''\<newline>'' \<notin> set (signed False 0 i)" "CHR ''\<newline>'' \<notin> set (pad True w (digits 16 n))"
    "CHR ''\<newline>'' \<notin> set (digits 8 n)"
    by (simp_all add: signed_def pad_def)
qed

text \<open>A member whose line shows its name and fits on one line.\<close>

definition one_liner :: "member \<Rightarrow> bool" where
  "one_liner m = (case m of (name, fmt, a) \<Rightarrow> \<exists>t. log_struct name fmt a = retn (entry (name, t)) \<and> field_ok (name, t))"

lemma one_linerI:
  assumes "CHR ''%'' \<notin> set name" "field_ok (name, t)" "vfprintf (fmt @ ''\<newline>'') [a] = retn (t @ ''\<newline>'')"
  shows "one_liner (name, fmt, a)"
  using log_struct_entry [OF assms(1,3)] assms(2) by (auto simp: one_liner_def)

lemmas one_liners = log_formats [THEN one_linerI [rotated 2]]

lemma log_members_lines:
  "list_all one_liner ms \<Longrightarrow>
    \<exists>es. log_members ms = retn (concat (map entry es)) \<and> map fst es = map fst ms \<and> list_all field_ok es"
proof (induction ms)
  case Nil
  show ?case by (simp add: log_members_def)
next
  case (Cons m ms)
  obtain name fmt a where m: "m = (name, fmt, a)" by (cases m)
  obtain t where t: "log_struct name fmt a = retn (entry (name, t))" "field_ok (name, t)"
    using Cons.prems m by (auto simp: one_liner_def)
  obtain es where "log_members ms = retn (concat (map entry es))" "map fst es = map fst ms" "list_all field_ok es"
    using Cons by auto
  then show ?case using t m by (intro exI [of _ "(name, t) # es"]) (simp add: log_members_def)
qed

lemma log_text_lines:
  assumes "list_all one_liner ms" "CHR ''%'' \<notin> set h" "CHR ''\<newline>'' \<notin> set h"
  shows "\<exists>t. outputs [log_msg (h @ ''\<newline>'') [], log_members ms] = retn t \<and> map fst (log_fields t) = map fst ms"
proof -
  obtain es where es: "log_members ms = retn (concat (map entry es))" "map fst es = map fst ms" "list_all field_ok es"
    using log_members_lines [OF assms(1)] by blast
  show ?thesis using log_fields_entries [OF assms(3) es(3)] es(1,2) assms(2) by (simp add: log_msg_def vfprintf_text)
qed

text \<open>The members whose format is not for their type.\<close>

definition unfit :: "member list \<Rightarrow> string list" where
  "unfit ms = map fst (filter (\<lambda>(name, fmt, a). \<not> format_fits fmt [a]) ms)"


text \<open>
  C21. The log of a \<open>struct stat\<close> can be read back: from the text that \<open>log_stat\<close> writes, every field is recovered with all its bits,
  except \<open>st_nlink\<close>, of which the format \<open>%d\<close> shows the low 32 of 64 bits.
\<close>

theorem log_stat_reads_back:
  assumes "stat_fits si"
  shows "\<exists>t. log_stat si = retn t \<and> read_stat t = si\<lparr>si_nlink := si_nlink si mod 2 ^ 32\<rparr>"
proof -
  obtain t es where t: "log_stat si = retn t" and es: "es =
     [(''st_dev'', s64_text (si_dev si)), (''st_ino'', s64_text (si_ino si)),
      (''st_mode'', ''0'' @ digits 8 (si_mode si mod 2 ^ 32)),
      (''st_nlink'', s32_text (si_nlink si)), (''st_uid'', s32_text (si_uid si)), (''st_gid'', s32_text (si_gid si)),
      (''st_rdev'', s64_text (si_rdev si)), (''st_size'', s64_text (si_size si)), (''st_blksize'', s64_text (si_blksize si)),
      (''st_blocks'', s64_text (si_blocks si)), (''st_atime'', ''0x'' @ x64_text 8 (si_atime si)),
      (''st_mtime'', ''0x'' @ x64_text 8 (si_mtime si)), (''st_ctime'', ''0x'' @ x64_text 8 (si_ctime si))]"
    and te: "t = (''    si:'' @ ''\<newline>'') @ concat (map entry es)"
    using log_stat_text [of si] by simp
  have "list_all field_ok es" by (simp add: es field_ok_def)
  then have "log_fields t = es" unfolding te by (intro log_fields_entries) simp
  then have "read_stat t = si\<lparr>si_nlink := si_nlink si mod 2 ^ 32\<rparr>"
    using assms by (simp add: read_stat_def Let_def es u32_s32 u64_s64 stat_fits_def)
  then show ?thesis using t by blast
qed

theorem log_stat_reads_back_witness:
  "\<exists>t. log_stat \<lparr>si_dev = 0, si_ino = 7, si_mode = 33206, si_nlink = 2 ^ 32 + 1, si_uid = 4294967295, si_gid = 0, si_rdev = 0,
      si_size = 512, si_blksize = 0, si_blocks = 2 ^ 64 - 1, si_atime = 255, si_mtime = 0, si_ctime = 0\<rparr> = retn t \<and>
    read_stat t = \<lparr>si_dev = 0, si_ino = 7, si_mode = 33206, si_nlink = 1, si_uid = 4294967295, si_gid = 0, si_rdev = 0,
      si_size = 512, si_blksize = 0, si_blocks = 2 ^ 64 - 1, si_atime = 255, si_mtime = 0, si_ctime = 0\<rparr>"
  using log_stat_reads_back [of "\<lparr>si_dev = 0, si_ino = 7, si_mode = 33206, si_nlink = 2 ^ 32 + 1, si_uid = 4294967295, si_gid = 0,
      si_rdev = 0, si_size = 512, si_blksize = 0, si_blocks = 2 ^ 64 - 1, si_atime = 255, si_mtime = 0, si_ctime = 0\<rparr>"]
  by (simp add: stat_fits_def)

end
