(* ===== verification/Block_Device.thy ===== *)
theory Block_Device
  imports Byte_Memory
begin

text \<open>
  block.c: the disk of the file system, a host file read and written in blocks of 512 bytes.
  The file is a byte map with a length; bytes from the length on read as zero once the file
  grows over them. Which offsets the host fails on is part of the disk, so that the error
  branches of the callers are there; a write either stores the whole block or fails.
\<close>

section \<open>The disk file\<close>

abbreviation BLOCK_SIZE :: nat where "BLOCK_SIZE \<equiv> 512"

text \<open>
  \<open>diskfile\<close> is the global descriptor, \<open>dopen\<close> whether it refers to an open file.
\<close>

record disk =
  dbytes :: memory
  dlen :: nat
  diskfile :: int
  dopen :: bool
  rdErr :: "nat \<Rightarrow> bool"
  wrErr :: "nat \<Rightarrow> bool"

text \<open>\<open>fd\<close> is what \<open>open\<close> returns.\<close>

definition disk_open :: "disk \<Rightarrow> int \<Rightarrow> disk ret" where
  "disk_open d fd =
     (if diskfile d \<ge> 0 then retn d
      else if fd < 0 then fail (ExitCall 1)
      else retn (d\<lparr>diskfile := fd, dopen := True\<rparr>))"

definition disk_close :: "disk \<Rightarrow> disk" where
  "disk_close d = (if diskfile d \<ge> 0 then d\<lparr>dopen := False\<rparr> else d)"

text \<open>\<open>block_num*BLOCK_SIZE\<close>, computed in \<open>int\<close>.\<close>

definition block_off :: "int \<Rightarrow> int" where
  "block_off n = s32 (u32 (n * 512))"

definition pread :: "disk \<Rightarrow> int \<Rightarrow> memory \<Rightarrow> memory \<times> int" where
  "pread d off buf =
     (if \<not> dopen d \<or> off < 0 \<or> rdErr d (nat off) then (buf, -1)
      else
        let n = min BLOCK_SIZE (dlen d - nat off)
        in (copy_in buf 0 (copy_out (dbytes d) (nat off)) n, int n))"

definition pwrite :: "disk \<Rightarrow> int \<Rightarrow> memory \<Rightarrow> disk \<times> int" where
  "pwrite d off buf =
     (if \<not> dopen d \<or> off < 0 \<or> wrErr d (nat off) then (d, -1)
      else (d\<lparr>dbytes := copy_in (\<lambda>x. if x < dlen d then dbytes d x else 0) (nat off) buf BLOCK_SIZE,
              dlen := max (dlen d) (nat off + BLOCK_SIZE)\<rparr>, int BLOCK_SIZE))"

definition block_read :: "disk \<Rightarrow> int \<Rightarrow> memory \<Rightarrow> memory \<times> int" where
  "block_read d n buf =
     (let (buf1, r) = pread d (block_off n) buf
      in if r \<le> 0 then (memset buf1 0 0 BLOCK_SIZE, r) else (buf1, r))"

definition block_write :: "disk \<Rightarrow> int \<Rightarrow> memory \<Rightarrow> disk \<times> int" where
  "block_write d n buf = pwrite d (block_off n) buf"

section \<open>A disk that works\<close>

text \<open>
  What the file system sees of a disk without I/O errors whose file is whole blocks: one
  byte map \<open>content\<close>, zero behind the end of the file.
\<close>

definition content :: "disk \<Rightarrow> memory" where
  "content d = (\<lambda>x. if x < dlen d then dbytes d x else 0)"

definition disk_ok :: "disk \<Rightarrow> bool" where
  "disk_ok d \<longleftrightarrow> dopen d \<and> 512 dvd dlen d \<and> rdErr d = (\<lambda>_. False) \<and> wrErr d = (\<lambda>_. False)"

text \<open>The largest block number whose byte offset fits an \<open>int\<close> is \<open>2 ^ 22 - 1\<close>.\<close>

abbreviation block_ok :: "int \<Rightarrow> bool" where
  "block_ok n \<equiv> 0 \<le> n \<and> n < 2 ^ 22"

lemma block_off_ok: "block_ok n \<Longrightarrow> block_off n = 512 * n"
  unfolding block_off_def by (subst s32_u32) auto

lemma block_read_ok:
  assumes "disk_ok d" "block_ok n"
  shows "snd (block_read d n buf) \<ge> 0" "i < 512 \<Longrightarrow> fst (block_read d n buf) i = content d (512 * nat n + i)"
    "512 \<le> i \<Longrightarrow> fst (block_read d n buf) i = buf i"
proof -
  obtain k where k: "dlen d = 512 * k" using assms(1) by (auto simp: disk_ok_def)
  have off: "nat (block_off n) = 512 * nat n" "\<not> block_off n < 0"
    using assms(2) by (simp_all add: block_off_ok nat_mult_distrib)
  have "nat n < k \<or> k \<le> nat n" by arith
  then have len: "512 * nat n + 512 \<le> dlen d \<or> dlen d \<le> 512 * nat n" by (auto simp: k)
  show "snd (block_read d n buf) \<ge> 0" using assms(1) off
    by (simp add: block_read_def pread_def disk_ok_def Let_def)
  show "fst (block_read d n buf) i = content d (512 * nat n + i)" if "i < 512"
    using assms(1) off len that
    by (auto simp: block_read_def pread_def disk_ok_def Let_def content_def memset_def copy_in_def min_def)
  show "fst (block_read d n buf) i = buf i" if "512 \<le> i"
    using assms(1) off len that
    by (auto simp: block_read_def pread_def disk_ok_def Let_def memset_def copy_in_def min_def)
qed

lemma block_write_ok:
  assumes "disk_ok d" "block_ok n" "block_write d n buf = (d', r)"
  shows "r = 512" "disk_ok d'" "content d' = copy_in (content d) (512 * nat n) buf 512"
    "dlen d' = max (dlen d) (512 * nat n + 512)"
proof -
  have off: "nat (block_off n) = 512 * nat n" "\<not> block_off n < 0"
    using assms(2) by (simp_all add: block_off_ok nat_mult_distrib)
  have d': "d' = d\<lparr>dbytes := copy_in (content d) (512 * nat n) buf 512, dlen := max (dlen d) (512 * nat n + 512)\<rparr>"
    and "r = 512"
    using assms(1,3) off by (auto simp: block_write_def pwrite_def disk_ok_def content_def)
  then show "r = 512" "dlen d' = max (dlen d) (512 * nat n + 512)" by simp_all
  have "512 dvd max (dlen d) (512 * nat n + 512)" using assms(1) by (auto simp: max_def disk_ok_def)
  then show "disk_ok d'" using assms(1) d' by (simp add: disk_ok_def)
  show "content d' = copy_in (content d) (512 * nat n) buf 512"
    by (rule ext) (auto simp: d' content_def copy_in_def)
qed

lemma block_write_ex:
  assumes "disk_ok d" "block_ok n"
  obtains d' where "block_write d n buf = (d', 512)" "disk_ok d'"
    "content d' = copy_in (content d) (512 * nat n) buf 512" "dlen d' = max (dlen d) (512 * nat n + 512)"
  using block_write_ok [OF assms] by (cases "block_write d n buf") blast

section \<open>The interface to the file system\<close>

text \<open>\<open>b\<close> holds the 512 bytes of \<open>c\<close> from \<open>a\<close> on.\<close>

definition window :: "memory \<Rightarrow> memory \<Rightarrow> nat \<Rightarrow> bool" where
  "window b c a \<longleftrightarrow> (\<forall>i<512. b i = c (a + i))"

text \<open>\<open>c'\<close> and \<open>c\<close> differ at most in the bytes from \<open>a\<close> to \<open>a + n\<close>.\<close>

definition only :: "nat \<Rightarrow> nat \<Rightarrow> memory \<Rightarrow> memory \<Rightarrow> bool" where
  "only a n c c' \<longleftrightarrow> (\<forall>x. x < a \<or> a + n \<le> x \<longrightarrow> c' x = c x)"

text \<open>
  What the file system relies on: devices that are \<open>good\<close> have a \<open>view\<close>, one byte map; reading a \<open>legal\<close> block gives
  its bytes, and writing one stores them, changes nothing else and leaves the device good.
\<close>

locale block_interface =
  fixes good :: "'d \<Rightarrow> bool" and view :: "'d \<Rightarrow> memory" and legal :: "int \<Rightarrow> bool"
    and bread :: "'d \<Rightarrow> int \<Rightarrow> memory \<Rightarrow> memory \<times> int" and bwrite :: "'d \<Rightarrow> int \<Rightarrow> memory \<Rightarrow> 'd \<times> int"
  assumes legal_pos: "legal n \<Longrightarrow> 0 \<le> n"
    and bread_window: "good d \<Longrightarrow> legal n \<Longrightarrow> window (fst (bread d n b)) (view d) (512 * nat n)"
    and bwrite_view: "good d \<Longrightarrow> legal n \<Longrightarrow>
      \<exists>d'. bwrite d n b = (d', 512) \<and> good d' \<and> view d' = copy_in (view d) (512 * nat n) b 512"
begin

text \<open>Writing a buffer that is a window of \<open>c'\<close> makes the content \<open>c'\<close>.\<close>

lemma bstore:
  assumes "good d" "legal n" "window b c' (512 * nat n)" "only (512 * nat n) 512 (view d) c'"
  obtains d' where "bwrite d n b = (d', 512)" "good d'" "view d' = c'"
proof -
  obtain d' where d': "bwrite d n b = (d', 512)" "good d'" "view d' = copy_in (view d) (512 * nat n) b 512"
    using bwrite_view [OF assms(1,2)] by blast
  have "copy_in (view d) (512 * nat n) b 512 = c'"
  proof
    fix x
    show "copy_in (view d) (512 * nat n) b 512 x = c' x"
      using assms(3,4) by (cases "512 * nat n \<le> x \<and> x < 512 * nat n + 512")
        (auto simp: window_def only_def copy_in_def dest: spec [of _ "x - 512 * nat n"])
  qed
  then show thesis using that d' by simp
qed

lemma reads_back:
  assumes "good d" "legal n" "bwrite d n buf = (d', r)" "i < 512"
  shows "fst (bread d' n b) i = buf i"
proof -
  have d': "good d'" "view d' = copy_in (view d) (512 * nat n) buf 512"
    using bwrite_view [OF assms(1,2), of buf] assms(3) by auto
  then show ?thesis using bread_window [OF d'(1) assms(2), of b] assms(4) by (simp add: window_def copy_in_def)
qed

lemma reads_other:
  assumes "good d" "legal n" "bwrite d n buf = (d', r)" "legal k" "k \<noteq> n" "i < 512"
  shows "fst (bread d' k b) i = fst (bread d k b) i"
proof -
  have d': "good d'" "view d' = copy_in (view d) (512 * nat n) buf 512"
    using bwrite_view [OF assms(1,2), of buf] assms(3) by auto
  have "nat k < nat n \<or> nat n < nat k" using assms(5) legal_pos [OF assms(2)] legal_pos [OF assms(4)] by auto
  then have "512 * nat k + i < 512 * nat n \<or> 512 * nat n + 512 \<le> 512 * nat k + i" using assms(6) by auto
  then show ?thesis
    using bread_window [OF d'(1) assms(4), of b] bread_window [OF assms(1,4), of b] assms(6)
    by (auto simp: window_def d'(2) copy_in_def)
qed

end

interpretation bd: block_interface disk_ok content block_ok block_read block_write
proof unfold_locales
  show "window (fst (block_read d n b)) (content d) (512 * nat n)" if "disk_ok d" "block_ok n" for d n b
    using block_read_ok(2) [OF that] by (simp add: window_def)
  show "\<exists>d'. block_write d n b = (d', 512) \<and> disk_ok d' \<and> content d' = copy_in (content d) (512 * nat n) b 512"
    if "disk_ok d" "block_ok n" for d n b using block_write_ex [OF that] by blast
qed simp

text \<open>
  C18. A block that is written reads back, on a disk without I/O errors: \<open>block_write\<close> returns 512, reading
  the block gives the bytes written whatever the buffer held, and every other block reads
  as before, also when the write made the file longer and left a gap.
\<close>

theorem block_round_trip:
  assumes "disk_ok d" "0 \<le> n" "n < 2 ^ 22"
  shows "\<exists>d'. block_write d n buf = (d', 512) \<and> disk_ok d' \<and>
    (\<forall>i<512. fst (block_read d' n b) i = buf i) \<and>
    (\<forall>k i. 0 \<le> k \<and> k < 2 ^ 22 \<and> k \<noteq> n \<and> i < 512 \<longrightarrow> fst (block_read d' k b) i = fst (block_read d k b) i)"
proof -
  have n: "block_ok n" using assms(2,3) by simp
  obtain d' where "block_write d n buf = (d', 512)" "disk_ok d'" using bd.bwrite_view [OF assms(1) n] by blast
  then show ?thesis using bd.reads_back [OF assms(1) n] bd.reads_other [OF assms(1) n] by blast
qed

text \<open>A new disk file.\<close>

definition new_disk :: disk where
  "new_disk = \<lparr>dbytes = (\<lambda>_. 0), dlen = 0, diskfile = 3, dopen = True, rdErr = (\<lambda>_. False), wrErr = (\<lambda>_. False)\<rparr>"

theorem block_round_trip_witness:
  "\<exists>d'. block_write new_disk 1089 (\<lambda>i. of_nat i) = (d', 512) \<and> fst (block_read d' 1089 (\<lambda>_. 9)) 511 = 255 \<and>
     fst (block_read d' 7 (\<lambda>_. 9)) 0 = fst (block_read new_disk 7 (\<lambda>_. 9)) 0"
proof -
  have "disk_ok new_disk" by (simp add: disk_ok_def new_disk_def)
  then obtain d' where d': "block_write new_disk 1089 (\<lambda>i. of_nat i) = (d', 512)"
    "\<forall>i<512. fst (block_read d' 1089 (\<lambda>_. 9)) i = of_nat i"
    "\<forall>k i. 0 \<le> k \<and> k < 2 ^ 22 \<and> k \<noteq> 1089 \<and> i < 512 \<longrightarrow>
      fst (block_read d' k (\<lambda>_. 9)) i = fst (block_read new_disk k (\<lambda>_. 9)) i"
    using block_round_trip [of new_disk 1089 "\<lambda>i. of_nat i" "\<lambda>_. 9"] by auto
  have "fst (block_read d' 1089 (\<lambda>_. 9)) 511 = of_nat 511" using d'(2) by simp
  then show ?thesis using d'(1,3) by auto
qed

text \<open>
  A disk that was closed cannot be opened again: \<open>disk_close\<close> closes the descriptor and keeps its
  number, so \<open>disk_open\<close> returns without opening, and from then on every read and every
  write of a block fails.
\<close>

theorem disk_reopen_fails:
  assumes "diskfile d \<ge> 0"
  shows "\<exists>d'. disk_open (disk_close d) fd = retn d' \<and> (\<forall>n buf. snd (block_read d' n buf) = -1 \<and>
    block_write d' n buf = (d', -1))"
  using assms by (simp add: disk_open_def disk_close_def block_read_def pread_def block_write_def pwrite_def)

theorem disk_reopen_fails_witness:
  "\<exists>d'. disk_open (disk_close new_disk) 4 = retn d' \<and> block_write d' 0 (\<lambda>_. 1) = (d', -1)"
  using disk_reopen_fails [of new_disk 4] by (auto simp: new_disk_def)

end
