(* ===== verification/FS_Layout.thy ===== *)
theory FS_Layout
  imports Block_Device
begin

text \<open>
  sfs.c: the structs that lie on the disk, superblock, inode and directory block, as layouts
  over block buffers, and the C string operations the file system uses on them.
\<close>

section \<open>The superblock\<close>

abbreviation MAGIC :: int where "MAGIC \<equiv> 4511000"
abbreviation MAX_FNAME :: nat where "MAX_FNAME \<equiv> 24"
abbreviation NUM_DIRECT_POINTERS :: nat where "NUM_DIRECT_POINTERS \<equiv> 44"
abbreviation INUM_FREE :: nat where "INUM_FREE \<equiv> 568754"

datatype superblock = Imap | IList | Dmap | DList | Magicnum

fun sb_off :: "superblock \<Rightarrow> nat" where
  "sb_off Imap = 0"
| "sb_off IList = 4"
| "sb_off Dmap = 8"
| "sb_off DList = 12"
| "sb_off Magicnum = 16"

definition sb_get :: "memory \<Rightarrow> superblock \<Rightarrow> int" where
  "sb_get b f = s32 (rd b (sb_off f) 4)"

definition sb_put :: "memory \<Rightarrow> superblock \<Rightarrow> int \<Rightarrow> memory" where
  "sb_put b f v = wr b (sb_off f) 4 (u32 v)"

interpretation sb: struct_layout sb_off "\<lambda>_. 4" 20 "\<lambda>_. True"
  "\<lambda>m f p. rd m (p + sb_off f) 4" "\<lambda>m f p v. wr m (p + sb_off f) 4 v"
proof
  fix f g :: superblock
  show "sb_off f + 4 \<le> 20" by (cases f) simp_all
  show "f \<noteq> g \<Longrightarrow> sb_off f + 4 \<le> sb_off g \<or> sb_off g + 4 \<le> sb_off f" by (cases f; cases g) simp_all
qed simp_all

lemma sb_get_put [simp]:
  assumes "- (2 ^ 31) \<le> v" "v < 2 ^ 31"
  shows "sb_get (sb_put b f v) g = (if f = g then v else sb_get b g)"
proof -
  have "rd (sb_put b f v) (sb_off g) 4 = (if f = g then u32 v mod 2 ^ 32 else rd b (sb_off g) 4)"
    using sb.gt_pt [where f = f and g = g and p = 0 and q = 0 and m = b and v = "u32 v"] by (simp add: sb_put_def)
  then show ?thesis using assms u32_less [of v] by (simp add: sb_get_def s32_u32)
qed

section \<open>Inodes\<close>

datatype ifield = F_mode | F_ino | F_uid | F_gid | F_atime | F_mtime | F_ctime | F_nlink | F_size
  | F_blocks | F_opened | F_used | F_directp nat | F_indirectp

fun if_off :: "ifield \<Rightarrow> nat" where
  "if_off F_mode = 0"
| "if_off F_ino = 8"
| "if_off F_uid = 16"
| "if_off F_gid = 20"
| "if_off F_atime = 24"
| "if_off F_mtime = 32"
| "if_off F_ctime = 40"
| "if_off F_nlink = 48"
| "if_off F_size = 56"
| "if_off F_blocks = 64"
| "if_off F_opened = 72"
| "if_off F_used = 73"
| "if_off (F_directp k) = 76 + 4 * k"
| "if_off F_indirectp = 252"

fun if_wid :: "ifield \<Rightarrow> nat" where
  "if_wid F_mode = 4"
| "if_wid F_uid = 4"
| "if_wid F_gid = 4"
| "if_wid F_opened = 1"
| "if_wid F_used = 1"
| "if_wid (F_directp k) = 4"
| "if_wid F_indirectp = 4"
| "if_wid _ = 8"

fun if_valid :: "ifield \<Rightarrow> bool" where
  "if_valid (F_directp k) = (k < NUM_DIRECT_POINTERS)"
| "if_valid _ = True"

definition iget :: "memory \<Rightarrow> ifield \<Rightarrow> nat \<Rightarrow> nat" where
  "iget b f p = rd b (p + if_off f) (if_wid f)"

definition iput :: "memory \<Rightarrow> ifield \<Rightarrow> nat \<Rightarrow> nat \<Rightarrow> memory" where
  "iput b f p v = wr b (p + if_off f) (if_wid f) v"

interpretation ino: struct_layout if_off if_wid 256 if_valid iget iput
proof
  fix f g :: ifield
  show "if_valid f \<Longrightarrow> if_off f + if_wid f \<le> 256" by (cases f) simp_all
  show "if_valid f \<Longrightarrow> if_valid g \<Longrightarrow> f \<noteq> g \<Longrightarrow>
      if_off f + if_wid f \<le> if_off g \<or> if_off g + if_wid g \<le> if_off f"
    by (cases f; cases g) auto
qed (simp_all add: iget_def iput_def)

text \<open>An inode in a local variable.\<close>

record inode =
  st_mode :: nat
  st_ino :: nat
  st_uid :: nat
  st_gid :: nat
  st_atime :: nat
  st_mtime :: nat
  st_ctime :: nat
  st_nlink :: nat
  st_size :: nat
  st_blocks :: nat
  opened :: nat
  used :: nat
  directp :: "int list"
  indirectp :: int

text \<open>\<open>*(inode *)(b + p)\<close>.\<close>

definition load_inode :: "memory \<Rightarrow> nat \<Rightarrow> inode" where
  "load_inode b p = \<lparr>st_mode = iget b F_mode p, st_ino = iget b F_ino p, st_uid = iget b F_uid p,
     st_gid = iget b F_gid p, st_atime = iget b F_atime p, st_mtime = iget b F_mtime p,
     st_ctime = iget b F_ctime p, st_nlink = iget b F_nlink p, st_size = iget b F_size p,
     st_blocks = iget b F_blocks p, opened = iget b F_opened p, used = iget b F_used p,
     directp = map (\<lambda>k. s32 (iget b (F_directp k) p)) [0..<NUM_DIRECT_POINTERS],
     indirectp = s32 (iget b F_indirectp p)\<rparr>"

lemma load_inode_cong:
  assumes "\<And>i. i < 256 \<Longrightarrow> b (p + i) = b' (q + i)"
  shows "load_inode b p = load_inode b' q"
proof -
  have "iget b f p = iget b' f q" if "if_valid f" for f
    using assms by (rule ino.gt_cong [OF that])
  then show ?thesis by (simp add: load_inode_def cong: map_cong)
qed

lemma load_inode_sel [simp]:
  "st_mode (load_inode b p) = iget b F_mode p" "st_ino (load_inode b p) = iget b F_ino p"
  "directp (load_inode b p) = map (\<lambda>k. s32 (iget b (F_directp k) p)) [0..<NUM_DIRECT_POINTERS]"
  "indirectp (load_inode b p) = s32 (iget b F_indirectp p)"
  by (simp_all add: load_inode_def)

section \<open>Directory blocks\<close>

definition inum_at :: "memory \<Rightarrow> nat \<Rightarrow> nat" where
  "inum_at b k = rd b (8 * k) 8"

definition put_inum :: "memory \<Rightarrow> nat \<Rightarrow> nat \<Rightarrow> memory" where
  "put_inum b k v = wr b (8 * k) 8 v"

abbreviation fname_off :: "nat \<Rightarrow> nat" where
  "fname_off k \<equiv> 128 + MAX_FNAME * k"

text \<open>C strings: a list of bytes without zeros; in memory a zero follows.\<close>

type_synonym cstring = "byte list"

text \<open>\<open>strcpy(b + a, s)\<close>.\<close>

definition put_str :: "memory \<Rightarrow> nat \<Rightarrow> cstring \<Rightarrow> memory" where
  "put_str b a s =
     (\<lambda>x. if a \<le> x \<and> x < a + length s then s ! (x - a) else if x = a + length s then 0 else b x)"

text \<open>\<open>strcmp(b + a, s) == 0\<close>.\<close>

definition str_at :: "memory \<Rightarrow> nat \<Rightarrow> cstring \<Rightarrow> bool" where
  "str_at b a s \<longleftrightarrow> (\<forall>i<length s. b (a + i) = s ! i) \<and> b (a + length s) = 0"

text \<open>The string at \<open>a\<close> in a block buffer, if it ends in the block.\<close>

definition cstr :: "memory \<Rightarrow> nat \<Rightarrow> cstring option" where
  "cstr b a =
     (let s = takeWhile (\<lambda>x. x \<noteq> 0) (map b [a..<BLOCK_SIZE])
      in if a + length s < BLOCK_SIZE then Some s else None)"

lemma str_at_put_str [simp]: "str_at (put_str b a s) a s"
  by (simp add: str_at_def put_str_def)

lemma put_str_other: "x < a \<or> a + length s < x \<Longrightarrow> put_str b a s x = b x"
  by (auto simp: put_str_def)

lemma str_at_cong:
  "(\<And>i. i \<le> length s \<Longrightarrow> b (a + i) = b' (a' + i)) \<Longrightarrow> str_at b a s = str_at b' a' s"
  by (simp add: str_at_def)

lemma str_at_det:
  assumes "str_at b a s" "str_at b a t" "0 \<notin> set s" "0 \<notin> set t"
  shows "s = t"
proof -
  have "\<not> length s < length t"
  proof
    assume l: "length s < length t"
    then have "t ! length s = 0" using assms(1,2) by (auto simp: str_at_def)
    then show False using assms(4) l by (metis nth_mem)
  qed
  moreover have "\<not> length t < length s"
  proof
    assume l: "length t < length s"
    then have "s ! length t = 0" using assms(1,2) by (auto simp: str_at_def)
    then show False using assms(3) l by (metis nth_mem)
  qed
  ultimately have "length s = length t" by simp
  then show ?thesis using assms(1,2) by (auto simp: str_at_def intro: nth_equalityI)
qed

lemma cstr_str_at:
  assumes "str_at b a s" "0 \<notin> set s" "a + length s < BLOCK_SIZE"
  shows "cstr b a = Some s"
proof -
  have "map b [a..<BLOCK_SIZE] = map b [a..<a + length s] @ b (a + length s) # map b [Suc (a + length s)..<BLOCK_SIZE]"
    using upt_add_eq_append [of a "a + length s" "BLOCK_SIZE - (a + length s)"] assms(3)
    by (simp add: upt_conv_Cons)
  moreover have "map b [a..<a + length s] = s"
    using assms(1) by (auto simp: str_at_def intro: nth_equalityI)
  ultimately have "takeWhile (\<lambda>x. x \<noteq> 0) (map b [a..<BLOCK_SIZE]) = s"
    using assms(1,2) by (subst \<open>map b [a..<BLOCK_SIZE] = _\<close>, subst takeWhile_append2) (auto simp: str_at_def)
  then show ?thesis using assms(3) by (simp add: cstr_def)
qed

end
