(* ===== verification/Simple_FS.thy ===== *)
theory Simple_FS
  imports FS_Layout
begin

text \<open>
  sfs.c: the operations of the file system over the disk of block.c. Logging is left out.
  A local variable that the code does not initialise is an argument: \<open>junk\<close> gives the first
  content of the block buffers on the stack, one for each, and \<open>i0\<close> the first value of the
  loop index of \<open>updateDir\<close>. Paths are C strings, lists of bytes without zeros.
\<close>

section \<open>Allocation\<close>

type_synonym junk = "nat \<Rightarrow> memory"

text \<open>The ids and the time that the host returns.\<close>

record fsenv =
  euid :: nat
  egid :: nat
  now_s :: nat

text \<open>The loop over the data map in \<open>reserveFreeData\<close>; \<open>s\<close> is the superblock buffer.\<close>

function rfd_loop :: "disk \<Rightarrow> memory \<Rightarrow> int \<Rightarrow> memory \<Rightarrow> disk \<times> int" where
  "rfd_loop d s bnum dmap =
     (if bnum < sb_get s IList then
        let (dmap1, r) = block_read d bnum dmap in
        (case find (\<lambda>j. dmap1 j = 0) [0..<512] of
           Some j \<Rightarrow>
             let (d', w) = block_write d bnum (dmap1(j := 1))
             in if w \<noteq> 512 then (d', -1)
                else (d', s32 (u32 (512 * (bnum - sb_get s Dmap) + int j + sb_get s DList)))
         | None \<Rightarrow> rfd_loop d s (bnum + 1) dmap1)
      else (d, -1))"
  by pat_completeness auto
termination by (relation "measure (\<lambda>(d, s, bnum, dmap). nat (sb_get s IList - bnum))") auto

declare rfd_loop.simps [simp del]

definition reserveFreeData :: "disk \<Rightarrow> junk \<Rightarrow> disk \<times> int" where
  "reserveFreeData d junk =
     (let (s, r) = block_read d 0 (junk 0) in rfd_loop d s (sb_get s Dmap) (junk 1))"

abbreviation DIRECTORY :: int where "DIRECTORY \<equiv> 0"
abbreviation FILE :: int where "FILE \<equiv> 1"

text \<open>\<open>S_IFDIR\<close> or \<open>S_IFREG\<close> with read and write permission for all: 040666 and 0100666.\<close>

definition mode_of :: "int \<Rightarrow> nat" where
  "mode_of type = (if type = DIRECTORY then 16822 else 33206)"

text \<open>The address of an inode in its block buffer, and the block.\<close>

definition inode_base :: "nat \<Rightarrow> nat" where
  "inode_base inum = (if inum mod 2 = 0 then 0 else 256)"

definition inode_block :: "nat \<Rightarrow> int" where
  "inode_block inum = s32 (65 + inum div 2)"

definition clear_directp :: "memory \<Rightarrow> nat \<Rightarrow> nat list \<Rightarrow> memory" where
  "clear_directp b p ks = fold (\<lambda>k b. iput b (F_directp k) p 0) ks b"

definition new_inode :: "fsenv \<Rightarrow> int \<Rightarrow> nat \<Rightarrow> memory \<Rightarrow> nat \<Rightarrow> memory" where
  "new_inode e type inum b p =
     (let b1 = iput b F_mode p (mode_of type);
          b2 = iput b1 F_ino p inum;
          b3 = iput b2 F_uid p (euid e);
          b4 = iput b3 F_gid p (egid e);
          b5 = iput b4 F_atime p (now_s e);
          b6 = iput b5 F_mtime p (iget b5 F_atime p);
          b7 = iput b6 F_ctime p (iget b6 F_atime p);
          b8 = iput b7 F_opened p 0;
          b9 = iput b8 F_used p 0;
          b10 = clear_directp b9 p [0..<NUM_DIRECT_POINTERS]
      in iput b10 F_indirectp p 0)"

function rfi_loop :: "disk \<Rightarrow> fsenv \<Rightarrow> int \<Rightarrow> memory \<Rightarrow> int \<Rightarrow> memory \<Rightarrow> memory \<Rightarrow> disk \<times> nat" where
  "rfi_loop d e type s iplace imap ibuff =
     (if iplace < sb_get s Dmap then
        let (imap1, r) = block_read d iplace imap in
        (case find (\<lambda>j. imap1 j = 0) [0..<512] of
           Some j \<Rightarrow>
             let (d1, w) = block_write d iplace (imap1(j := 1));
                 inum = u32 (512 * (iplace - sb_get s Imap) + int j);
                 (ib, r2) = block_read d1 (inode_block inum) ibuff;
                 ib' = new_inode e type inum ib (inode_base inum);
                 (d2, w2) = block_write d1 (inode_block inum) ib'
             in (d2, inum)
         | None \<Rightarrow> rfi_loop d e type s (iplace + 1) imap1 ibuff)
      else (d, 0))"
  by pat_completeness auto
termination
  by (relation "measure (\<lambda>(d, e, type, s, iplace, imap, ibuff). nat (sb_get s Dmap - iplace))") auto

declare rfi_loop.simps [simp del]

definition reserveFreeInode :: "disk \<Rightarrow> fsenv \<Rightarrow> junk \<Rightarrow> int \<Rightarrow> disk \<times> nat" where
  "reserveFreeInode d e junk type =
     (let (s, r) = block_read d 0 (junk 2) in rfi_loop d e type s (sb_get s Imap) (junk 3) (junk 4))"

text \<open>\<open>getInode\<close>; \<open>in0\<close> is what \<open>*in\<close> holds before.\<close>

definition getInode :: "disk \<Rightarrow> junk \<Rightarrow> nat \<Rightarrow> inode \<Rightarrow> int \<times> inode" where
  "getInode d junk inum in0 =
     (let (buff, r) = block_read d (inode_block inum) (junk 5)
      in if r < 0 then (-1, in0) else (0, load_inode buff (inode_base inum)))"

definition initDir :: "disk \<Rightarrow> junk \<Rightarrow> int \<Rightarrow> nat \<Rightarrow> nat \<Rightarrow> disk" where
  "initDir d junk blocknum selfinum parentinum =
     (let (b, r) = block_read d blocknum (junk 6);
          b1 = put_str (put_inum b 0 selfinum) (fname_off 0) [46];
          b2 = (if selfinum \<noteq> parentinum
                then put_str (put_inum b1 1 parentinum) (fname_off 1) [46, 46]
                else put_inum b1 1 INUM_FREE);
          b3 = fold (\<lambda>i b. put_inum b i INUM_FREE) [2..<16] b2;
          (d', w) = block_write d blocknum b3
      in d')"

section \<open>Paths\<close>

text \<open>The entry of a directory block with a given name.\<close>

definition entry_of :: "memory \<Rightarrow> cstring \<Rightarrow> nat option" where
  "entry_of m name =
     find (\<lambda>k. inum_at m k \<noteq> INUM_FREE \<and> str_at m (fname_off k) name) [0..<16]"

text \<open>The loop over \<open>t->directp\<close> in \<open>navPath\<close>: the directory buffer and the inode number found.\<close>

fun nav_blocks :: "disk \<Rightarrow> int list \<Rightarrow> memory \<Rightarrow> cstring \<Rightarrow> memory \<times> nat option" where
  "nav_blocks d [] m name = (m, None)"
| "nav_blocks d (b # bs) m name =
     (if b = 0 then nav_blocks d bs m name
      else
        let (m1, r) = block_read d b m
        in case entry_of m1 name of
             Some k \<Rightarrow> (m1, Some (inum_at m1 k))
           | None \<Rightarrow> nav_blocks d bs m1 name)"

abbreviation SLASH :: byte where "SLASH \<equiv> 47"

text \<open>
  The outer loop of \<open>navPath\<close> on what is left of the path. \<open>t\<close> is \<open>*t\<close>, \<open>tbuf\<close> the block it
  lies in. The result is the return value, \<open>*par\<close> and \<open>*targ\<close>. That the loop ends is not part of the
  definition; it is shown with \<open>nav_loop_result\<close>.
\<close>

partial_function (option) nav_loop ::
  "disk \<Rightarrow> int \<Rightarrow> inode \<times> inode \<Rightarrow> inode \<Rightarrow> memory \<Rightarrow> memory \<Rightarrow> cstring \<Rightarrow> nat \<Rightarrow> (int \<times> inode \<times> inode) ret" where
  "nav_loop d iList out t tbuf m rest failcounter =
     (if failcounter + 1 > 10000 then retn (-1, out)
      else
        let name = takeWhile (\<lambda>c. c \<noteq> SLASH) rest;
            ended = (length name = length rest);
            rest' = drop (length name + 1) rest
        in if length name \<ge> MAX_FNAME then fail OutOfBounds
           else
             let (m1, found) = nav_blocks d (directp t) m name;
                 (t', tbuf') = (case found of
                     None \<Rightarrow> (t, tbuf)
                   | Some inum \<Rightarrow>
                       let (tb, r) = block_read d (s32 (inum div 2 + u64 iList)) tbuf
                       in (load_inode tb (inode_base inum), tb))
             in if ended \<or> rest' = [] \<or> rest' = [SLASH]
                then retn (if found \<noteq> None then 0 else -1, t, t')
                else nav_loop d iList out t' tbuf' m1 rest' (failcounter + 1))"

text \<open>\<open>out\<close> is what \<open>*par\<close> and \<open>*targ\<close> hold before.\<close>

definition navPath :: "disk \<Rightarrow> junk \<Rightarrow> inode \<times> inode \<Rightarrow> cstring \<Rightarrow> (int \<times> inode \<times> inode) ret" where
  "navPath d junk out path =
     (let (s, r) = block_read d 0 (junk 7);
          (pb, r1) = block_read d (sb_get s IList) (junk 8);
          (tb, r2) = block_read d (sb_get s IList) (junk 9)
      in if length path \<le> 1 then retn (0, load_inode pb 0, load_inode tb 0)
         else nav_loop d (sb_get s IList) out (load_inode tb 0) tb (junk 10) (drop 1 path) 0)"

section \<open>Directories\<close>

text \<open>
  One round of the loop of \<open>updateDir\<close> that finds no block for the index \<open>i\<close>: take one, make it
  a directory block and store its number in the inode on the disk.
\<close>

definition grow_dir :: "disk \<Rightarrow> junk \<Rightarrow> nat \<Rightarrow> inode \<Rightarrow> inode \<Rightarrow> disk \<times> inode \<times> bool" where
  "grow_dir d junk i par inn =
     (let (d1, b) = reserveFreeData d junk;
          inn' = inn\<lparr>directp := (directp inn)[i := b]\<rparr>
      in if b = -1 then (d1, inn', False)
         else
           let d2 = initDir d1 junk b (st_ino inn) (st_ino par);
               (ib, r) = block_read d2 (inode_block (st_ino inn)) (junk 11);
               ib' = iput ib (F_directp i) (inode_base (st_ino inn)) (u32 b);
               (d3, w) = block_write d2 (inode_block (st_ino inn)) ib'
           in (d3, inn', True))"

text \<open>
  The loop of \<open>updateDir\<close>. The index \<open>i\<close> is never incremented, so a full block is read again
  and again.
\<close>

partial_function (option) updateDir_loop ::
  "junk \<Rightarrow> disk \<Rightarrow> int \<Rightarrow> cstring \<Rightarrow> inode \<Rightarrow> inode \<Rightarrow> nat \<Rightarrow> memory \<Rightarrow> (disk \<times> int) ret" where
  "updateDir_loop junk d i newname par inn newino dirbuff =
     (if i < int NUM_DIRECT_POINTERS then
        if i < 0 then fail OutOfBounds
        else
          let (d1, inn1, got) = (if directp inn ! nat i = 0 then grow_dir d junk (nat i) par inn else (d, inn, True))
          in if \<not> got then retn (d1, -1)
             else
               let (m, r) = block_read d1 (directp inn1 ! nat i) dirbuff
               in if r < 0 then retn (d1, -1)
                  else
                    (case find (\<lambda>j. inum_at m j = INUM_FREE) [0..<16] of
                       Some j \<Rightarrow>
                         if length newname \<ge> MAX_FNAME then fail OutOfBounds
                         else
                           let m' = put_str (put_inum m j newino) (fname_off j) newname;
                               (d2, w) = block_write d1 (directp inn1 ! nat i) m'
                           in retn (d2, 0)
                     | None \<Rightarrow> updateDir_loop junk d1 i newname par inn1 newino m)
      else retn (d, -1))"

definition updateDir ::
  "disk \<Rightarrow> junk \<Rightarrow> int \<Rightarrow> cstring \<Rightarrow> inode \<Rightarrow> inode \<Rightarrow> nat \<Rightarrow> (disk \<times> int) ret" where
  "updateDir d junk i0 newname par inn newino = updateDir_loop junk d i0 newname par inn newino (junk 12)"

section \<open>The file system operations\<close>

text \<open>The maps of a new file system: block 1 has its first byte set, the blocks up to the inodes are zero.\<close>

function init_maps :: "disk \<Rightarrow> int \<Rightarrow> int \<Rightarrow> disk" where
  "init_maps d i iList =
     (if i < iList
      then init_maps (fst (block_write d i (\<lambda>x. if x = 0 \<and> i = 1 then 1 else 0))) (i + 1) iList
      else d)"
  by pat_completeness auto
termination by (relation "measure (\<lambda>(d, i, iList). nat (iList - i))") auto

declare init_maps.simps [simp del]

text \<open>The root inode: the direct pointers from 1 on are cleared, then the first one is reserved.\<close>

definition root_inode :: "fsenv \<Rightarrow> memory \<Rightarrow> memory" where
  "root_inode e b =
     (let b1 = iput b F_mode 0 (mode_of DIRECTORY);
          b2 = iput b1 F_ino 0 0;
          b3 = iput b2 F_uid 0 (euid e);
          b4 = iput b3 F_gid 0 (egid e);
          b5 = iput b4 F_atime 0 (now_s e);
          b6 = iput b5 F_mtime 0 (iget b5 F_atime 0);
          b7 = iput b6 F_ctime 0 (iget b6 F_atime 0);
          b8 = iput b7 F_nlink 0 1;
          b9 = iput b8 F_size 0 0;
          b10 = iput b9 F_blocks 0 1;
          b11 = iput b10 F_opened 0 0;
          b12 = iput b11 F_used 0 0
      in clear_directp b12 0 [1..<NUM_DIRECT_POINTERS])"

definition sfs_init :: "disk \<Rightarrow> fsenv \<Rightarrow> junk \<Rightarrow> int \<Rightarrow> disk ret" where
  "sfs_init d0 e junk fd =
     bindR (disk_open d0 fd) (\<lambda>d.
       let (sb, r) = block_read d 0 (junk 13) in
       if dlen d = 0 \<or> sb_get sb Magicnum \<noteq> MAGIC then
         let sb' = sb_put (sb_put (sb_put (sb_put (sb_put sb Magicnum MAGIC) Imap 1) Dmap 5) IList 65) DList 1089;
             (d1, w) = block_write d 0 sb';
             d2 = init_maps d1 1 (sb_get sb' IList);
             b1 = root_inode e (junk 14);
             (d3, blk) = reserveFreeData d2 junk;
             b2 = iput b1 (F_directp 0) 0 (u32 blk);
             d4 = initDir d3 junk blk (iget b2 F_ino 0) (iget b2 F_ino 0);
             b3 = iput b2 F_indirectp 0 0;
             (d5, w2) = block_write d4 (max 1 (sb_get sb' IList)) b3
         in retn d5
       else retn d)"

definition sfs_destroy :: "disk \<Rightarrow> disk" where
  "sfs_destroy d = d"

text \<open>The fields of \<open>struct stat\<close> that \<open>sfs_getattr\<close> sets.\<close>

record stat =
  stat_ino :: nat
  stat_mode :: nat
  stat_nlink :: nat
  stat_size :: nat

abbreviation ENOENT :: int where "ENOENT \<equiv> 2"

definition sfs_getattr :: "disk \<Rightarrow> junk \<Rightarrow> inode \<times> inode \<Rightarrow> cstring \<Rightarrow> (int \<times> stat option) ret" where
  "sfs_getattr d junk out path =
     bindR (navPath d junk out path) (\<lambda>(r, par, targ).
       if r = -1 then retn (- ENOENT, None)
       else retn (0, Some \<lparr>stat_ino = st_ino targ, stat_mode = st_mode targ, stat_nlink = 1, stat_size = 512\<rparr>))"

text \<open>
  \<open>sfs_create\<close> and \<open>sfs_mkdir\<close> are the same code up to the type of the inode. \<open>currdir\<close> is the
  path up to its last slash. What \<open>getInode\<close> reads is not used. Both operations only log their
  further arguments, the requested mode and, for \<open>sfs_create\<close>, the file information.
\<close>

definition add_entry ::
  "int \<Rightarrow> disk \<Rightarrow> fsenv \<Rightarrow> junk \<Rightarrow> int \<Rightarrow> inode \<times> inode \<Rightarrow> cstring \<Rightarrow> (disk \<times> int) ret" where
  "add_entry type d e junk i0 out path =
     (if length path \<ge> 255 then retn (d, -1)
      else if SLASH \<notin> set path then retn (d, -1)
      else
        let currdir = rev (drop 1 (dropWhile (\<lambda>c. c \<noteq> SLASH) (rev path))) in
        bindR (navPath d junk out currdir) (\<lambda>(r, par, targ).
          if r = -1 then retn (d, -1)
          else
            let (d1, inum) = reserveFreeInode d e junk type
            in if inum = 0 then retn (d1, -1)
               else
                 let (g, newn) = getInode d1 junk inum targ;
                     fn = drop (length currdir + 1) path
                 in if length fn \<ge> MAX_FNAME then fail OutOfBounds
                    else bindR (updateDir d1 junk i0 fn par targ inum) (\<lambda>(d2, u).
                           retn (d2, if u = -1 then -1 else 0))))"

definition sfs_create ::
  "disk \<Rightarrow> fsenv \<Rightarrow> junk \<Rightarrow> int \<Rightarrow> inode \<times> inode \<Rightarrow> cstring \<Rightarrow> nat \<Rightarrow> addr \<Rightarrow> (disk \<times> int) ret" where
  "sfs_create d e junk i0 out path mode fi = add_entry FILE d e junk i0 out path"

definition sfs_mkdir ::
  "disk \<Rightarrow> fsenv \<Rightarrow> junk \<Rightarrow> int \<Rightarrow> inode \<times> inode \<Rightarrow> cstring \<Rightarrow> nat \<Rightarrow> (disk \<times> int) ret" where
  "sfs_mkdir d e junk i0 out path mode = add_entry DIRECTORY d e junk i0 out path"

text \<open>These return 0 and do nothing else.\<close>

definition sfs_unlink :: "disk \<Rightarrow> cstring \<Rightarrow> disk \<times> int" where
  "sfs_unlink d path = (d, 0)"

definition sfs_open :: "disk \<Rightarrow> cstring \<Rightarrow> disk \<times> int" where
  "sfs_open d path = (d, 0)"

definition sfs_release :: "disk \<Rightarrow> cstring \<Rightarrow> disk \<times> int" where
  "sfs_release d path = (d, 0)"

definition sfs_read :: "disk \<Rightarrow> cstring \<Rightarrow> memory \<Rightarrow> nat \<Rightarrow> int \<Rightarrow> disk \<times> memory \<times> int" where
  "sfs_read d path buf sz offset = (d, buf, 0)"

definition sfs_write :: "disk \<Rightarrow> cstring \<Rightarrow> memory \<Rightarrow> nat \<Rightarrow> int \<Rightarrow> disk \<times> int" where
  "sfs_write d path buf sz offset = (d, 0)"

definition sfs_rmdir :: "disk \<Rightarrow> cstring \<Rightarrow> disk \<times> int" where
  "sfs_rmdir d path = (d, 0)"

definition sfs_releasedir :: "disk \<Rightarrow> cstring \<Rightarrow> disk \<times> int" where
  "sfs_releasedir d path = (d, 0)"

definition sfs_opendir :: "disk \<Rightarrow> junk \<Rightarrow> inode \<times> inode \<Rightarrow> cstring \<Rightarrow> int ret" where
  "sfs_opendir d junk out path =
     bindR (navPath d junk out path) (\<lambda>(r, par, targ). retn (if r = -1 then -1 else 0))"

text \<open>\<open>S_ISDIR\<close>: the file type is in bits 12 to 15 of the mode.\<close>

definition S_ISDIR :: "nat \<Rightarrow> bool" where
  "S_ISDIR m \<longleftrightarrow> m div 4096 mod 16 = 4"

text \<open>
  The loops of \<open>sfs_readdir\<close>. \<open>filler\<close> takes the result so far and a name, and returns the new
  result and a flag, not 0 when the buffer is full. The last component says to stop.
\<close>

fun fill_entries ::
  "('b \<Rightarrow> cstring \<Rightarrow> 'b \<times> int) \<Rightarrow> memory \<Rightarrow> nat list \<Rightarrow> 'b \<Rightarrow> ('b \<times> bool) ret" where
  "fill_entries filler m [] buf = retn (buf, False)"
| "fill_entries filler m (j # js) buf =
     (if inum_at m j \<noteq> INUM_FREE then
        (case cstr m (fname_off j) of
           None \<Rightarrow> fail OutOfBounds
         | Some name \<Rightarrow>
             let (buf1, dfg) = filler buf name
             in if dfg \<noteq> 0 then retn (buf1, True) else fill_entries filler m js buf1)
      else fill_entries filler m js buf)"

fun fill_blocks ::
  "disk \<Rightarrow> ('b \<Rightarrow> cstring \<Rightarrow> 'b \<times> int) \<Rightarrow> int list \<Rightarrow> memory \<Rightarrow> 'b \<Rightarrow> 'b ret" where
  "fill_blocks d filler [] m buf = retn buf"
| "fill_blocks d filler (b # bs) m buf =
     (if b = 0 then fill_blocks d filler bs m buf
      else
        let (m1, r) = block_read d b m
        in bindR (fill_entries filler m1 [0..<16] buf) (\<lambda>(buf1, stop).
             if stop then retn buf1 else fill_blocks d filler bs m1 buf1))"

definition sfs_readdir ::
  "disk \<Rightarrow> junk \<Rightarrow> inode \<times> inode \<Rightarrow> cstring \<Rightarrow> ('b \<Rightarrow> cstring \<Rightarrow> 'b \<times> int) \<Rightarrow> 'b \<Rightarrow> ('b \<times> int) ret" where
  "sfs_readdir d junk out path filler buf =
     bindR (navPath d junk out path) (\<lambda>(r, par, targ).
       if \<not> S_ISDIR (st_mode targ) then retn (buf, -1)
       else bindR (fill_blocks d filler (directp targ) (junk 15) buf) (\<lambda>buf'. retn (buf', 0)))"

end
