(* ===== verification/FS_Alloc.thy ===== *)
theory FS_Alloc
  imports Simple_FS
begin

text \<open>
  What the block-wise code of sfs.c does to the content of the disk: a read, a change of the
  buffer and a write of the block are one change of the content. With it the specifications
  of the two allocators \<open>reserveFreeData\<close> and \<open>reserveFreeInode\<close>, and of \<open>initDir\<close>.
\<close>

section \<open>Block buffers as windows\<close>

named_theorems only_intros \<open>where a change of the content happens\<close>

lemma only_refl [only_intros, simp]: "only a n c c"
  by (simp add: only_def)

lemma only_trans: "only a n c c' \<Longrightarrow> only a n c' c'' \<Longrightarrow> only a n c c''"
  by (simp add: only_def)

lemma only_mono: "only a n c c' \<Longrightarrow> b \<le> a \<Longrightarrow> a + n \<le> b + m \<Longrightarrow> only b m c c'"
  by (auto simp: only_def)

lemma only_wr [only_intros]: "only b m c c' \<Longrightarrow> b \<le> a \<Longrightarrow> a + n \<le> b + m \<Longrightarrow> only b m c (wr c' a n v)"
  by (auto simp: only_def wr_other)

lemma only_put_str [only_intros]:
  "only b m c c' \<Longrightarrow> b \<le> a \<Longrightarrow> a + length s < b + m \<Longrightarrow> only b m c (put_str c' a s)"
  by (auto simp: only_def put_str_other)

lemma only_iput [only_intros]:
  "only b m c c' \<Longrightarrow> if_valid f \<Longrightarrow> b \<le> a \<Longrightarrow> a + 256 \<le> b + m \<Longrightarrow> only b m c (iput c' f a v)"
  using ino.inside [of f] by (auto simp: iput_def intro!: only_wr)

lemma only_fold [only_intros]:
  "only b m c c' \<Longrightarrow> (\<And>k c'. k \<in> set ks \<Longrightarrow> only b m c c' \<Longrightarrow> only b m c (f k c')) \<Longrightarrow> only b m c (fold f ks c')"
  by (induction ks arbitrary: c') auto

lemma only_rd: "only a n c c' \<Longrightarrow> x + k \<le> a \<or> a + n \<le> x \<Longrightarrow> rd c' x k = rd c x k"
  by (rule rd_cong) (auto simp: only_def)

named_theorems window_intros \<open>operations on a buffer and on the disk side by side\<close>

lemma window_wr [window_intros]:
  assumes "window b c a" "x + k \<le> 512"
  shows "window (wr b x k v) (wr c (a + x) k v) a"
  unfolding window_def
proof (intro allI impI)
  fix i :: nat
  assume "i < 512"
  have "wr b x k v i = wr c (a + x) k v (a + i)" if "b i = c (a + i)" for i
    using that by (induction k arbitrary: x v) (simp_all add: add.assoc [symmetric])
  then show "wr b x k v i = wr c (a + x) k v (a + i)" using assms(1) \<open>i < 512\<close> by (simp add: window_def)
qed

lemma window_iput [window_intros]:
  assumes "window b c a" "if_valid f" "p + 256 \<le> 512"
  shows "window (iput b f p v) (iput c f (a + p) v) a"
  using window_wr [OF assms(1), of "p + if_off f" "if_wid f"] ino.inside [OF assms(2)] assms(3)
  by (simp add: iput_def add.assoc)

lemma window_put_inum [window_intros]:
  "window b c a \<Longrightarrow> k < 16 \<Longrightarrow> window (put_inum b k v) (wr c (a + 8 * k) 8 v) a"
  unfolding put_inum_def by (rule window_wr) simp_all

lemma window_put_str [window_intros]:
  "window b c a \<Longrightarrow> x + length s < 512 \<Longrightarrow> window (put_str b x s) (put_str c (a + x) s) a"
  by (simp add: window_def put_str_def)

lemma window_fold [window_intros]:
  "window b c a \<Longrightarrow> (\<And>k b c. k \<in> set ks \<Longrightarrow> window b c a \<Longrightarrow> window (f k b) (g k c) a) \<Longrightarrow>
   window (fold f ks b) (fold g ks c) a"
  by (induction ks arbitrary: b c) simp_all

lemma window_rd: "window b c a \<Longrightarrow> x + k \<le> 512 \<Longrightarrow> rd b x k = rd c (a + x) k"
  by (rule rd_cong) (simp add: window_def add.assoc)

lemma window_iget: "window b c a \<Longrightarrow> if_valid f \<Longrightarrow> p + 256 \<le> 512 \<Longrightarrow> iget b f p = iget c f (a + p)"
  using ino.inside [of f] by (simp add: iget_def window_rd add.assoc)

lemma window_load_inode: "window b c a \<Longrightarrow> p + 256 \<le> 512 \<Longrightarrow> load_inode b p = load_inode c (a + p)"
  by (rule load_inode_cong) (simp add: window_def add.assoc)

lemma window_str_at: "window b c a \<Longrightarrow> x + length s < 512 \<Longrightarrow> str_at b x s = str_at c (a + x) s"
  by (rule str_at_cong) (simp add: window_def add.assoc)

section \<open>Where things are\<close>

text \<open>
  The layout of a formatted disk: block 0 the superblock, 1 to 4 the inode map, 5 to 64 the
  data map, 65 to 1088 the inodes, the data blocks from 1089 on.
\<close>

definition formatted :: "memory \<Rightarrow> bool" where
  "formatted c \<longleftrightarrow> sb_get c Imap = 1 \<and> sb_get c Dmap = 5 \<and> sb_get c IList = 65 \<and> sb_get c DList = 1089 \<and>
     sb_get c Magicnum = MAGIC"

abbreviation imap_addr :: "nat \<Rightarrow> nat" where "imap_addr i \<equiv> 512 + i"
abbreviation dmap_addr :: "nat \<Rightarrow> nat" where "dmap_addr n \<equiv> 2560 + n"
abbreviation iaddr :: "nat \<Rightarrow> nat" where "iaddr i \<equiv> 33280 + 256 * i"
abbreviation MAX_INODES :: nat where "MAX_INODES \<equiv> 2048"
abbreviation MAX_DATA :: nat where "MAX_DATA \<equiv> 30720"

lemma formatted_cong: "(\<And>x. x < 512 \<Longrightarrow> c' x = c x) \<Longrightarrow> formatted c' = formatted c"
proof -
  assume c: "\<And>x. x < 512 \<Longrightarrow> c' x = c x"
  have "sb_get c' f = sb_get c f" for f
    unfolding sb_get_def by (cases f) (auto intro!: arg_cong [of _ _ s32] rd_cong c)
  then show ?thesis by (simp add: formatted_def)
qed

lemma sb_read:
  assumes "disk_ok d"
  shows "sb_get (fst (block_read d 0 b)) f = sb_get (content d) f"
  using window_rd [OF bd.bread_window [OF assms, of 0 b], of "sb_off f" 4] by (cases f) (simp_all add: sb_get_def)

lemma inode_block_ok:
  assumes "i < MAX_INODES"
  shows "inode_block i = int (65 + i div 2)" "block_ok (inode_block i)" "inode_base i + 256 \<le> 512"
    "512 * nat (inode_block i) + inode_base i = iaddr i"
proof -
  show b: "inode_block i = int (65 + i div 2)" using assms by (simp add: inode_block_def s32_small)
  show "block_ok (inode_block i)" "inode_base i + 256 \<le> 512" using assms by (simp_all add: b inode_base_def)
  show "512 * nat (inode_block i) + inode_base i = iaddr i"
    unfolding b inode_base_def by (cases "even i") (auto elim!: evenE oddE)
qed

section \<open>Finding the first free byte of a map\<close>

lemma find_append: "find P (xs @ ys) = (case find P xs of None \<Rightarrow> find P ys | Some x \<Rightarrow> Some x)"
  by (induction xs) auto

lemma find_shift: "find P [a..<a + n] = map_option (\<lambda>j. a + j) (find (\<lambda>j. P (a + j)) [0..<n])"
proof (induction n)
  case (Suc n)
  then show ?case by (auto simp: find_append split: option.split)
qed simp

lemma find_block:
  assumes "\<And>j. j < 512 \<Longrightarrow> b j = c (a + 512 * k + j)" "k < m"
  shows "find (\<lambda>n. c (a + n) = 0) [512 * k..<512 * m] =
    (case find (\<lambda>j. b j = (0 :: byte)) [0..<512] of
       None \<Rightarrow> find (\<lambda>n. c (a + n) = 0) [512 * Suc k..<512 * m]
     | Some j \<Rightarrow> Some (512 * k + j))"
proof -
  have "find (\<lambda>j. b j = 0) [0..<512] = find (\<lambda>j. c (a + (512 * k + j)) = 0) [0..<512]"
    by (rule find_cong) (use assms(1) in \<open>auto simp: add.assoc\<close>)
  moreover have "[512 * k..<512 * m] = [512 * k..<512 * k + 512] @ [512 * Suc k..<512 * m]"
    using upt_add_eq_append [of "512 * k" "512 * Suc k" "512 * m - 512 * Suc k"] assms(2)
    by (simp add: add.commute [of 512 "512 * k"])
  ultimately show ?thesis by (simp only: find_append find_shift) (simp split: option.split)
qed

lemma find_SomeD: "find P xs = Some x \<Longrightarrow> x \<in> set xs \<and> P x"
  by (auto simp: find_Some_iff)

section \<open>reserveFreeData\<close>

lemma rfd_loop_spec:
  assumes d: "disk_ok d" and s: "sb_get s IList = 65" "sb_get s Dmap = 5" "sb_get s DList = 1089"
    and k: "k \<le> 60"
  shows "case find (\<lambda>n. content d (dmap_addr n) = 0) [512 * k..<512 * 60] of
      None \<Rightarrow> rfd_loop d s (5 + int k) b = (d, -1)
    | Some n \<Rightarrow> \<exists>d'. rfd_loop d s (5 + int k) b = (d', 1089 + int n) \<and> disk_ok d' \<and>
        content d' = (content d)(dmap_addr n := 1)"
  using k
proof (induction k arbitrary: b rule: inc_induct)
  case base
  then show ?case using s by (subst rfd_loop.simps) simp
next
  case (step k)
  let ?b = "fst (block_read d (5 + int k) b)" and ?w = "5 + int k"
  have bk: "block_ok ?w" "nat ?w = 5 + k" using step(2) by simp_all
  note w = bd.bread_window [OF d bk(1), of b]
  have run: "rfd_loop d s ?w b = (case find (\<lambda>j. ?b j = 0) [0..<512] of
        Some j \<Rightarrow> (let (d', w) = block_write d ?w (?b(j := 1))
           in if w \<noteq> 512 then (d', -1) else (d', s32 (u32 (512 * int k + int j + 1089))))
      | None \<Rightarrow> rfd_loop d s (5 + int (Suc k)) ?b)"
    using step(2) s by (subst rfd_loop.simps) (auto simp: case_prod_beta Let_def algebra_simps split: option.split)
  have fb: "find (\<lambda>n. content d (dmap_addr n) = 0) [512 * k..<512 * 60] =
      (case find (\<lambda>j. ?b j = 0) [0..<512] of
         None \<Rightarrow> find (\<lambda>n. content d (dmap_addr n) = 0) [512 * Suc k..<512 * 60]
       | Some j \<Rightarrow> Some (512 * k + j))"
    by (rule find_block) (use w step(2) bk(2) in \<open>simp_all add: window_def\<close>)
  show ?case
  proof (cases "find (\<lambda>j. ?b j = 0) [0..<512]")
    case None
    then show ?thesis using step(3) [of ?b] by (simp only: run fb option.case)
  next
    case (Some j)
    have j: "j < 512" using find_SomeD [OF Some] by simp
    let ?c = "(content d)(dmap_addr (512 * k + j) := 1)"
    obtain d' where d': "block_write d ?w (?b(j := 1)) = (d', 512)" "disk_ok d'" "content d' = ?c"
      by (rule bd.bstore [OF d bk(1), of "?b(j := 1)" ?c])
        (use w j bk(2) in \<open>auto simp: window_def only_def\<close>)
    have "s32 (u32 (512 * int k + int j + 1089)) = 1089 + int (512 * k + j)"
      using step(2) j by (subst s32_u32) simp_all
    then show ?thesis unfolding fb run Some option.case using d' by (simp add: Let_def)
  qed
qed

lemma reserveFreeData_spec:
  assumes "disk_ok d" "formatted (content d)"
  shows "case find (\<lambda>n. content d (dmap_addr n) = 0) [0..<MAX_DATA] of
      None \<Rightarrow> reserveFreeData d junk = (d, -1)
    | Some n \<Rightarrow> \<exists>d'. reserveFreeData d junk = (d', 1089 + int n) \<and> disk_ok d' \<and>
        content d' = (content d)(dmap_addr n := 1)"
proof -
  have s: "sb_get (fst (block_read d 0 (junk 0))) f = sb_get (content d) f" for f
    by (rule sb_read [OF assms(1)])
  have eq: "reserveFreeData d junk = rfd_loop d (fst (block_read d 0 (junk 0))) (5 + int 0) (junk 1)"
    using assms(2) by (simp add: reserveFreeData_def s formatted_def case_prod_beta)
  show ?thesis
    using rfd_loop_spec [OF assms(1), of "fst (block_read d 0 (junk 0))" 0 "junk 1"] assms(2)
    unfolding eq by (simp add: s formatted_def)
qed

section \<open>reserveFreeInode\<close>

lemma window_clear_directp [window_intros]:
  assumes "window b c a" "p + 256 \<le> 512" "\<forall>k\<in>set ks. k < NUM_DIRECT_POINTERS"
  shows "window (clear_directp b p ks) (clear_directp c (a + p) ks) a"
  unfolding clear_directp_def using assms by (intro window_intros) auto

lemma only_clear_directp [only_intros]:
  assumes "only b m c c'" "\<forall>k\<in>set ks. k < NUM_DIRECT_POINTERS" "b \<le> a" "a + 256 \<le> b + m"
  shows "only b m c (clear_directp c' a ks)"
  unfolding clear_directp_def using assms by (intro only_intros) auto

lemma window_new_inode [window_intros]:
  assumes "window b c a" "p + 256 \<le> 512"
  shows "window (new_inode e type i b p) (new_inode e type i c (a + p)) a"
  unfolding new_inode_def Let_def using assms
  by (simp add: ino.gt_pt window_intros)

lemma only_new_inode [only_intros]:
  "only b m c c' \<Longrightarrow> b \<le> a \<Longrightarrow> a + 256 \<le> b + m \<Longrightarrow> only b m c (new_inode e type i c' a)"
  unfolding new_inode_def Let_def by (intro only_intros) simp_all

lemma rfi_loop_spec:
  assumes d: "disk_ok d" and s: "sb_get s Imap = 1" "sb_get s Dmap = 5" and k: "k \<le> 4"
  shows "case find (\<lambda>n. content d (imap_addr n) = 0) [512 * k..<512 * 4] of
      None \<Rightarrow> rfi_loop d e type s (1 + int k) b ib = (d, 0)
    | Some n \<Rightarrow> \<exists>d'. rfi_loop d e type s (1 + int k) b ib = (d', n) \<and> disk_ok d' \<and>
        content d' = new_inode e type n ((content d)(imap_addr n := 1)) (iaddr n)"
  using k
proof (induction k arbitrary: b rule: inc_induct)
  case base
  then show ?case using s by (subst rfi_loop.simps) simp
next
  case (step k)
  let ?b = "fst (block_read d (1 + int k) b)" and ?w = "1 + int k"
  have bk: "block_ok ?w" "nat ?w = 1 + k" using step(2) by simp_all
  note w = bd.bread_window [OF d bk(1), of b]
  have run: "rfi_loop d e type s ?w b ib = (case find (\<lambda>j. ?b j = 0) [0..<512] of
        Some j \<Rightarrow> (let (d1, w) = block_write d ?w (?b(j := 1)); inum = u32 (512 * int k + int j);
           (ib, r2) = block_read d1 (inode_block inum) ib;
           (d2, w2) = block_write d1 (inode_block inum) (new_inode e type inum ib (inode_base inum))
           in (d2, inum))
      | None \<Rightarrow> rfi_loop d e type s (1 + int (Suc k)) ?b ib)"
    using step(2) s by (subst rfi_loop.simps) (auto simp: case_prod_beta Let_def algebra_simps split: option.split)
  have fb: "find (\<lambda>n. content d (imap_addr n) = 0) [512 * k..<512 * 4] =
      (case find (\<lambda>j. ?b j = 0) [0..<512] of
         None \<Rightarrow> find (\<lambda>n. content d (imap_addr n) = 0) [512 * Suc k..<512 * 4]
       | Some j \<Rightarrow> Some (512 * k + j))"
    by (rule find_block) (use w step(2) bk(2) in \<open>simp_all add: window_def\<close>)
  show ?case
  proof (cases "find (\<lambda>j. ?b j = 0) [0..<512]")
    case None
    then show ?thesis using step(3) [of ?b] by (simp only: run fb option.case)
  next
    case (Some j)
    have j: "j < 512" using find_SomeD [OF Some] by simp
    let ?n = "512 * k + j"
    let ?c = "(content d)(imap_addr ?n := 1)"
    obtain d1 where d1: "block_write d ?w (?b(j := 1)) = (d1, 512)" "disk_ok d1" "content d1 = ?c"
      by (rule bd.bstore [OF d bk(1), of "?b(j := 1)" ?c])
        (use w j bk(2) in \<open>auto simp: window_def only_def\<close>)
    have n: "?n < MAX_INODES" "u32 (512 * int k + int j) = ?n" using step(2) j by (simp_all add: u32_def)
    note ib = inode_block_ok [OF n(1)]
    let ?ib = "new_inode e type ?n (fst (block_read d1 (inode_block ?n) ib)) (inode_base ?n)"
    have "window ?ib (new_inode e type ?n ?c (512 * nat (inode_block ?n) + inode_base ?n)) (512 * nat (inode_block ?n))"
      by (intro window_intros) (use bd.bread_window [OF d1(2) ib(2)] d1(3) ib(3) in simp_all)
    moreover have "only (512 * nat (inode_block ?n)) 512 ?c (new_inode e type ?n ?c (512 * nat (inode_block ?n) + inode_base ?n))"
      by (intro only_intros) (use ib(3) in simp_all)
    ultimately obtain d2 where "block_write d1 (inode_block ?n) ?ib = (d2, 512)" "disk_ok d2"
      "content d2 = new_inode e type ?n ?c (iaddr ?n)"
      using bd.bstore [OF d1(2) ib(2), of ?ib] d1(3) ib(4) by metis
    then show ?thesis unfolding fb run Some option.case using d1 n(2) by (simp add: Let_def case_prod_beta)
  qed
qed

lemma reserveFreeInode_spec:
  assumes "disk_ok d" "formatted (content d)"
  shows "case find (\<lambda>n. content d (imap_addr n) = 0) [0..<MAX_INODES] of
      None \<Rightarrow> reserveFreeInode d e junk type = (d, 0)
    | Some n \<Rightarrow> \<exists>d'. reserveFreeInode d e junk type = (d', n) \<and> disk_ok d' \<and>
        content d' = new_inode e type n ((content d)(imap_addr n := 1)) (iaddr n)"
proof -
  have s: "sb_get (fst (block_read d 0 (junk 2))) f = sb_get (content d) f" for f
    by (rule sb_read [OF assms(1)])
  have eq: "reserveFreeInode d e junk type =
      rfi_loop d e type (fst (block_read d 0 (junk 2))) (1 + int 0) (junk 3) (junk 4)"
    using assms(2) by (simp add: reserveFreeInode_def s formatted_def case_prod_beta)
  show ?thesis
    using rfi_loop_spec [OF assms(1), of "fst (block_read d 0 (junk 2))" 0 e type "junk 3" "junk 4"] assms(2)
    unfolding eq by (simp add: s formatted_def)
qed

section \<open>initDir\<close>

text \<open>The content after a directory block at \<open>a\<close> has been made.\<close>

definition dir_content :: "memory \<Rightarrow> nat \<Rightarrow> nat \<Rightarrow> nat \<Rightarrow> memory" where
  "dir_content c a self par =
     (let c1 = put_str (wr c (a + 8 * 0) 8 self) (a + fname_off 0) [46];
          c2 = (if self \<noteq> par then put_str (wr c1 (a + 8 * 1) 8 par) (a + fname_off 1) [46, 46]
                else wr c1 (a + 8 * 1) 8 INUM_FREE)
      in fold (\<lambda>i c. wr c (a + 8 * i) 8 INUM_FREE) [2..<16] c2)"

lemma window_dir_content:
  assumes "window b c a"
  shows "window (fold (\<lambda>i b. put_inum b i INUM_FREE) [2..<16]
     (if self \<noteq> par then put_str (put_inum (put_str (put_inum b 0 self) (fname_off 0) [46]) 1 par) (fname_off 1) [46, 46]
      else put_inum (put_str (put_inum b 0 self) (fname_off 0) [46]) 1 INUM_FREE)) (dir_content c a self par) a"
proof (cases "self = par")
  case True
  then show ?thesis unfolding dir_content_def Let_def
    by (simp only: simp_thms if_False) (intro window_intros; use assms in auto)
next
  case False
  then show ?thesis unfolding dir_content_def Let_def
    by (simp only: simp_thms if_True) (intro window_intros; use assms in auto)
qed

lemma only_dir_content: "only a 512 c (dir_content c a self par)"
proof (cases "self = par")
  case True
  then show ?thesis unfolding dir_content_def Let_def
    by (simp only: simp_thms if_False) (intro only_intros; auto)
next
  case False
  then show ?thesis unfolding dir_content_def Let_def
    by (simp only: simp_thms if_True) (intro only_intros; auto)
qed

lemma initDir_spec:
  assumes "disk_ok d" "block_ok b"
  shows "disk_ok (initDir d junk b self par)"
    "content (initDir d junk b self par) = dir_content (content d) (512 * nat b) self par"
proof -
  let ?b = "fst (block_read d b (junk 6))"
  let ?b' = "fold (\<lambda>i b. put_inum b i INUM_FREE) [2..<16]
     (if self \<noteq> par then put_str (put_inum (put_str (put_inum ?b 0 self) (fname_off 0) [46]) 1 par) (fname_off 1) [46, 46]
      else put_inum (put_str (put_inum ?b 0 self) (fname_off 0) [46]) 1 INUM_FREE)"
  obtain d' where "block_write d b ?b' = (d', 512)" "disk_ok d'"
    "content d' = dir_content (content d) (512 * nat b) self par"
    by (rule bd.bstore [OF assms window_dir_content [OF bd.bread_window [OF assms]] only_dir_content])
  moreover have "initDir d junk b self par = fst (block_write d b ?b')"
    by (simp add: initDir_def Let_def case_prod_beta)
  ultimately show "disk_ok (initDir d junk b self par)"
    "content (initDir d junk b self par) = dir_content (content d) (512 * nat b) self par" by simp_all
qed

lemma rd_put_str: "x + k \<le> a \<or> a + length s < x \<Longrightarrow> rd (put_str c a s) x k = rd c x k"
  by (rule rd_cong) (auto simp: put_str_def)

lemma rd_fold_wr:
  "rd (fold (\<lambda>i c. wr c (a + 8 * i) 8 v) ks c) (a + 8 * k) 8 =
   (if k \<in> set ks then v mod 2 ^ 64 else rd c (a + 8 * k) 8)"
proof (induction ks arbitrary: c)
  case (Cons i ks)
  have "rd (wr c (a + 8 * i) 8 v) (a + 8 * k) 8 = (if i = k then v mod 2 ^ 64 else rd c (a + 8 * k) 8)"
    by (cases "i = k"; cases "i < k") (auto simp: rd_wr_same rd_wr_other)
  then have "rd (fold (\<lambda>i c. wr c (a + 8 * i) 8 v) ks (wr c (a + 8 * i) 8 v)) (a + 8 * k) 8 =
      (if k \<in> set ks \<or> i = k then v mod 2 ^ 64 else rd c (a + 8 * k) 8)"
    unfolding Cons.IH by (cases "k \<in> set ks") simp_all
  then show ?case by (simp add: eq_commute [of i k])
qed simp

lemma dir_content_inum:
  assumes "k < 16" "self < 2 ^ 64" "par < 2 ^ 64"
  shows "rd (dir_content c a self par) (a + 8 * k) 8 =
    (if k = 0 then self else if k = 1 \<and> self \<noteq> par then par else INUM_FREE)"
proof -
  have "k = 0 \<or> k = 1 \<or> 2 \<le> k" by arith
  moreover have "rd (wr m x 8 v) x 8 = v mod 2 ^ 64" for m x v by (simp add: rd_wr_same)
  ultimately show ?thesis
    unfolding dir_content_def Let_def rd_fold_wr set_upt using assms
    by (auto simp: rd_put_str rd_wr_other)
qed

lemma str_at_only: "only a n c c' \<Longrightarrow> x + length s < a \<or> a + n \<le> x \<Longrightarrow> str_at c' x s = str_at c x s"
  by (rule str_at_cong) (auto simp: only_def)

lemma dir_content_name: "str_at (dir_content c a self par) (a + fname_off 0) [46]"
  "self \<noteq> par \<Longrightarrow> str_at (dir_content c a self par) (a + fname_off 1) [46, 46]"
proof -
  let ?c1 = "put_str (wr c (a + 8 * 0) 8 self) (a + fname_off 0) [46]"
  let ?c2 = "if self \<noteq> par then put_str (wr ?c1 (a + 8 * 1) 8 par) (a + fname_off 1) [46, 46]
                else wr ?c1 (a + 8 * 1) 8 INUM_FREE"
  have o: "only a 128 ?c2 (dir_content c a self par)"
    unfolding dir_content_def Let_def by (intro only_intros) auto
  have "str_at ?c2 (a + fname_off 0) [46] = str_at ?c1 (a + fname_off 0) [46]"
    by (rule str_at_cong) (auto simp: put_str_other wr_other)
  then show "str_at (dir_content c a self par) (a + fname_off 0) [46]"
    using str_at_only [OF o, of "a + fname_off 0"] by simp
  show "str_at (dir_content c a self par) (a + fname_off 1) [46, 46]" if "self \<noteq> par"
    using str_at_only [OF o, of "a + fname_off 1"] that by simp
qed

section \<open>New inodes\<close>

lemma iget_clear_directp:
  "if_valid f \<Longrightarrow> \<forall>k\<in>set ks. k < NUM_DIRECT_POINTERS \<Longrightarrow>
   iget (clear_directp c p ks) f p = (if f \<in> F_directp ` set ks then 0 else iget c f p)"
  unfolding clear_directp_def by (induction ks arbitrary: c) (auto simp: ino.gt_pt)

lemma new_inode_fields:
  "iget (new_inode e type i c p) F_mode p = mode_of type"
  "i < 2 ^ 64 \<Longrightarrow> iget (new_inode e type i c p) F_ino p = i"
  "k < NUM_DIRECT_POINTERS \<Longrightarrow> iget (new_inode e type i c p) (F_directp k) p = 0"
  "iget (new_inode e type i c p) F_nlink p = iget c F_nlink p"
  "iget (new_inode e type i c p) F_size p = iget c F_size p"
  by (auto simp: new_inode_def Let_def ino.gt_pt iget_clear_directp mode_of_def)

end
