(* ===== verification/FS_Inv.thy ===== *)
theory FS_Inv
  imports FS_Alloc
begin

text \<open>
  The invariant of the file system on the content of the disk, and that \<open>sfs_init\<close> establishes
  it. The updates that the operations make of the content, taking an inode, giving a
  directory a block and writing an entry, keep it.
\<close>

section \<open>Views of the content\<close>

definition taken :: "memory \<Rightarrow> nat \<Rightarrow> bool" where
  "taken c i \<longleftrightarrow> c (imap_addr i) \<noteq> 0"

definition ptr_of :: "memory \<Rightarrow> nat \<Rightarrow> nat \<Rightarrow> nat" where
  "ptr_of c i q = iget c (F_directp q) (iaddr i)"

definition slot :: "memory \<Rightarrow> nat \<Rightarrow> nat \<Rightarrow> nat" where
  "slot c b k = rd c (512 * b + 8 * k) 8"

definition named :: "memory \<Rightarrow> nat \<Rightarrow> nat \<Rightarrow> cstring \<Rightarrow> bool" where
  "named c b k s \<longleftrightarrow> str_at c (512 * b + fname_off k) s"

definition inode_at :: "memory \<Rightarrow> nat \<Rightarrow> inode" where
  "inode_at c i = load_inode c (iaddr i)"

definition is_data :: "nat \<Rightarrow> bool" where
  "is_data b \<longleftrightarrow> 1089 \<le> b \<and> b < 1089 + MAX_DATA"

definition marked :: "memory \<Rightarrow> nat \<Rightarrow> bool" where
  "marked c b \<longleftrightarrow> c (dmap_addr (b - 1089)) \<noteq> 0"

text \<open>An entry of a directory block is free or names an inode in use.\<close>

definition entry_wf :: "memory \<Rightarrow> nat \<Rightarrow> bool" where
  "entry_wf c v \<longleftrightarrow> v = INUM_FREE \<or> v < MAX_INODES \<and> taken c v"

text \<open>Its name, if it is not free, ends inside its 24 bytes.\<close>

definition name_wf :: "memory \<Rightarrow> nat \<Rightarrow> nat \<Rightarrow> bool" where
  "name_wf c b k \<longleftrightarrow> slot c b k = INUM_FREE \<or> (\<exists>s. length s < MAX_FNAME \<and> 0 \<notin> set s \<and> named c b k s)"

definition block_wf :: "memory \<Rightarrow> nat \<Rightarrow> bool" where
  "block_wf c b \<longleftrightarrow> is_data b \<and> marked c b \<and> (\<forall>k<16. entry_wf c (slot c b k) \<and> name_wf c b k)"

text \<open>An inode in use carries its number, and its pointers are zero or directory blocks.\<close>

definition inode_wf :: "memory \<Rightarrow> nat \<Rightarrow> bool" where
  "inode_wf c i \<longleftrightarrow> iget c F_ino (iaddr i) = i \<and>
     (\<forall>q<NUM_DIRECT_POINTERS. ptr_of c i q \<noteq> 0 \<longrightarrow> block_wf c (ptr_of c i q))"

text \<open>No block belongs to two pointers.\<close>

definition sole :: "memory \<Rightarrow> bool" where
  "sole c \<longleftrightarrow> (\<forall>i<MAX_INODES. \<forall>j<MAX_INODES. \<forall>p<NUM_DIRECT_POINTERS. \<forall>q<NUM_DIRECT_POINTERS.
     taken c i \<longrightarrow> taken c j \<longrightarrow> ptr_of c i p = ptr_of c j q \<longrightarrow> ptr_of c i p \<noteq> 0 \<longrightarrow> i = j \<and> p = q)"

definition fs_inv :: "memory \<Rightarrow> bool" where
  "fs_inv c \<longleftrightarrow> formatted c \<and> taken c 0 \<and> iget c F_mode (iaddr 0) = mode_of DIRECTORY \<and>
     (\<forall>i<MAX_INODES. taken c i \<longrightarrow> inode_wf c i) \<and> sole c"

lemma fs_invD:
  assumes "fs_inv c"
  shows "formatted c" "taken c 0" "iget c F_mode (iaddr 0) = mode_of DIRECTORY"
    "i < MAX_INODES \<Longrightarrow> taken c i \<Longrightarrow> inode_wf c i" "sole c"
  using assms unfolding fs_inv_def by blast+

lemma soleD:
  assumes "sole c" "i < MAX_INODES" "j < MAX_INODES" "p < NUM_DIRECT_POINTERS" "q < NUM_DIRECT_POINTERS"
    "taken c i" "taken c j" "ptr_of c i p = ptr_of c j q" "ptr_of c i p \<noteq> 0"
  shows "i = j" "p = q"
  using assms unfolding sole_def by blast+

lemma inode_wfD: "inode_wf c i \<Longrightarrow> q < NUM_DIRECT_POINTERS \<Longrightarrow> ptr_of c i q \<noteq> 0 \<Longrightarrow> block_wf c (ptr_of c i q)"
  by (simp add: inode_wf_def)

text \<open>A block stays well formed when its entries and its mark stay and no inode is given back.\<close>

lemma block_wf_keep:
  assumes "block_wf c b" "\<And>k. k < 16 \<Longrightarrow> slot c' b k = slot c b k" "marked c b \<Longrightarrow> marked c' b"
    and "\<And>i. i < MAX_INODES \<Longrightarrow> taken c i \<Longrightarrow> taken c' i"
    and "\<And>k s. k < 16 \<Longrightarrow> length s < MAX_FNAME \<Longrightarrow> named c' b k s = named c b k s"
  shows "block_wf c' b"
proof -
  have "entry_wf c' (slot c' b k)" "name_wf c' b k" if k: "k < 16" for k
  proof -
    have "entry_wf c (slot c b k)" "name_wf c b k" using assms(1) k by (simp_all add: block_wf_def)
    then show "entry_wf c' (slot c' b k)" "name_wf c' b k"
      using assms(2,4,5) k by (auto simp: entry_wf_def name_wf_def)
  qed
  then show ?thesis using assms(1,3) by (simp add: block_wf_def)
qed

lemma marked_cong: "is_data b \<Longrightarrow> (\<And>n. n < MAX_DATA \<Longrightarrow> c' (dmap_addr n) = c (dmap_addr n)) \<Longrightarrow> marked c' b = marked c b"
proof -
  assume "is_data b" and *: "\<And>n. n < MAX_DATA \<Longrightarrow> c' (dmap_addr n) = c (dmap_addr n)"
  then have "b - 1089 < MAX_DATA" by (auto simp: is_data_def)
  from * [OF this] show ?thesis by (simp only: marked_def)
qed

lemma only_iget: "only a n c c' \<Longrightarrow> if_valid f \<Longrightarrow> p + 256 \<le> a \<or> a + n \<le> p \<Longrightarrow> iget c' f p = iget c f p"
  using ino.inside [of f] by (auto simp: iget_def intro!: only_rd)

text \<open>Changes of the data blocks do not touch what lies before them, and the other way round.\<close>

lemma data_frame:
  assumes "only (512 * b) 512 c c'" "1089 \<le> b"
  shows "taken c' i = (if i < MAX_INODES then taken c i else taken c' i)"
    "formatted c' = formatted c" "i < MAX_INODES \<Longrightarrow> if_valid f \<Longrightarrow> iget c' f (iaddr i) = iget c f (iaddr i)"
    "is_data b' \<Longrightarrow> marked c' b' = marked c b'"
    "b' \<noteq> b \<Longrightarrow> k < 16 \<Longrightarrow> slot c' b' k = slot c b' k"
    "b' \<noteq> b \<Longrightarrow> k < 16 \<Longrightarrow> length s < MAX_FNAME \<Longrightarrow> named c' b' k s = named c b' k s"
proof -
  show "taken c' i = (if i < MAX_INODES then taken c i else taken c' i)"
    using assms by (auto simp: taken_def only_def)
  show "formatted c' = formatted c" by (rule formatted_cong) (use assms in \<open>simp add: only_def\<close>)
  show "iget c' f (iaddr i) = iget c f (iaddr i)" if "i < MAX_INODES" "if_valid f"
    by (rule only_iget [OF assms(1) that(2)]) (use assms(2) that(1) in simp)
  show "marked c' b' = marked c b'" if "is_data b'"
    by (rule marked_cong [OF that]) (use assms in \<open>auto simp: only_def\<close>)
  have b: "b' < b \<or> b < b'" if "b' \<noteq> b" using that by arith
  show "slot c' b' k = slot c b' k" if "b' \<noteq> b" "k < 16"
    unfolding slot_def by (rule only_rd [OF assms(1)]) (use b [OF that(1)] that(2) in auto)
  show "named c' b' k s = named c b' k s" if "b' \<noteq> b" "k < 16" "length s < MAX_FNAME"
    unfolding named_def by (rule str_at_only [OF assms(1)]) (use b [OF that(1)] that(2,3) in auto)
qed

section \<open>Taking an inode\<close>

definition take_inode :: "fsenv \<Rightarrow> int \<Rightarrow> nat \<Rightarrow> memory \<Rightarrow> memory" where
  "take_inode e type n c = new_inode e type n (c(imap_addr n := 1)) (iaddr n)"

lemma take_inode_apply:
  assumes "n < MAX_INODES" "x < iaddr n \<or> iaddr n + 256 \<le> x"
  shows "take_inode e type n c x = (if x = imap_addr n then 1 else c x)"
proof -
  have "only (iaddr n) 256 (c(imap_addr n := 1)) (take_inode e type n c)"
    unfolding take_inode_def by (intro only_intros) simp_all
  then show ?thesis using assms by (auto simp: only_def)
qed

lemma take_inode_views:
  assumes n: "n < MAX_INODES"
  shows "i < MAX_INODES \<Longrightarrow> taken (take_inode e type n c) i = (i = n \<or> taken c i)"
    "formatted (take_inode e type n c) = formatted c"
    "i < MAX_INODES \<Longrightarrow> i \<noteq> n \<Longrightarrow> if_valid f \<Longrightarrow> iget (take_inode e type n c) f (iaddr i) = iget c f (iaddr i)"
    "is_data b \<Longrightarrow> marked (take_inode e type n c) b = marked c b"
    "1089 \<le> b \<Longrightarrow> slot (take_inode e type n c) b k = slot c b k"
    "1089 \<le> b \<Longrightarrow> named (take_inode e type n c) b k s = named c b k s"
    "q < NUM_DIRECT_POINTERS \<Longrightarrow> ptr_of (take_inode e type n c) n q = 0"
    "iget (take_inode e type n c) F_ino (iaddr n) = n"
    "iget (take_inode e type n c) F_mode (iaddr n) = mode_of type"
proof -
  let ?c = "take_inode e type n c"
  note ap = take_inode_apply [OF n, where e = e and type = type and c = c]
  show "taken ?c i = (i = n \<or> taken c i)" if "i < MAX_INODES" using ap [of "imap_addr i"] that by (simp add: taken_def)
  show "formatted ?c = formatted c" by (rule formatted_cong) (use ap in simp)
  show "iget ?c f (iaddr i) = iget c f (iaddr i)" if i: "i < MAX_INODES" "i \<noteq> n" and f: "if_valid f"
  proof (rule ino.gt_cong [OF f])
    fix x :: nat
    assume "x < 256"
    moreover have "i < n \<or> n < i" using i(2) by arith
    ultimately have "iaddr i + x < iaddr n \<or> iaddr n + 256 \<le> iaddr i + x" by auto
    then show "?c (iaddr i + x) = c (iaddr i + x)" using ap n by simp
  qed
  show "marked ?c b = marked c b" if "is_data b"
    by (rule marked_cong [OF that]) (use ap n in simp)
  show "slot ?c b k = slot c b k" if "1089 \<le> b"
    unfolding slot_def by (rule rd_cong) (use that n in \<open>simp add: ap\<close>)
  show "named ?c b k s = named c b k s" if "1089 \<le> b"
    unfolding named_def by (rule str_at_cong) (use that n in \<open>simp add: ap\<close>)
  show "ptr_of ?c n q = 0" if "q < NUM_DIRECT_POINTERS" using that by (simp add: ptr_of_def take_inode_def new_inode_fields)
  show "iget ?c F_ino (iaddr n) = n" "iget ?c F_mode (iaddr n) = mode_of type"
    using n by (simp_all add: take_inode_def new_inode_fields)
qed

lemma take_inode_inv:
  assumes inv: "fs_inv c" and n: "n < MAX_INODES" "\<not> taken c n"
  shows "fs_inv (take_inode e type n c)"
proof -
  let ?c = "take_inode e type n c"
  note D = fs_invD [OF inv] and V = take_inode_views [OF n(1), where e = e and type = type and c = c]
  have n0: "n \<noteq> 0" using D(2) n(2) by metis
  have P: "ptr_of ?c i q = (if i = n then 0 else ptr_of c i q)" if "i < MAX_INODES" "q < NUM_DIRECT_POINTERS" for i q
    using V(3) [OF that(1), of "F_directp q"] V(7) [OF that(2)] that by (simp add: ptr_of_def)
  have B: "block_wf ?c b" if "block_wf c b" for b
    by (rule block_wf_keep [OF that]) (use that V(1,4,5,6) in \<open>auto simp: block_wf_def is_data_def\<close>)
  have "inode_wf ?c i" if i: "i < MAX_INODES" "taken ?c i" for i
  proof (cases "i = n")
    case True
    then show ?thesis using V(7,8) by (simp add: inode_wf_def)
  next
    case False
    then have "inode_wf c i" using D(4) V(1) i by simp
    then show ?thesis using False V(3) [OF i(1) False, of F_ino] P i(1) B by (simp add: inode_wf_def)
  qed
  moreover have "sole ?c"
    unfolding sole_def using P V(1) soleD [OF D(5)] by (simp split: if_splits)
  ultimately show ?thesis using D(1-3) V(2) V(1) [of 0] V(3) [of 0 F_mode] n0 by (simp add: fs_inv_def)
qed

section \<open>Giving a directory a block\<close>

text \<open>
  What \<open>grow_dir\<close> does: the block is marked, made an empty directory of the inode \<open>i\<close>, and
  entered into its pointer \<open>q\<close>.
\<close>

definition give_block :: "nat \<Rightarrow> nat \<Rightarrow> nat \<Rightarrow> nat \<Rightarrow> memory \<Rightarrow> memory" where
  "give_block i q b par c =
     iput (dir_content (c(dmap_addr (b - 1089) := 1)) (512 * b) i par) (F_directp q) (iaddr i) b"

lemma give_block_views:
  assumes i: "i < MAX_INODES" and q: "q < NUM_DIRECT_POINTERS" and b: "is_data b" and par: "par < MAX_INODES"
  shows "j < MAX_INODES \<Longrightarrow> taken (give_block i q b par c) j = taken c j"
    "formatted (give_block i q b par c) = formatted c"
    "j < MAX_INODES \<Longrightarrow> if_valid f \<Longrightarrow> iget (give_block i q b par c) f (iaddr j) =
       (if j = i \<and> f = F_directp q then b else iget c f (iaddr j))"
    "is_data b' \<Longrightarrow> marked (give_block i q b par c) b' = (b' = b \<or> marked c b')"
    "is_data b' \<Longrightarrow> b' \<noteq> b \<Longrightarrow> k < 16 \<Longrightarrow> slot (give_block i q b par c) b' k = slot c b' k"
    "is_data b' \<Longrightarrow> b' \<noteq> b \<Longrightarrow> k < 16 \<Longrightarrow> length s < MAX_FNAME \<Longrightarrow>
       named (give_block i q b par c) b' k s = named c b' k s"
    "k < 16 \<Longrightarrow> slot (give_block i q b par c) b k =
       (if k = 0 then i else if k = 1 \<and> i \<noteq> par then par else INUM_FREE)"
proof -
  let ?c1 = "c(dmap_addr (b - 1089) := 1)"
  let ?c2 = "dir_content ?c1 (512 * b) i par" and ?c3 = "give_block i q b par c"
  have bd: "1089 \<le> b" "b < 31809" "b < 2 ^ 32" using b by (auto simp: is_data_def)
  have o2: "only (512 * b) 512 ?c1 ?c2" by (rule only_dir_content)
  have o3: "only (iaddr i) 256 ?c2 ?c3" unfolding give_block_def by (intro only_intros) (use q in simp_all)
  note F = data_frame [OF o2 bd(1)]
  have c3: "?c3 x = ?c2 x" if "x < 33280 \<or> 557568 \<le> x" for x using o3 that i by (auto simp: only_def)
  show "taken ?c3 j = taken c j" if "j < MAX_INODES"
    using F(1) [of j] that c3 [of "imap_addr j"] bd by (auto simp: taken_def)
  have "formatted ?c3 = formatted ?c2" by (rule formatted_cong) (simp add: c3)
  also have "\<dots> = formatted ?c1" by (rule F(2))
  also have "\<dots> = formatted c" by (rule formatted_cong) simp
  finally show "formatted ?c3 = formatted c" .
  show "iget ?c3 f (iaddr j) = (if j = i \<and> f = F_directp q then b else iget c f (iaddr j))"
    if "j < MAX_INODES" "if_valid f"
  proof -
    have "iget ?c3 f (iaddr j) = (if i = j \<and> F_directp q = f then b mod 256 ^ 4 else iget ?c2 f (iaddr j))"
      unfolding give_block_def using q that(2) by (subst ino.gt_pt) (auto simp: apart_def)
    moreover have "iget ?c1 f (iaddr j) = iget c f (iaddr j)"
      by (rule ino.gt_cong [OF that(2)]) (use bd in simp)
    ultimately show ?thesis using F(3) [OF that] bd(3) by auto
  qed
  have m1: "marked ?c1 b' = (b' = b \<or> marked c b')" if "is_data b'" for b'
    using that bd(1) by (auto simp: marked_def is_data_def)
  have m3: "marked ?c3 b' = marked ?c2 b'" if "is_data b'"for b'
    by (rule marked_cong [OF that]) (simp add: c3)
  show "marked ?c3 b' = (b' = b \<or> marked c b')" if "is_data b'" using that by (simp add: F(4) m1 m3)
  have far: "?c3 (512 * b' + x) = ?c2 (512 * b' + x)" "?c1 (512 * b' + x) = c (512 * b' + x)" if "is_data b'" for b' x
    using that c3 bd by (auto simp: is_data_def)
  have s31: "slot ?c3 b' k = slot ?c2 b' k" "slot ?c1 b' k = slot c b' k" if "is_data b'" for b' k
    unfolding slot_def using far [OF that] by (auto intro!: rd_cong simp: add.assoc)
  show "slot ?c3 b' k = slot c b' k" if "is_data b'" "b' \<noteq> b" "k < 16"
    using F(5) [OF that(2,3)] s31 [OF that(1)] by simp
  have n31: "named ?c3 b' k s = named ?c2 b' k s" "named ?c1 b' k s = named c b' k s" if "is_data b'" for b'
    unfolding named_def by (rule str_at_cong, simp only: add.assoc far [OF that])+
  show "named ?c3 b' k s = named c b' k s" if "is_data b'" "b' \<noteq> b" "k < 16" "length s < MAX_FNAME"
    using F(6) [OF that(2-4)] n31 [OF that(1)] by simp
  show "slot ?c3 b k = (if k = 0 then i else if k = 1 \<and> i \<noteq> par then par else INUM_FREE)" if "k < 16"
    using s31(1) [OF b] dir_content_inum [OF that, of i par ?c1 "512 * b"] i par by (simp add: slot_def)
qed

lemma give_block_names:
  assumes "i < MAX_INODES" "q < NUM_DIRECT_POINTERS" "is_data b"
  shows "named (give_block i q b par c) b 0 [46]" "i \<noteq> par \<Longrightarrow> named (give_block i q b par c) b 1 [46, 46]"
proof -
  let ?c2 = "dir_content (c(dmap_addr (b - 1089) := 1)) (512 * b) i par"
  have "only (iaddr i) 256 ?c2 (give_block i q b par c)"
    unfolding give_block_def by (intro only_intros) (use assms(2) in simp_all)
  then have eq: "named (give_block i q b par c) b k s = named ?c2 b k s" for k s
    unfolding named_def by (rule str_at_only) (use assms(1,3) in \<open>auto simp: is_data_def\<close>)
  show "named (give_block i q b par c) b 0 [46]" unfolding eq unfolding named_def by (rule dir_content_name(1))
  show "i \<noteq> par \<Longrightarrow> named (give_block i q b par c) b 1 [46, 46]" unfolding eq unfolding named_def by (rule dir_content_name(2))
qed

lemma give_block_inv:
  assumes inv: "fs_inv c" and i: "i < MAX_INODES" "taken c i" and q: "q < NUM_DIRECT_POINTERS" "ptr_of c i q = 0"
    and b: "is_data b" "\<not> marked c b" and par: "par < MAX_INODES" "taken c par"
  shows "fs_inv (give_block i q b par c)"
proof -
  let ?c = "give_block i q b par c"
  note D = fs_invD [OF inv] and V = give_block_views [OF i(1) q(1) b(1) par(1), where c = c]
  have P: "ptr_of ?c j p = (if j = i \<and> p = q then b else ptr_of c j p)" if "j < MAX_INODES" "p < NUM_DIRECT_POINTERS" for j p
    using V(3) [OF that(1), of "F_directp p"] that(2) by (simp add: ptr_of_def)
  have B: "block_wf ?c b'" if "block_wf c b'" for b'
  proof (rule block_wf_keep [OF that])
    have "b' \<noteq> b" "is_data b'" using that b(2) by (auto simp: block_wf_def)
    then show "slot ?c b' k = slot c b' k" if "k < 16" for k using V(5) that by simp
    show "marked ?c b'" if "marked c b'" using V(4) \<open>is_data b'\<close> that by simp
    show "named ?c b' k s = named c b' k s" if "k < 16" "length s < MAX_FNAME" for k s
      using V(6) \<open>b' \<noteq> b\<close> \<open>is_data b'\<close> that by simp
  qed (use V(1) in simp)
  have "name_wf ?c b k" if "k < 16" for k
  proof -
    have "slot ?c b k = INUM_FREE \<or> k = 0 \<or> k = 1 \<and> i \<noteq> par" using V(7) [OF that] by (simp split: if_splits)
    then show ?thesis using give_block_names [OF i(1) q(1) b(1), of par c]
      by (auto simp: name_wf_def intro: exI [of _ "[46]"] exI [of _ "[46, 46]"])
  qed
  then have new: "block_wf ?c b"
    using V(4) [OF b(1)] V(7) V(1) i par b(1) by (auto simp: block_wf_def entry_wf_def)
  have other: "ptr_of c j p \<noteq> b" if "j < MAX_INODES" "p < NUM_DIRECT_POINTERS" "taken c j" for j p
  proof
    assume "ptr_of c j p = b"
    moreover have "b \<noteq> 0" using b(1) by (auto simp: is_data_def)
    ultimately have "block_wf c b" using inode_wfD [OF D(4) [OF that(1,3)] that(2)] by simp
    then show False using b(2) by (simp add: block_wf_def)
  qed
  have "inode_wf ?c j" if j: "j < MAX_INODES" "taken ?c j" for j
    using D(4) [OF j(1)] V(1) [OF j(1)] j V(3) [OF j(1), of F_ino] P [OF j(1)] B new by (auto simp: inode_wf_def)
  moreover have "sole ?c"
    unfolding sole_def
  proof (intro allI impI)
    fix j j' p p'
    assume *: "j < MAX_INODES" "j' < MAX_INODES" "p < NUM_DIRECT_POINTERS" "p' < NUM_DIRECT_POINTERS"
      "taken ?c j" "taken ?c j'" "ptr_of ?c j p = ptr_of ?c j' p'" "ptr_of ?c j p \<noteq> 0"
    have t: "taken c j" "taken c j'" using *(1,2,5,6) V(1) by simp_all
    show "j = j' \<and> p = p'"
      using * t other [of j p] other [of j' p'] soleD [OF D(5), of j j' p p'] by (auto simp: P split: if_splits)
  qed
  ultimately show ?thesis using D(1-3) V(2) V(1) [of 0] V(3) [of 0 F_mode] by (simp add: fs_inv_def)
qed

section \<open>Writing an entry\<close>

definition write_entry :: "nat \<Rightarrow> nat \<Rightarrow> nat \<Rightarrow> cstring \<Rightarrow> memory \<Rightarrow> memory" where
  "write_entry b k ino s c = put_str (wr c (512 * b + 8 * k) 8 ino) (512 * b + fname_off k) s"

lemma write_entry_views:
  assumes b: "is_data b" and k: "k < 16" and s: "length s < MAX_FNAME" and ino: "ino < 2 ^ 64"
  shows "j < MAX_INODES \<Longrightarrow> taken (write_entry b k ino s c) j = taken c j"
    "formatted (write_entry b k ino s c) = formatted c"
    "j < MAX_INODES \<Longrightarrow> if_valid f \<Longrightarrow> iget (write_entry b k ino s c) f (iaddr j) = iget c f (iaddr j)"
    "is_data b' \<Longrightarrow> marked (write_entry b k ino s c) b' = marked c b'"
    "k' < 16 \<Longrightarrow> slot (write_entry b k ino s c) b' k' = (if b' = b \<and> k' = k then ino else slot c b' k')"
    "k' < 16 \<Longrightarrow> length s' < MAX_FNAME \<Longrightarrow> b' \<noteq> b \<or> k' \<noteq> k \<Longrightarrow> named (write_entry b k ino s c) b' k' s' = named c b' k' s'"
    "named (write_entry b k ino s c) b k s"
proof -
  let ?c = "write_entry b k ino s c"
  have o: "only (512 * b) 512 c ?c" unfolding write_entry_def by (intro only_intros) (use k s in auto)
  have bd: "1089 \<le> b" using b by (simp add: is_data_def)
  note F = data_frame [OF o bd]
  show "taken ?c j = taken c j" if "j < MAX_INODES" using F(1) [of j] that by simp
  show "formatted ?c = formatted c" by (rule F(2))
  show "iget ?c f (iaddr j) = iget c f (iaddr j)" if "j < MAX_INODES" "if_valid f" using F(3) that by simp
  show "marked ?c b' = marked c b'" if "is_data b'" using F(4) that by simp
  show "slot ?c b' k' = (if b' = b \<and> k' = k then ino else slot c b' k')" if "k' < 16"
  proof (cases "b' = b")
    case True
    have "rd (wr c (512 * b + 8 * k) 8 ino) (512 * b + 8 * k') 8 = (if k = k' then ino else rd c (512 * b + 8 * k') 8)"
      using ino by (cases "k = k'"; cases "k < k'") (auto simp: rd_wr_same rd_wr_other)
    then show ?thesis using True that by (auto simp: slot_def write_entry_def rd_put_str)
  qed (use F(5) that in simp)
  show "named ?c b' k' s' = named c b' k' s'" if k': "k' < 16" "length s' < MAX_FNAME" "b' \<noteq> b \<or> k' \<noteq> k"
  proof (cases "b' = b")
    case True
    then have "k' < k \<or> k < k'" using k'(3) by auto
    then have "?c (512 * b + fname_off k' + x) = c (512 * b + fname_off k' + x)" if "x \<le> length s'" for x
      using that k'(1,2) k s unfolding write_entry_def by (subst put_str_other; (subst wr_other)?) auto
    then show ?thesis using True by (auto simp: named_def intro!: str_at_cong)
  qed (use F(6) k' in simp)
  show "named ?c b k s" by (simp add: named_def write_entry_def)
qed

lemma write_entry_inv:
  assumes inv: "fs_inv c" and b: "is_data b" and k: "k < 16" and s: "length s < MAX_FNAME" "0 \<notin> set s"
    and ino: "ino < MAX_INODES" "taken c ino"
  shows "fs_inv (write_entry b k ino s c)"
proof -
  let ?c = "write_entry b k ino s c"
  have "ino < 2 ^ 64" using ino(1) by simp
  note D = fs_invD [OF inv] and V = write_entry_views [OF b k s(1) this, where c = c]
  have P: "ptr_of ?c j p = ptr_of c j p" if "j < MAX_INODES" "p < NUM_DIRECT_POINTERS" for j p
    using V(3) [OF that(1), of "F_directp p"] that(2) by (simp add: ptr_of_def)
  have E: "entry_wf ?c v" if "entry_wf c v" for v using that V(1) by (auto simp: entry_wf_def)
  have "entry_wf c ino" using ino by (simp add: entry_wf_def)
  moreover have "name_wf ?c b' k'" if "name_wf c b' k'" "k' < 16" for b' k'
    using that V(5) [OF that(2), of b'] V(6) [OF that(2), of _ b'] V(7) s
    by (cases "b' = b \<and> k' = k") (auto simp: name_wf_def)
  ultimately have B: "block_wf ?c b'" if "block_wf c b'" for b'
    using that V(4,5) E by (auto simp: block_wf_def)
  have "inode_wf ?c j" if j: "j < MAX_INODES" "taken ?c j" for j
    using D(4) [OF j(1)] V(1) [OF j(1)] j V(3) [OF j(1), of F_ino] P [OF j(1)] B by (auto simp: inode_wf_def)
  moreover have "sole ?c"
    unfolding sole_def using P V(1) soleD [OF D(5)] by auto
  ultimately show ?thesis using D(1-3) V(2) V(1) [of 0] V(3) [of 0 F_mode] by (simp add: fs_inv_def)
qed

end
