(* ===== verification/FS_Dirs.thy ===== *)
theory FS_Dirs
  imports FS_Inv
begin

text \<open>
  \<open>sfs_init\<close> establishes the invariant, and \<open>updateDir\<close> writes one entry: into a free place of
  the block at its index, into a block it takes for it, or it never returns.
\<close>

section \<open>sfs_init\<close>

lemma init_maps_spec:
  assumes "disk_ok d" "k \<le> 64"
  shows "disk_ok (init_maps d (1 + int k) 65)"
    "content (init_maps d (1 + int k) 65) =
      (\<lambda>x. if 512 * (1 + k) \<le> x \<and> x < 33280 then (if x = 512 then 1 else 0) else content d x)"
proof -
  have "disk_ok (init_maps d (1 + int k) 65) \<and> content (init_maps d (1 + int k) 65) =
      (\<lambda>x. if 512 * (1 + k) \<le> x \<and> x < 33280 then (if x = 512 then 1 else 0) else content d x)"
    using assms(2,1)
  proof (induction k arbitrary: d rule: inc_induct)
    case base
    then show ?case using init_maps.simps [of d 65 65] by (auto simp: fun_eq_iff)
  next
    case (step k)
    let ?t = "\<lambda>x::nat. if x = 0 \<and> 1 + int k = 1 then 1 else (0 :: byte)"
    have bk: "block_ok (1 + int k)" "nat (1 + int k) = 1 + k" using step(2) by simp_all
    obtain d' where d': "block_write d (1 + int k) ?t = (d', 512)" "disk_ok d'"
      "content d' = copy_in (content d) (512 * (1 + k)) ?t 512"
      using block_write_ex [OF step(4) bk(1)] bk(2) by metis
    have run: "init_maps d (1 + int k) 65 = init_maps d' (1 + int (Suc k)) 65"
      using step(2) d'(1) by (subst init_maps.simps) (simp add: algebra_simps)
    have c: "content d' x = (if 512 * (1 + k) \<le> x \<and> x < 512 * (1 + k) + 512 then (if x = 512 then 1 else 0) else content d x)" for x
      by (auto simp: d'(3) copy_in_def)
    show ?case using step(3) [OF d'(2)] step(2) unfolding run by (auto simp: c fun_eq_iff)
  qed
  then show "disk_ok (init_maps d (1 + int k) 65)"
    "content (init_maps d (1 + int k) 65) =
      (\<lambda>x. if 512 * (1 + k) \<le> x \<and> x < 33280 then (if x = 512 then 1 else 0) else content d x)" by simp_all
qed

lemma root_inode_fields:
  "iget (root_inode e b) F_mode 0 = mode_of DIRECTORY" "iget (root_inode e b) F_ino 0 = 0"
  "0 < k \<Longrightarrow> k < NUM_DIRECT_POINTERS \<Longrightarrow> iget (root_inode e b) (F_directp k) 0 = 0"
  by (auto simp: root_inode_def Let_def ino.gt_pt iget_clear_directp mode_of_def)

lemma find_first: "0 < n \<Longrightarrow> P 0 \<Longrightarrow> find P [0..<n] = Some 0"
  by (simp add: upt_conv_Cons)

lemma find_second: "1 < n \<Longrightarrow> \<not> P 0 \<Longrightarrow> P 1 \<Longrightarrow> find P [0..<n] = Some 1"
  by (simp add: upt_conv_Cons)

lemma find_upt: "k < n \<Longrightarrow> P k \<Longrightarrow> (\<And>j. j < k \<Longrightarrow> \<not> P j) \<Longrightarrow> find P [0..<n] = Some k"
  unfolding find_Some_iff by (rule exI [of _ k]) simp

text \<open>What a new file system looks like.\<close>

definition fresh_fs :: "memory \<Rightarrow> bool" where
  "fresh_fs c \<longleftrightarrow> formatted c \<and> (\<forall>i<MAX_INODES. taken c i \<longleftrightarrow> i = 0) \<and> (\<forall>b. is_data b \<longrightarrow> (marked c b \<longleftrightarrow> b = 1089)) \<and>
     iget c F_mode (iaddr 0) = mode_of DIRECTORY \<and> iget c F_ino (iaddr 0) = 0 \<and>
     (\<forall>q<NUM_DIRECT_POINTERS. ptr_of c 0 q = (if q = 0 then 1089 else 0)) \<and>
     (\<forall>k<16. slot c 1089 k = (if k = 0 then 0 else INUM_FREE)) \<and> named c 1089 0 [46]"

lemma fresh_fs_inv:
  assumes "fresh_fs c"
  shows "fs_inv c"
proof -
  have "block_wf c 1089" using assms
    by (auto simp: fresh_fs_def block_wf_def is_data_def entry_wf_def name_wf_def intro: exI [of _ "[46]"])
  then have "inode_wf c 0" using assms by (auto simp: fresh_fs_def inode_wf_def)
  moreover have "sole c" using assms by (auto simp: fresh_fs_def sole_def split: if_splits)
  ultimately show ?thesis using assms by (auto simp: fresh_fs_def fs_inv_def)
qed

lemma sfs_init_fresh:
  assumes open': "disk_open d0 fd = retn d" and ok: "disk_ok d"
    and new: "dlen d = 0 \<or> sb_get (content d) Magicnum \<noteq> MAGIC"
  shows "\<exists>d'. sfs_init d0 e junk fd = retn d' \<and> disk_ok d' \<and> fresh_fs (content d')"
proof -
  define sb where "sb = fst (block_read d 0 (junk 13))"
  define sb' where "sb' = sb_put (sb_put (sb_put (sb_put (sb_put sb Magicnum MAGIC) Imap 1) Dmap 5) IList 65) DList 1089"
  have sb': "sb_get sb' Imap = 1" "sb_get sb' Dmap = 5" "sb_get sb' IList = 65" "sb_get sb' DList = 1089"
    "sb_get sb' Magicnum = MAGIC" by (simp_all add: sb'_def)
  obtain d1 where d1: "block_write d 0 sb' = (d1, 512)" "disk_ok d1" "content d1 = copy_in (content d) 0 sb' 512"
    using block_write_ex [OF ok, of 0] by auto
  define d2 where "d2 = init_maps d1 1 65"
  have d2: "disk_ok d2" "content d2 = (\<lambda>x. if 512 \<le> x \<and> x < 33280 then (if x = 512 then 1 else 0) else content d1 x)"
    using init_maps_spec [OF d1(2), of 0] by (simp_all add: d2_def)
  have "sb_get (content d2) f = sb_get sb' f" for f
    unfolding sb_get_def by (cases f) (auto intro!: arg_cong [of _ _ s32] rd_cong simp: d2(2) d1(3))
  then have f2: "formatted (content d2)" using sb' by (simp add: formatted_def)
  have z: "content d2 (dmap_addr n) = 0" if "n < MAX_DATA" for n using that by (simp add: d2(2))
  have fnd: "find (\<lambda>n. content d2 (dmap_addr n) = 0) [0..<MAX_DATA] = Some 0"
    using z [of 0] by (intro find_first) simp_all
  obtain d3 where d3: "reserveFreeData d2 junk = (d3, 1089)" "disk_ok d3" "content d3 = (content d2)(dmap_addr 0 := 1)"
    using reserveFreeData_spec [OF d2(1) f2, of junk] unfolding fnd by auto
  define d4 where "d4 = initDir d3 junk 1089 0 0"
  have d4: "disk_ok d4" "content d4 = dir_content (content d3) (512 * 1089) 0 0"
    using initDir_spec [OF d3(2), of 1089 junk 0 0] by (simp_all add: d4_def)
  define b3 where "b3 = iput (iput (root_inode e (junk 14)) (F_directp 0) 0 1089) F_indirectp 0 0"
  have b3: "iget b3 F_mode 0 = mode_of DIRECTORY" "iget b3 F_ino 0 = 0"
    "q < NUM_DIRECT_POINTERS \<Longrightarrow> iget b3 (F_directp q) 0 = (if q = 0 then 1089 else 0)" for q
    by (auto simp: b3_def ino.gt_pt root_inode_fields)
  obtain d5 where d5: "block_write d4 65 b3 = (d5, 512)" "disk_ok d5" "content d5 = copy_in (content d4) 33280 b3 512"
    using block_write_ex [OF d4(1), of 65] by auto
  have run: "sfs_init d0 e junk fd = retn d5"
    using new d1(1) d3(1) d5(1) sb_read [OF ok, of "junk 13" Magicnum]
    by (simp add: sfs_init_def open' case_prod_beta sb_def [symmetric] sb'_def [symmetric] sb'(3) Let_def d2_def [symmetric]
        ino.gt_pt root_inode_fields u32_def d4_def [symmetric] b3_def [symmetric])
  let ?c = "content d5"
  have c5: "?c x = content d4 x" if "x < 33280 \<or> 33792 \<le> x" for x using that by (auto simp: d5(3))
  have c4: "content d4 x = content d3 x" if "x < 557568" for x
    using only_dir_content [of "512 * 1089" "content d3" 0 0] that by (simp add: d4(2) only_def)
  have low: "?c x = ((content d2)(dmap_addr 0 := 1)) x" if "x < 33280" for x
    using that by (simp add: c5 c4 d3(3))
  have "formatted ?c" using f2 formatted_cong [of ?c "content d2"] by (simp add: low)
  moreover have "taken ?c i \<longleftrightarrow> i = 0" if "i < MAX_INODES" for i
    using that by (simp add: taken_def low d2(2))
  moreover have "marked ?c b \<longleftrightarrow> b = 1089" if b: "is_data b" for b
  proof -
    have "b - 1089 < MAX_DATA" "1089 \<le> b" using b by (auto simp: is_data_def)
    then show ?thesis using z [of "b - 1089"] by (auto simp: marked_def low)
  qed
  moreover have ig: "iget ?c f (iaddr 0) = iget b3 f 0" if "if_valid f" for f
    using ino.gt_copy_in_inside [OF that, of 33280 33280 512 "content d4" b3] by (simp add: d5(3))
  moreover have hi: "?c (512 * 1089 + x) = dir_content (content d3) (512 * 1089) 0 0 (512 * 1089 + x)" for x
    by (simp add: c5 d4(2))
  then have "slot ?c 1089 k = rd (dir_content (content d3) (512 * 1089) 0 0) (512 * 1089 + 8 * k) 8" for k
    unfolding slot_def by (intro rd_cong) (simp only: add.assoc)
  then have "slot ?c 1089 k = (if k = 0 then 0 else INUM_FREE)" if "k < 16" for k
    using dir_content_inum [OF that, of 0 0 "content d3" "512 * 1089"] by simp
  moreover have "named ?c 1089 0 [46]"
    using dir_content_name(1) [of "content d3" "512 * 1089" 0 0] hi
    unfolding named_def by (subst str_at_cong [of _ _ _ "dir_content (content d3) (512 * 1089) 0 0"]) (simp_all only: add.assoc)
  ultimately have "fresh_fs ?c" using b3 by (simp add: fresh_fs_def ptr_of_def)
  then show ?thesis using run d5(2) by blast
qed

section \<open>updateDir\<close>

lemma directp_nth:
  assumes "q < NUM_DIRECT_POINTERS" "ptr_of c i q = 0 \<or> is_data (ptr_of c i q)"
  shows "directp (inode_at c i) ! q = int (ptr_of c i q)"
  using assms by (auto simp: inode_at_def ptr_of_def is_data_def s32_small)

lemma is_data_block: "is_data b \<Longrightarrow> block_ok (int b)"
  by (auto simp: is_data_def)

text \<open>The first free entry of a directory block.\<close>

definition free_entry :: "memory \<Rightarrow> nat \<Rightarrow> nat option" where
  "free_entry c b = find (\<lambda>k. slot c b k = INUM_FREE) [0..<16]"

lemma free_entryD: "free_entry c b = Some k \<Longrightarrow> k < 16 \<and> slot c b k = INUM_FREE"
  using find_SomeD [of _ "[0..<16]" k] unfolding free_entry_def set_upt by auto

lemma free_entry_read:
  assumes "disk_ok d" "is_data b"
  shows "find (\<lambda>j. inum_at (fst (block_read d (int b) buf)) j = INUM_FREE) [0..<16] = free_entry (content d) b"
  unfolding free_entry_def
proof (rule find_cong)
  fix j :: nat
  assume "j \<in> set [0..<16]"
  then show "(inum_at (fst (block_read d (int b) buf)) j = INUM_FREE) = (slot (content d) b j = INUM_FREE)"
    using window_rd [OF bd.bread_window [OF assms(1) is_data_block [OF assms(2)]], of "8 * j" 8 buf]
    unfolding set_upt by (simp add: inum_at_def slot_def)
qed simp

text \<open>The part of a round behind the choice of the block: the entry is written.\<close>

lemma write_entry_block:
  assumes "disk_ok d" "is_data b" "k < 16" "length s < MAX_FNAME"
  obtains d' where
    "block_write d (int b) (put_str (put_inum (fst (block_read d (int b) buf)) k ino) (fname_off k) s) = (d', 512)"
    "disk_ok d'" "content d' = write_entry b k ino s (content d)"
proof -
  note bk = is_data_block [OF assms(2)]
  have w: "window (fst (block_read d (int b) buf)) (content d) (512 * b)"
    using bd.bread_window [OF assms(1) bk] by simp
  let ?c = "write_entry b k ino s (content d)"
  have "window (put_str (put_inum (fst (block_read d (int b) buf)) k ino) (fname_off k) s) ?c (512 * nat (int b))"
    unfolding write_entry_def nat_int using assms(3,4) by (intro window_intros w) auto
  moreover have "only (512 * nat (int b)) 512 (content d) ?c"
    unfolding write_entry_def nat_int using assms(3,4) by (intro only_intros) auto
  ultimately show thesis using bd.bstore [OF assms(1) bk] that by metis
qed

lemma updateDir_existing:
  assumes d: "disk_ok d" and b: "is_data b" and q: "q < NUM_DIRECT_POINTERS" "directp inn ! q = int b"
  shows "updateDir_loop junk d (int q) name par inn ino buf =
    (case free_entry (content d) b of
       Some k \<Rightarrow>
         if length name \<ge> MAX_FNAME then fail OutOfBounds
         else retn (fst (block_write d (int b)
                (put_str (put_inum (fst (block_read d (int b) buf)) k ino) (fname_off k) name)), 0)
     | None \<Rightarrow> updateDir_loop junk d (int q) name par inn ino (fst (block_read d (int b) buf)))"
proof -
  have b0: "int b \<noteq> 0" using b by (simp add: is_data_def)
  have r: "\<not> snd (block_read d (int b) buf) < 0" using block_read_ok(1) [OF d is_data_block [OF b], of buf] by simp
  show ?thesis
    using q b0 r free_entry_read [OF d b, of buf]
    by (subst updateDir_loop.simps) (simp add: case_prod_beta Let_def split: option.split)
qed

lemma updateDir_full:
  assumes "disk_ok d" "is_data b" "q < NUM_DIRECT_POINTERS" "directp inn ! q = int b" "free_entry (content d) b = None"
  shows "updateDir_loop junk d (int q) name par inn ino buf = None"
proof (rule ccontr)
  assume "updateDir_loop junk d (int q) name par inn ino buf \<noteq> None"
  then obtain r where r: "updateDir_loop junk d (int q) name par inn ino buf = Some r" by auto
  define P where "P = (\<lambda>junk' d' i' (name' :: cstring) (par' :: inode) inn' (ino' :: nat) (buf' :: memory) (r' :: fault + disk \<times> int).
    \<not> (junk' = junk \<and> d' = d \<and> i' = int q \<and> inn' = inn))"
  have "P junk d (int q) name par inn ino buf r"
  proof (rule updateDir_loop.raw_induct [OF _ r])
    fix f junk' d' i' name' par' inn' ino' buf' r'
    assume IH: "\<And>junk d i name par inn ino buf y. f junk d i name par inn ino buf = Some y \<Longrightarrow> P junk d i name par inn ino buf y"
      and body: "(if i' < int NUM_DIRECT_POINTERS then
        if i' < 0 then fail OutOfBounds
        else
          let (d1, inn1, got) = (if directp inn' ! nat i' = 0 then grow_dir d' junk' (nat i') par' inn' else (d', inn', True))
          in if \<not> got then retn (d1, -1)
             else
               let (m, r) = block_read d1 (directp inn1 ! nat i') buf'
               in if r < 0 then retn (d1, -1)
                  else
                    (case find (\<lambda>j. inum_at m j = INUM_FREE) [0..<16] of
                       Some j \<Rightarrow>
                         if length name' \<ge> MAX_FNAME then fail OutOfBounds
                         else
                           let m' = put_str (put_inum m j ino') (fname_off j) name';
                               (d2, w) = block_write d1 (directp inn1 ! nat i') m'
                           in retn (d2, 0)
                     | None \<Rightarrow> f junk' d1 i' name' par' inn1 ino' m)
      else retn (d', -1)) = Some r'"
    show "P junk' d' i' name' par' inn' ino' buf' r'"
    proof (rule ccontr)
      assume "\<not> ?thesis"
      then have eq: "junk' = junk" "d' = d" "i' = int q" "inn' = inn" by (simp_all add: P_def)
      have b0: "int b \<noteq> 0" using assms(2) by (simp add: is_data_def)
      have "\<not> snd (block_read d (int b) buf') < 0"
        using block_read_ok(1) [OF assms(1) is_data_block [OF assms(2)], of buf'] by simp
      moreover have "find (\<lambda>j. inum_at (fst (block_read d (int b) buf')) j = INUM_FREE) [0..<16] = None"
        using free_entry_read [OF assms(1,2)] assms(5) by simp
      ultimately have "f junk d (int q) name' par' inn ino' (fst (block_read d (int b) buf')) = Some r'"
        using body assms(3,4) b0 unfolding eq by (simp add: case_prod_beta Let_def)
      then show False using IH by (force simp: P_def)
    qed
  qed
  then show False by (simp add: P_def)
qed

text \<open>\<open>first_free_data\<close> is the index of the first data block that is not marked.\<close>

definition first_free_data :: "memory \<Rightarrow> nat option" where
  "first_free_data c = find (\<lambda>n. c (dmap_addr n) = 0) [0..<MAX_DATA]"

lemma first_free_dataD:
  assumes "first_free_data c = Some n"
  shows "is_data (1089 + n)" "\<not> marked c (1089 + n)" "n < MAX_DATA"
proof -
  have "n < MAX_DATA \<and> c (dmap_addr n) = 0"
    using find_SomeD [of _ "[0..<MAX_DATA]" n] assms unfolding first_free_data_def set_upt by auto
  then show "is_data (1089 + n)" "\<not> marked c (1089 + n)" "n < MAX_DATA" by (auto simp: is_data_def marked_def)
qed

lemma grow_dir_spec:
  assumes d: "disk_ok d" and inv: "fs_inv (content d)" and i: "i < MAX_INODES" "taken (content d) i"
    and q: "q < NUM_DIRECT_POINTERS" and inn: "inn = inode_at (content d) i"
  shows "case first_free_data (content d) of
      None \<Rightarrow> \<exists>inn'. grow_dir d junk q par inn = (d, inn', False)
    | Some n \<Rightarrow> \<exists>d'. grow_dir d junk q par inn = (d', inn\<lparr>directp := (directp inn)[q := int (1089 + n)]\<rparr>, True) \<and>
        disk_ok d' \<and> content d' = give_block i q (1089 + n) (st_ino par) (content d)"
proof (cases "first_free_data (content d)")
  case None
  then have "reserveFreeData d junk = (d, -1)"
    using reserveFreeData_spec [OF d fs_invD(1) [OF inv], of junk] by (simp add: first_free_data_def)
  then show ?thesis using None by (simp add: grow_dir_def Let_def)
next
  case (Some n)
  then obtain d1 where d1: "reserveFreeData d junk = (d1, int (1089 + n))" "disk_ok d1"
    "content d1 = (content d)(dmap_addr n := 1)"
    using reserveFreeData_spec [OF d fs_invD(1) [OF inv], of junk] by (auto simp: first_free_data_def)
  note b = first_free_dataD [OF Some]
  define d2 where "d2 = initDir d1 junk (int (1089 + n)) i (st_ino par)"
  have d2: "disk_ok d2" "content d2 = dir_content (content d1) (512 * (1089 + n)) i (st_ino par)"
    using initDir_spec [OF d1(2) is_data_block [OF b(1)], of junk i "st_ino par"] unfolding d2_def nat_int by simp_all
  have ino: "st_ino inn = i" using fs_invD(4) [OF inv i] by (simp add: inn inode_at_def inode_wf_def)
  note ib = inode_block_ok [OF i(1)]
  let ?ib = "iput (fst (block_read d2 (inode_block i) (junk 11))) (F_directp q) (inode_base i) (1089 + n)"
  let ?c = "iput (content d2) (F_directp q) (512 * nat (inode_block i) + inode_base i) (1089 + n)"
  have w: "window ?ib ?c (512 * nat (inode_block i))"
    by (intro window_intros bd.bread_window [OF d2(1) ib(2)]) (use q ib(3) in simp_all)
  have "only (512 * nat (inode_block i)) 512 (content d2) ?c"
    by (intro only_intros) (use q ib(3) in simp_all)
  then obtain d3 where d3: "block_write d2 (inode_block i) ?ib = (d3, 512)" "disk_ok d3" "content d3 = ?c"
    using bd.bstore [OF d2(1) ib(2) w] by metis
  have "?c = give_block i q (1089 + n) (st_ino par) (content d)"
    unfolding ib(4) give_block_def d2(2) d1(3) by simp
  moreover have "u32 (int (1089 + n)) = 1089 + n" using b(3) by (simp add: u32_def)
  then have "grow_dir d junk q par inn = (d3, inn\<lparr>directp := (directp inn)[q := int (1089 + n)]\<rparr>, True)"
    unfolding grow_dir_def d1(1) ino Let_def case_prod_conv d2_def [symmetric] using d3(1)
    by (simp add: case_prod_beta)
  ultimately show ?thesis using Some d3(2,3) by simp
qed

lemma updateDir_grow:
  assumes "q < NUM_DIRECT_POINTERS" "directp inn ! q = 0"
  shows "grow_dir d junk q par inn = (d1, inn1, False) \<Longrightarrow>
      updateDir_loop junk d (int q) name par inn ino buf = retn (d1, -1)"
    "grow_dir d junk q par inn = (d1, inn1, True) \<Longrightarrow> directp inn1 ! q \<noteq> 0 \<Longrightarrow>
      updateDir_loop junk d (int q) name par inn ino buf = updateDir_loop junk d1 (int q) name par inn1 ino buf"
  unfolding updateDir_loop.simps [of junk d "int q" name par inn ino buf]
    updateDir_loop.simps [of junk d1 "int q" name par inn1 ino buf]
  using assms by (simp_all add: Let_def)

text \<open>
  Where \<open>updateDir\<close> puts an entry of the directory \<open>i\<close> with index \<open>q\<close>, \<open>p\<close> its parent: the content
  with the block there, the block, and the place in it.
\<close>

definition place :: "memory \<Rightarrow> nat \<Rightarrow> nat \<Rightarrow> nat \<Rightarrow> (memory \<times> nat \<times> nat) option" where
  "place c i q p =
     (if ptr_of c i q \<noteq> 0 then map_option (\<lambda>k. (c, ptr_of c i q, k)) (free_entry c (ptr_of c i q))
      else map_option (\<lambda>n. (give_block i q (1089 + n) p c, 1089 + n, if i = p then 1 else 2)) (first_free_data c))"

lemma place_facts:
  assumes inv: "fs_inv c" and i: "i < MAX_INODES" "taken c i" and q: "q < NUM_DIRECT_POINTERS"
    and p: "p < MAX_INODES" "taken c p" and pl: "place c i q p = Some (c1, b, k)"
  shows "is_data b" "k < 16" "fs_inv c1" "ptr_of c1 i q = b" "slot c1 b k = INUM_FREE" "free_entry c1 b = Some k"
    "j < MAX_INODES \<Longrightarrow> taken c1 j = taken c j"
proof -
  show A: "is_data b" and B: "k < 16" and C: "fs_inv c1" and D: "ptr_of c1 i q = b" and F: "free_entry c1 b = Some k"
    and T: "j < MAX_INODES \<Longrightarrow> taken c1 j = taken c j"
  proof (atomize (full), goal_cases)
    case 1
    show ?case
    proof (cases "ptr_of c i q = 0")
      case False
      then have "block_wf c (ptr_of c i q)" using inode_wfD [OF fs_invD(4) [OF inv i] q] by simp
      then show ?thesis using False pl inv free_entryD by (auto simp: place_def block_wf_def)
    next
      case True
      then obtain n where n: "first_free_data c = Some n" "c1 = give_block i q (1089 + n) p c" "b = 1089 + n"
        "k = (if i = p then 1 else 2)" using pl by (auto simp: place_def)
      note nd = first_free_dataD [OF n(1)]
      note V = give_block_views [OF i(1) q nd(1) p(1), where c = c]
      have "free_entry c1 b = Some k"
      proof -
        have "free_entry c1 b = find (\<lambda>k. (if k = 0 then i else if k = 1 \<and> i \<noteq> p then p else INUM_FREE) = INUM_FREE) [0..<16]"
          unfolding free_entry_def by (rule find_cong) (use V(7) n(2,3) in \<open>auto simp del: upt_rec_numeral\<close>)
        also have "\<dots> = Some k" using i(1) p(1) n(4) by (auto simp: upt_conv_Cons)
        finally show ?thesis .
      qed
      moreover have "ptr_of c1 i q = b" using V(3) [OF i(1), of "F_directp q"] q n(2,3) by (simp add: ptr_of_def)
      ultimately show ?thesis
        using n nd(1) give_block_inv [OF inv i q True nd(1,2) p] V(1) [of j] by auto
    qed
  qed
  show "slot c1 b k = INUM_FREE" using free_entryD [OF F] by simp
qed

lemma updateDir_spec:
  assumes d: "disk_ok d" "c = content d" "fs_inv c" and i: "i < MAX_INODES" "taken c i"
    and p: "p < MAX_INODES" "taken c p" and q: "q < NUM_DIRECT_POINTERS"
    and name: "length name < MAX_FNAME" "0 \<notin> set name" and ino: "ino < MAX_INODES" "taken c ino"
  shows "case place c i q p of
      Some (c1, b, k) \<Rightarrow> \<exists>d'. updateDir d junk (int q) name (inode_at c p) (inode_at c i) ino = retn (d', 0) \<and>
        disk_ok d' \<and> content d' = write_entry b k ino name c1 \<and> fs_inv (content d')
    | None \<Rightarrow> updateDir d junk (int q) name (inode_at c p) (inode_at c i) ino =
        (if ptr_of c i q = 0 then retn (d, -1) else None)"
proof -
  have wf: "ptr_of c i q \<noteq> 0 \<Longrightarrow> block_wf c (ptr_of c i q)" using inode_wfD [OF fs_invD(4) [OF d(3) i] q] by simp
  have nth: "directp (inode_at c i) ! q = int (ptr_of c i q)"
    by (rule directp_nth [OF q]) (use wf in \<open>auto simp: block_wf_def\<close>)
  have pino: "st_ino (inode_at c p) = p" using fs_invD(4) [OF d(3) p] by (simp add: inode_at_def inode_wf_def)
  have len: "length (directp (inode_at c i)) = NUM_DIRECT_POINTERS" by (simp add: inode_at_def)
  note gs = grow_dir_spec [OF d(1) d(3) [unfolded d(2)] i [unfolded d(2)] q refl, of junk "inode_at c p"]
  show ?thesis
  proof (cases "place c i q p")
    case None
    show ?thesis
    proof (cases "ptr_of c i q = 0")
      case True
      then have "first_free_data c = None" using None by (simp add: place_def)
      then obtain inn' where "grow_dir d junk q (inode_at c p) (inode_at c i) = (d, inn', False)"
        using gs by (auto simp: d(2))
      then show ?thesis using None True updateDir_grow(1) [OF q] nth by (simp add: updateDir_def)
    next
      case False
      then show ?thesis
        using None updateDir_full [OF d(1) _ q nth] wf d(2) by (simp add: place_def updateDir_def block_wf_def)
    qed
  next
    case (Some r)
    then obtain c1 b k where pl: "place c i q p = Some (c1, b, k)" by (cases r) auto
    note f = place_facts [OF d(3) i q p pl]
    have b0: "int b \<noteq> 0" using f(1) by (simp add: is_data_def)
    obtain d1 inn1 where run: "updateDir d junk (int q) name (inode_at c p) (inode_at c i) ino =
        updateDir_loop junk d1 (int q) name (inode_at c p) inn1 ino (junk 12)"
      and d1: "disk_ok d1" "content d1 = c1" "directp inn1 ! q = int b"
    proof (cases "ptr_of c i q = 0")
      case True
      then obtain n where n: "first_free_data c = Some n" "c1 = give_block i q (1089 + n) p c" "b = 1089 + n"
        using pl by (auto simp: place_def)
      then obtain d1 where d1: "grow_dir d junk q (inode_at c p) (inode_at c i) =
          (d1, (inode_at c i)\<lparr>directp := (directp (inode_at c i))[q := int b]\<rparr>, True)" "disk_ok d1" "content d1 = c1"
        using gs pino by (auto simp: d(2))
      show thesis
        by (rule that [OF _ d1(2,3)], unfold updateDir_def, rule updateDir_grow(2) [OF q _ d1(1)])
          (use True nth q len b0 in simp_all)
    next
      case False
      then show thesis using that [of d "inode_at c i"] pl nth d by (auto simp: place_def updateDir_def)
    qed
    obtain d' where "block_write d1 (int b) (put_str (put_inum (fst (block_read d1 (int b) (junk 12))) k ino) (fname_off k) name) = (d', 512)"
      "disk_ok d'" "content d' = write_entry b k ino name (content d1)"
      using write_entry_block [OF d1(1) f(1,2) name(1)] by metis
    moreover have "fs_inv (write_entry b k ino name c1)"
      by (rule write_entry_inv [OF f(3,1,2) name ino(1)]) (use f(7) ino in simp)
    ultimately show ?thesis
      using updateDir_existing [OF d1(1) f(1) q d1(3)] f(6) name unfolding pl run by (simp add: d1(2))
  qed
qed

text \<open>A disk with a new file system.\<close>

lemma fresh_disk_ex: "\<exists>d. disk_ok d \<and> fresh_fs (content d)"
proof -
  have "disk_open new_disk 3 = retn new_disk" "disk_ok new_disk" "dlen new_disk = 0"
    by (simp_all add: disk_open_def disk_ok_def new_disk_def)
  then show ?thesis using sfs_init_fresh [of new_disk 3 new_disk] by blast
qed

lemma fresh_place:
  assumes "fresh_fs c"
  shows "place c 0 0 0 = Some (c, 1089, 1)" "ptr_of c 0 0 = 1089"
proof -
  have "free_entry c 1089 = find (\<lambda>k. (if k = 0 then 0 else INUM_FREE) = INUM_FREE) [0..<16]"
    unfolding free_entry_def by (rule find_cong) (use assms in \<open>auto simp: fresh_fs_def simp del: upt_rec_numeral\<close>)
  also have "\<dots> = Some 1" by (simp add: upt_conv_Cons)
  finally have "free_entry c 1089 = Some 1" .
  then show "place c 0 0 0 = Some (c, 1089, 1)" "ptr_of c 0 0 = 1089"
    using assms by (simp_all add: fresh_fs_def place_def)
qed

text \<open>
  C2. \<open>updateDir\<close> with an index \<open>q\<close> from 0 to 43, for a directory and its parent on a well-formed disk. If
  there is a place for the entry, in the block of that index or in a block taken for it, it
  returns 0, the entry is written there and nothing else changes but that block, and the
  disk stays well formed. If no data block is free it returns -1 and changes nothing. If
  the block is full, it never returns.
\<close>

theorem updateDir_refines:
  assumes d: "disk_ok d" "c = content d" "fs_inv c" and i: "i < MAX_INODES" "taken c i"
    and p: "p < MAX_INODES" "taken c p" and q: "q < NUM_DIRECT_POINTERS"
    and name: "length name < MAX_FNAME" "0 \<notin> set name" and ino: "ino < MAX_INODES" "taken c ino"
  shows "case place c i q p of
      Some (c1, b, k) \<Rightarrow> \<exists>d'. updateDir d junk (int q) name (inode_at c p) (inode_at c i) ino = retn (d', 0) \<and>
        disk_ok d' \<and> content d' = write_entry b k ino name c1 \<and> fs_inv (content d')
    | None \<Rightarrow> updateDir d junk (int q) name (inode_at c p) (inode_at c i) ino =
        (if ptr_of c i q = 0 then retn (d, -1) else None)"
  by (rule updateDir_spec [OF assms])

theorem updateDir_refines_witness:
  "\<exists>d d'. updateDir d (\<lambda>_ _. 0) 0 [97] (inode_at (content d) 0) (inode_at (content d) 0) 0 = retn (d', 0) \<and>
     named (content d') 1089 1 [97] \<and> fs_inv (content d')"
proof -
  obtain d where d: "disk_ok d" "fresh_fs (content d)" using fresh_disk_ex by blast
  have inv: "fs_inv (content d)" by (rule fresh_fs_inv [OF d(2)])
  obtain d' where "updateDir d (\<lambda>_ _. 0) 0 [97] (inode_at (content d) 0) (inode_at (content d) 0) 0 = retn (d', 0)"
    "content d' = write_entry 1089 1 0 [97] (content d)" "fs_inv (content d')"
    using updateDir_refines [OF d(1) refl inv, of 0 0 0 "[97]" 0 "\<lambda>_ _. 0"] fresh_place(1) [OF d(2)] fs_invD(2) [OF inv] by auto
  moreover have "named (write_entry 1089 1 0 [97] (content d)) 1089 1 [97]"
    by (rule write_entry_views(7)) (simp_all add: is_data_def)
  ultimately show ?thesis by (intro exI [of _ d] exI [of _ d']) simp
qed

text \<open>
  \<open>sfs_init\<close> on a disk file that is empty or has another magic number, whatever it and the stack hold: it
  returns, and the disk then is a well-formed file system with the root inode in use and no
  other, one data block in use, and in it the entry for the root itself and no other.
\<close>

theorem sfs_init_formats:
  assumes "disk_open d0 fd = retn d" "disk_ok d" "dlen d = 0 \<or> sb_get (content d) Magicnum \<noteq> MAGIC"
  shows "\<exists>d'. sfs_init d0 e junk fd = retn d' \<and> disk_ok d' \<and> fs_inv (content d') \<and>
    (\<forall>i<MAX_INODES. taken (content d') i \<longleftrightarrow> i = 0) \<and> (\<forall>b. is_data b \<longrightarrow> (marked (content d') b \<longleftrightarrow> b = 1089)) \<and>
    directp (inode_at (content d') 0) = 1089 # replicate 43 0 \<and>
    (\<forall>k<16. slot (content d') 1089 k = (if k = 0 then 0 else INUM_FREE)) \<and> named (content d') 1089 0 [46]"
proof -
  obtain d' where d': "sfs_init d0 e junk fd = retn d'" "disk_ok d'" "fresh_fs (content d')"
    using sfs_init_fresh [OF assms] by blast
  have "directp (inode_at (content d') 0) = 1089 # replicate 43 0"
  proof (rule nth_equalityI)
    fix q
    assume "q < length (directp (inode_at (content d') 0))"
    then have q: "q < NUM_DIRECT_POINTERS" by (simp add: inode_at_def)
    have "ptr_of (content d') 0 q = (if q = 0 then 1089 else 0)" using d'(3) q by (simp add: fresh_fs_def)
    then show "directp (inode_at (content d') 0) ! q = (1089 # replicate 43 0) ! q"
      using directp_nth [OF q, of "content d'" 0] q by (auto simp: is_data_def nth_Cons')
  qed (simp add: inode_at_def)
  then show ?thesis using d' fresh_fs_inv by (auto simp: fresh_fs_def)
qed

theorem sfs_init_formats_witness:
  "\<exists>d'. sfs_init new_disk \<lparr>euid = 0, egid = 0, now_s = 0\<rparr> (\<lambda>_ x. of_nat x) 3 = retn d' \<and> disk_ok d' \<and> fs_inv (content d')"
proof -
  have "disk_open new_disk 3 = retn new_disk" "disk_ok new_disk" "dlen new_disk = 0"
    by (simp_all add: disk_open_def disk_ok_def new_disk_def)
  then show ?thesis
    using sfs_init_formats [of new_disk 3 new_disk "\<lparr>euid = 0, egid = 0, now_s = 0\<rparr>" "\<lambda>_ x. of_nat x"] by blast
qed

text \<open>
  C19. The first data block that is free, and no other, is what \<open>reserveFreeData\<close> takes: on a formatted disk it
  returns the block number 1089 + \<open>n\<close> for the first zero byte \<open>n\<close> of the data map and sets that
  byte, so the result lies between 1089 and 31808; it returns -1 and changes nothing exactly
  when all 30720 bytes are set. The same block is not handed out again.
\<close>

theorem reserveFreeData_first:
  assumes "disk_ok d" "formatted (content d)"
  shows "case first_free_data (content d) of
      None \<Rightarrow> reserveFreeData d junk = (d, -1)
    | Some n \<Rightarrow> \<exists>d'. reserveFreeData d junk = (d', 1089 + int n) \<and> 1089 + int n \<le> 31808 \<and> disk_ok d' \<and>
        formatted (content d') \<and> content d' = (content d)(dmap_addr n := 1) \<and> first_free_data (content d') \<noteq> Some n"
proof (cases "first_free_data (content d)")
  case None
  then show ?thesis using reserveFreeData_spec [OF assms, of junk] by (simp add: first_free_data_def)
next
  case (Some n)
  then obtain d' where d': "reserveFreeData d junk = (d', 1089 + int n)" "disk_ok d'" "content d' = (content d)(dmap_addr n := 1)"
    using reserveFreeData_spec [OF assms, of junk] by (auto simp: first_free_data_def)
  have "first_free_data (content d') \<noteq> Some n"
    using first_free_dataD(2) [of "content d'" n] by (auto simp: d'(3) marked_def)
  moreover have "formatted (content d')" using assms(2) formatted_cong [of "content d'" "content d"] by (simp add: d'(3))
  ultimately show ?thesis using Some d' first_free_dataD(3) [OF Some] by simp
qed

theorem reserveFreeData_first_witness: "\<exists>d d'. reserveFreeData d (\<lambda>_ _. 7) = (d', 1090)"
proof -
  obtain d where d: "disk_ok d" "fresh_fs (content d)" using fresh_disk_ex by blast
  let ?c = "content d"
  have "marked ?c 1089" "\<not> marked ?c 1090" using d(2) by (auto simp: fresh_fs_def is_data_def)
  then have "first_free_data ?c = Some 1"
    unfolding first_free_data_def by (intro find_second) (simp_all add: marked_def)
  then show ?thesis
    using reserveFreeData_first [OF d(1), of "\<lambda>_ _. 7"] d(2) by (auto simp: fresh_fs_def)
qed

end
