(* ===== verification/FS_Paths.thy ===== *)
theory FS_Paths
  imports FS_Dirs
begin

text \<open>
  Paths: \<open>navPath\<close> refines a walk over inode numbers, and what that gives for the operations
  \<open>sfs_create\<close>, \<open>sfs_mkdir\<close>, \<open>sfs_getattr\<close> and \<open>sfs_readdir\<close>.
\<close>

section \<open>Looking up a name in a directory\<close>

definition holds :: "memory \<Rightarrow> nat \<Rightarrow> nat \<Rightarrow> cstring \<Rightarrow> bool" where
  "holds c b k name \<longleftrightarrow> slot c b k \<noteq> INUM_FREE \<and> named c b k name"

fun dir_lookup :: "memory \<Rightarrow> int list \<Rightarrow> cstring \<Rightarrow> nat option" where
  "dir_lookup c [] name = None"
| "dir_lookup c (b # bs) name =
     (if b = 0 then dir_lookup c bs name
      else case find (\<lambda>k. holds c (nat b) k name) [0..<16] of
             Some k \<Rightarrow> Some (slot c (nat b) k)
           | None \<Rightarrow> dir_lookup c bs name)"

definition lookup :: "memory \<Rightarrow> nat \<Rightarrow> cstring \<Rightarrow> nat option" where
  "lookup c i name = dir_lookup c (directp (inode_at c i)) name"

lemma entry_of_read:
  assumes "disk_ok d" "is_data b" "length name < MAX_FNAME"
  shows "entry_of (fst (block_read d (int b) m)) name = find (\<lambda>k. holds (content d) b k name) [0..<16]"
  unfolding entry_of_def
proof (rule find_cong)
  fix k :: nat
  assume "k \<in> set [0..<16]"
  then have k: "k < 16" unfolding set_upt by simp
  note w = bd.bread_window [OF assms(1) is_data_block [OF assms(2)], of m]
  show "(inum_at (fst (block_read d (int b) m)) k \<noteq> INUM_FREE \<and> str_at (fst (block_read d (int b) m)) (fname_off k) name) =
      holds (content d) b k name"
    using window_rd [OF w, of "8 * k" 8] window_str_at [OF w, of "fname_off k" name] k assms(3)
    by (simp add: holds_def inum_at_def slot_def named_def)
qed simp

lemma nav_blocks_spec:
  assumes "disk_ok d" "\<forall>b\<in>set bs. b = 0 \<or> 0 \<le> b \<and> is_data (nat b)" "length name < MAX_FNAME"
  shows "snd (nav_blocks d bs m name) = dir_lookup (content d) bs name"
  using assms(2)
proof (induction bs arbitrary: m)
  case (Cons b bs)
  show ?case
  proof (cases "b = 0")
    case False
    then have b: "is_data (nat b)" "int (nat b) = b" using Cons.prems by auto
    have e: "entry_of (fst (block_read d b m)) name = find (\<lambda>k. holds (content d) (nat b) k name) [0..<16]"
      using entry_of_read [OF assms(1) b(1) assms(3), of m] b(2) by simp
    have v: "inum_at (fst (block_read d b m)) k = slot (content d) (nat b) k" if "k < 16" for k
      using window_rd [OF bd.bread_window [OF assms(1) is_data_block [OF b(1)], of m], of "8 * k" 8] that b(2)
      by (simp add: inum_at_def slot_def)
    show ?thesis
    proof (cases "find (\<lambda>k. holds (content d) (nat b) k name) [0..<16]")
      case None
      then show ?thesis using Cons e False by (simp add: case_prod_beta)
    next
      case (Some k)
      then have "k < 16" using find_SomeD [OF Some] unfolding set_upt by simp
      then show ?thesis using Some e v False by (simp add: case_prod_beta)
    qed
  qed (use Cons in simp)
qed simp

lemma dir_blocks:
  assumes "fs_inv c" "i < MAX_INODES" "taken c i"
  shows "directp (inode_at c i) = map (\<lambda>q. int (ptr_of c i q)) [0..<NUM_DIRECT_POINTERS]"
    "\<forall>b\<in>set (directp (inode_at c i)). b = 0 \<or> 0 \<le> b \<and> is_data (nat b)"
proof -
  have p: "ptr_of c i q = 0 \<or> is_data (ptr_of c i q)" if "q < NUM_DIRECT_POINTERS" for q
    using inode_wfD [OF fs_invD(4) [OF assms] that] by (auto simp: block_wf_def)
  show d: "directp (inode_at c i) = map (\<lambda>q. int (ptr_of c i q)) [0..<NUM_DIRECT_POINTERS]"
    by (rule nth_equalityI) (use directp_nth p in \<open>auto simp: inode_at_def\<close>)
  show "\<forall>b\<in>set (directp (inode_at c i)). b = 0 \<or> 0 \<le> b \<and> is_data (nat b)"
    unfolding d set_map set_upt using p by auto
qed

lemma dir_lookup_None:
  "dir_lookup c bs name = None \<longleftrightarrow> (\<forall>b\<in>set bs. b \<noteq> 0 \<longrightarrow> (\<forall>k<16. \<not> holds c (nat b) k name))"
proof (induction bs)
  case (Cons b bs)
  have "find (\<lambda>k. holds c (nat b) k name) [0..<16] = None \<longleftrightarrow> (\<forall>k<16. \<not> holds c (nat b) k name)"
    unfolding find_None_iff set_upt by auto
  then show ?case using Cons by (auto split: option.split simp del: upt_rec_numeral)
qed simp

lemma dir_lookup_all:
  assumes "\<exists>b\<in>set bs. b \<noteq> 0 \<and> (\<exists>k<16. holds c (nat b) k name)"
    and "\<forall>b\<in>set bs. b \<noteq> 0 \<longrightarrow> (\<forall>k<16. holds c (nat b) k name \<longrightarrow> slot c (nat b) k = v)"
  shows "dir_lookup c bs name = Some v"
  using assms
proof (induction bs)
  case (Cons b bs)
  have f: "find (\<lambda>k. holds c (nat b) k name) [0..<16] = None \<longleftrightarrow> (\<forall>k<16. \<not> holds c (nat b) k name)"
    unfolding find_None_iff set_upt by auto
  show ?case
  proof (cases "b \<noteq> 0 \<and> (\<exists>k<16. holds c (nat b) k name)")
    case True
    then obtain k where k: "find (\<lambda>k. holds c (nat b) k name) [0..<16] = Some k" using f by blast
    then have "k < 16 \<and> holds c (nat b) k name" using find_SomeD [OF k] unfolding set_upt by simp
    then show ?thesis using k True Cons.prems(2) by simp
  next
    case False
    then have "find (\<lambda>k. holds c (nat b) k name) [0..<16] = None" if "b \<noteq> 0" using f that by blast
    then show ?thesis using Cons False by auto
  qed
qed simp

lemma lookup_None:
  assumes "fs_inv c" "i < MAX_INODES" "taken c i"
  shows "lookup c i name = None \<longleftrightarrow>
    (\<forall>q<NUM_DIRECT_POINTERS. ptr_of c i q \<noteq> 0 \<longrightarrow> (\<forall>k<16. \<not> holds c (ptr_of c i q) k name))"
  unfolding lookup_def dir_lookup_None dir_blocks(1) [OF assms] set_map set_upt by auto

lemma lookup_all:
  assumes "fs_inv c" "i < MAX_INODES" "taken c i" "q < NUM_DIRECT_POINTERS" "ptr_of c i q \<noteq> 0" "k < 16"
    "holds c (ptr_of c i q) k name"
    and "\<And>q k. q < NUM_DIRECT_POINTERS \<Longrightarrow> ptr_of c i q \<noteq> 0 \<Longrightarrow> k < 16 \<Longrightarrow> holds c (ptr_of c i q) k name \<Longrightarrow>
      slot c (ptr_of c i q) k = v"
  shows "lookup c i name = Some v"
  unfolding lookup_def dir_blocks(1) [OF assms(1-3)]
  by (rule dir_lookup_all) (unfold set_map set_upt, use assms(4-8) in auto)

lemma lookup_taken:
  assumes "fs_inv c" "i < MAX_INODES" "taken c i" "lookup c i name = Some j"
  shows "j < MAX_INODES" "taken c j"
proof -
  have "\<exists>b\<in>set bs. b \<noteq> 0 \<and> (\<exists>k<16. holds c (nat b) k name \<and> j = slot c (nat b) k)"
    if "dir_lookup c bs name = Some j" for bs
    using that
  proof (induction bs)
    case (Cons b bs)
    show ?case
    proof (cases "b \<noteq> 0 \<and> find (\<lambda>k. holds c (nat b) k name) [0..<16] \<noteq> None")
      case True
      then obtain k where k: "find (\<lambda>k. holds c (nat b) k name) [0..<16] = Some k" by blast
      then have "k < 16 \<and> holds c (nat b) k name" using find_SomeD [OF k] unfolding set_upt by simp
      then show ?thesis using k True Cons.prems by auto
    next
      case False
      then show ?thesis using Cons by (auto split: if_splits)
    qed
  qed simp
  from this [of "directp (inode_at c i)"] obtain b k where
    bk: "b \<in> set (directp (inode_at c i))" "b \<noteq> 0" "k < 16" "holds c (nat b) k name" "j = slot c (nat b) k"
    using assms(4) by (auto simp: lookup_def)
  then obtain q where q: "q < NUM_DIRECT_POINTERS" "b = int (ptr_of c i q)"
    unfolding dir_blocks(1) [OF assms(1-3)] set_map set_upt by auto
  then have "block_wf c (nat b)" using inode_wfD [OF fs_invD(4) [OF assms(1-3)] q(1)] bk(2) by simp
  then have "entry_wf c j" using bk(3,5) by (simp add: block_wf_def)
  then show "j < MAX_INODES" "taken c j" using bk(4,5) by (auto simp: entry_wf_def holds_def)
qed

section \<open>Walking a path\<close>

text \<open>The names of a path behind its first slash; a slash at the end is dropped.\<close>

function comps :: "cstring \<Rightarrow> cstring list" where
  "comps rest =
     (let name = takeWhile (\<lambda>c. c \<noteq> SLASH) rest; rest' = drop (length name + 1) rest
      in if length name = length rest \<or> rest' = [] \<or> rest' = [SLASH] then [name] else name # comps rest')"
  by pat_completeness auto
termination by (relation "measure length") auto

declare comps.simps [simp del]

text \<open>
  A walk from the inode \<open>i\<close>: the return value and the numbers of the last directory and of the
  inode found. A name that is missing on the way is passed over.
\<close>

fun walk :: "memory \<Rightarrow> nat \<Rightarrow> cstring list \<Rightarrow> int \<times> nat \<times> nat" where
  "walk c i [] = (-1, i, i)"
| "walk c i [n] = (case lookup c i n of None \<Rightarrow> (-1, i, i) | Some j \<Rightarrow> (0, i, j))"
| "walk c i (n # m # ns) = walk c (case lookup c i n of None \<Rightarrow> i | Some j \<Rightarrow> j) (m # ns)"

lemma walk_taken:
  assumes "fs_inv c" "i < MAX_INODES" "taken c i" "walk c i ns = (r, p, t)"
  shows "p < MAX_INODES \<and> taken c p \<and> t < MAX_INODES \<and> taken c t"
  using assms(2-4)
proof (induction ns arbitrary: i)
  case Nil
  then show ?case by auto
next
  case (Cons n ns)
  define j where "j = (case lookup c i n of None \<Rightarrow> i | Some j \<Rightarrow> j)"
  have j: "j < MAX_INODES" "taken c j"
    using lookup_taken [OF assms(1) Cons.prems(1,2), of n] Cons.prems(1,2) by (auto simp: j_def split: option.split)
  show ?case
  proof (cases ns)
    case Nil
    then have "p = i" "t = j" using Cons.prems(3) by (auto simp: j_def split: option.splits)
    then show ?thesis using Cons.prems(1,2) j by simp
  next
    case (Cons m ms)
    then have "walk c j ns = (r, p, t)" using Cons.prems(3) by (simp add: j_def)
    then show ?thesis using Cons.IH [OF j] by simp
  qed
qed

lemma comps_not_Nil [simp]: "comps rest \<noteq> []"
  by (subst comps.simps) (simp add: Let_def)

lemma comps_length: "length (comps rest) \<le> Suc (length rest)"
proof (induction rest rule: comps.induct)
  case (1 rest)
  let ?n = "takeWhile (\<lambda>c. c \<noteq> SLASH) rest"
  let ?r = "drop (length ?n + 1) rest"
  show ?case
  proof (cases "length ?n = length rest \<or> ?r = [] \<or> ?r = [SLASH]")
    case True
    then show ?thesis by (subst comps.simps) (simp add: Let_def)
  next
    case False
    have "length (comps ?r) \<le> Suc (length ?r)" by (rule 1 [OF refl refl False])
    moreover have "length ?r < length rest" using False by (cases rest) auto
    moreover have "comps rest = ?n # comps ?r" using False by (subst comps.simps) (simp only: Let_def if_False)
    ultimately show ?thesis by simp
  qed
qed

lemma load_found:
  assumes "disk_ok d" "j < MAX_INODES"
  shows "load_inode (fst (block_read d (s32 (j div 2 + u64 65)) tb)) (inode_base j) = inode_at (content d) j"
proof -
  note ib = inode_block_ok [OF assms(2)]
  have "s32 (j div 2 + u64 65) = inode_block j" by (simp add: inode_block_def u64_def add.commute)
  then show ?thesis
    using window_load_inode [OF bd.bread_window [OF assms(1) ib(2)] ib(3), of tb] ib(4) by (simp add: inode_at_def)
qed

lemma nav_loop_spec:
  assumes d: "disk_ok d" "fs_inv (content d)"
  shows "\<lbrakk>i < MAX_INODES; taken (content d) i; \<forall>n\<in>set (comps rest). length n < MAX_FNAME;
      fc + length (comps rest) \<le> 10000\<rbrakk> \<Longrightarrow>
    nav_loop d 65 out (inode_at (content d) i) tb m rest fc =
    (case walk (content d) i (comps rest) of (r, p, t) \<Rightarrow> retn (r, inode_at (content d) p, inode_at (content d) t))"
proof (induction rest arbitrary: i tb m fc rule: comps.induct)
  case (1 rest)
  define name where "name = takeWhile (\<lambda>c. c \<noteq> SLASH) rest"
  define rest' where "rest' = drop (length name + 1) rest"
  define last' where "last' = (length name = length rest \<or> rest' = [] \<or> rest' = [SLASH])"
  let ?c = "content d"
  have cs: "comps rest = (if last' then [name] else name # comps rest')"
    by (subst comps.simps) (simp add: Let_def name_def rest'_def last'_def)
  have len: "length name < MAX_FNAME" "\<not> fc + 1 > 10000" using 1(4,5) cs by (auto split: if_splits)
  obtain m1 found where nb: "nav_blocks d (directp (inode_at ?c i)) m name = (m1, found)" by fastforce
  have found: "found = lookup ?c i name"
    using nav_blocks_spec [OF d(1) dir_blocks(2) [OF d(2) 1(2,3)] len(1), of m] nb by (simp add: lookup_def)
  define j where "j = (case found of None \<Rightarrow> i | Some j \<Rightarrow> j)"
  have j: "j < MAX_INODES" "taken ?c j"
    using lookup_taken [OF d(2) 1(2,3)] 1(2,3) found by (auto simp: j_def split: option.split)
  define tb' where "tb' = (case found of None \<Rightarrow> tb | Some j \<Rightarrow> fst (block_read d (s32 (j div 2 + u64 65)) tb))"
  have t': "(case found of None \<Rightarrow> (inode_at ?c i, tb)
      | Some inum \<Rightarrow> let (tb, r) = block_read d (s32 (inum div 2 + u64 65)) tb in (load_inode tb (inode_base inum), tb)) =
      (inode_at ?c j, tb')"
    using load_found [OF d(1)] j(1) by (auto simp: j_def tb'_def case_prod_beta split: option.split)
  have step: "nav_loop d 65 out (inode_at ?c i) tb m rest fc =
      (if last' then retn (if found \<noteq> None then 0 else -1, inode_at ?c i, inode_at ?c j)
       else nav_loop d 65 out (inode_at ?c j) tb' m1 rest' (fc + 1))"
    using len by (subst nav_loop.simps)
      (simp add: Let_def name_def [symmetric] rest'_def [symmetric, unfolded Suc_eq_plus1] last'_def nb t' del: One_nat_def)
  show ?case
  proof (cases last')
    case True
    then show ?thesis unfolding step cs using found by (auto simp: j_def split: option.split)
  next
    case False
    have ih: "nav_loop d 65 out (inode_at ?c j) tb' m1 rest' (fc + 1) =
      (case walk ?c j (comps rest') of (r, p, t) \<Rightarrow> retn (r, inode_at ?c p, inode_at ?c t))"
      by (rule 1(1) [OF name_def rest'_def]) (use False 1(4,5) cs j in \<open>auto simp: last'_def\<close>)
    obtain n ns where "comps rest' = n # ns" by (cases "comps rest'") auto
    then show ?thesis unfolding step cs using False ih found by (simp add: j_def)
  qed
qed

text \<open>The names a path goes through, none for the root.\<close>

definition path_names :: "cstring \<Rightarrow> cstring list" where
  "path_names path = (if length path \<le> 1 then [] else comps (drop 1 path))"

definition resolve :: "memory \<Rightarrow> cstring \<Rightarrow> int \<times> nat \<times> nat" where
  "resolve c path = (if length path \<le> 1 then (0, 0, 0) else walk c 0 (comps (drop 1 path)))"

lemma navPath_spec:
  assumes d: "disk_ok d" "fs_inv (content d)"
    and path: "\<forall>n\<in>set (path_names path). length n < MAX_FNAME" "length (path_names path) \<le> 10000"
  shows "navPath d junk out path =
    (case resolve (content d) path of (r, p, t) \<Rightarrow> retn (r, inode_at (content d) p, inode_at (content d) t))"
proof -
  let ?c = "content d"
  have s: "sb_get (fst (block_read d 0 (junk 7))) IList = 65"
    using sb_read [OF d(1)] fs_invD(1) [OF d(2)] by (simp add: formatted_def)
  have root: "load_inode (fst (block_read d 65 b)) 0 = inode_at ?c 0" for b
    using window_load_inode [OF bd.bread_window [OF d(1), of 65 b], of 0] by (simp add: inode_at_def)
  show ?thesis
  proof (cases "length path \<le> 1")
    case True
    then show ?thesis by (simp add: navPath_def case_prod_beta s root resolve_def)
  next
    case False
    have "nav_loop d 65 out (inode_at ?c 0) (fst (block_read d 65 (junk 9))) (junk 10) (drop 1 path) 0 =
        (case walk ?c 0 (comps (drop 1 path)) of (r, p, t) \<Rightarrow> retn (r, inode_at ?c p, inode_at ?c t))"
      by (rule nav_loop_spec [OF d]) (use path False fs_invD(2) [OF d(2)] in \<open>simp_all add: path_names_def\<close>)
    then show ?thesis using False by (simp add: navPath_def case_prod_beta s root resolve_def)
  qed
qed

lemma resolve_taken:
  assumes "fs_inv c" "resolve c path = (r, p, t)"
  shows "p < MAX_INODES" "taken c p" "t < MAX_INODES" "taken c t"
  using walk_taken [OF assms(1) _ fs_invD(2) [OF assms(1)], of "comps (drop 1 path)" r p t] assms(2) fs_invD(2) [OF assms(1)]
  by (auto simp: resolve_def split: if_splits)

text \<open>
  How the walk ends on any disk: a name among those it gets to that does not fit the name buffer overruns it, otherwise it
  returns, with -1 when the counter runs out first.
\<close>

lemma nav_loop_result:
  "if \<exists>n\<in>set (take (10000 - fc) (comps rest)). MAX_FNAME \<le> length n then nav_loop d iList out t tb m rest fc = fail OutOfBounds
   else \<exists>r p. nav_loop d iList out t tb m rest fc = retn (r, p) \<and> (r = 0 \<or> r = - 1) \<and> (10000 < fc + length (comps rest) \<longrightarrow> r = - 1)"
proof (induction rest arbitrary: t tb m fc rule: comps.induct)
  case (1 rest)
  define name where "name = takeWhile (\<lambda>c. c \<noteq> SLASH) rest"
  define rest' where "rest' = drop (length name + 1) rest"
  define last' where "last' = (length name = length rest \<or> rest' = [] \<or> rest' = [SLASH])"
  have cs: "comps rest = (if last' then [name] else name # comps rest')"
    by (subst comps.simps) (simp add: Let_def name_def rest'_def last'_def)
  obtain m' found where nb: "nav_blocks d (directp t) m name = (m', found)" by fastforce
  obtain t' tb' where t': "(case found of None \<Rightarrow> (t, tb)
      | Some inum \<Rightarrow> let (tb, r) = block_read d (s32 (inum div 2 + u64 iList)) tb in (load_inode tb (inode_base inum), tb)) = (t', tb')"
    by fastforce
  have step: "nav_loop d iList out t tb m rest fc =
      (if fc + 1 > 10000 then retn (- 1, out) else if length name \<ge> MAX_FNAME then fail OutOfBounds
       else if last' then retn (if found \<noteq> None then 0 else - 1, t, t') else nav_loop d iList out t' tb' m' rest' (fc + 1))"
    by (subst nav_loop.simps)
      (simp add: Let_def name_def [symmetric] rest'_def [symmetric, unfolded Suc_eq_plus1] last'_def nb t' del: One_nat_def)
  show ?case
  proof (cases "fc < 10000 \<and> length name < MAX_FNAME \<and> \<not> last'")
    case True
    then have "take (10000 - fc) (comps rest) = name # take (10000 - (fc + 1)) (comps rest')"
      using cs by (simp add: take_Cons' )
    moreover note 1 [OF name_def rest'_def, of "fc + 1" t' tb' m']
    ultimately show ?thesis using True cs step by (auto simp: last'_def split: if_splits)
  next
    case False
    then show ?thesis using cs step by (auto simp: take_Cons')
  qed
qed

lemma navPath_result:
  shows "\<exists>n\<in>set (take 10000 (path_names path)). MAX_FNAME \<le> length n \<Longrightarrow> navPath d junk out path = fail OutOfBounds"
    and "\<not> (\<exists>n\<in>set (take 10000 (path_names path)). MAX_FNAME \<le> length n) \<Longrightarrow>
      \<exists>r p. navPath d junk out path = retn (r, p) \<and> (r = 0 \<or> r = - 1) \<and> (10000 < length (path_names path) \<longrightarrow> r = - 1)"
  using nav_loop_result [of 0 "drop 1 path"]
  by (auto simp: path_names_def navPath_def case_prod_beta split: if_splits)

lemma navPath_long:
  assumes "\<exists>n\<in>set (path_names path). length n \<ge> MAX_FNAME" "length (path_names path) \<le> 10000"
  shows "navPath d junk out path = fail OutOfBounds"
  using assms by (intro navPath_result(1)) simp

end
