(* ===== verification/FS_Ops.thy ===== *)
theory FS_Ops
  imports FS_Paths
begin

text \<open>
  The operations of the file system: creating an entry keeps the disk well formed and the entry
  is found afterwards, a directory lists its entries, and where the code goes wrong, a path
  with a missing directory, a full directory and long names.
\<close>

section \<open>Creating an entry\<close>

definition first_free_inode :: "memory \<Rightarrow> nat option" where
  "first_free_inode c = find (\<lambda>n. c (imap_addr n) = 0) [0..<MAX_INODES]"

lemma first_free_inodeD:
  assumes "first_free_inode c = Some n"
  shows "n < MAX_INODES" "\<not> taken c n"
  using find_SomeD [of _ "[0..<MAX_INODES]" n] assms unfolding first_free_inode_def set_upt taken_def by auto

lemma take_inode_at:
  assumes "n < MAX_INODES" "i < MAX_INODES" "i \<noteq> n"
  shows "inode_at (take_inode e type n c) i = inode_at c i"
  unfolding inode_at_def
proof (rule load_inode_cong)
  fix x :: nat
  assume "x < 256"
  moreover have "i < n \<or> n < i" using assms(3) by arith
  ultimately have "iaddr i + x < iaddr n \<or> iaddr n + 256 \<le> iaddr i + x" by auto
  then show "take_inode e type n c (iaddr i + x) = c (iaddr i + x)" using take_inode_apply [OF assms(1)] assms(1) by simp
qed

text \<open>The path up to its last slash, as \<open>sfs_create\<close> computes it.\<close>

lemma parent_path:
  assumes "SLASH \<notin> set name"
  shows "rev (drop 1 (dropWhile (\<lambda>c. c \<noteq> SLASH) (rev (dir @ SLASH # name)))) = dir"
proof -
  have "dropWhile (\<lambda>c. c \<noteq> SLASH) (rev name @ SLASH # rev dir) = SLASH # rev dir"
    using assms by (subst dropWhile_append2) auto
  then show ?thesis by simp
qed

lemma add_entry_body:
  assumes "path = dir @ SLASH # name" "SLASH \<notin> set name" "length path < 255"
  shows "add_entry type d e junk i0 out path = bindR (navPath d junk out dir) (\<lambda>(r, par, targ).
      if r = -1 then retn (d, -1)
      else let (d1, inum) = reserveFreeInode d e junk type in
        if inum = 0 then retn (d1, -1)
        else if length name \<ge> MAX_FNAME then fail OutOfBounds
        else bindR (updateDir d1 junk i0 name par targ inum) (\<lambda>(d2, u). retn (d2, if u = -1 then -1 else 0)))"
  using assms parent_path [OF assms(2), of dir] by (simp add: add_entry_def Let_def case_prod_beta cong: if_cong)

lemma add_entry_spec:
  assumes d: "disk_ok d" "c = content d" "fs_inv c"
    and path: "path = dir @ SLASH # name" "SLASH \<notin> set name" "length path < 255" "length name < MAX_FNAME" "0 \<notin> set name"
    and dir: "\<forall>n\<in>set (path_names dir). length n < MAX_FNAME" "resolve c dir = (0, p, i)"
    and q: "q < NUM_DIRECT_POINTERS" and n: "first_free_inode c = Some n" "n \<noteq> 0" and c': "c' = take_inode e type n c"
  shows "case place c' i q p of
      Some (c1, b, k) \<Rightarrow> \<exists>d'. add_entry type d e junk (int q) out path = retn (d', 0) \<and> disk_ok d' \<and>
        content d' = write_entry b k n name c1 \<and> fs_inv (content d')
    | None \<Rightarrow> (if ptr_of c' i q = 0 then \<exists>d'. add_entry type d e junk (int q) out path = retn (d', -1) \<and> content d' = c'
        else add_entry type d e junk (int q) out path = None)"
proof -
  have names: "length (path_names dir) \<le> 10000"
    using comps_length [of "drop 1 dir"] path(1,3) by (auto simp: path_names_def)
  have nav: "navPath d junk out dir = retn (0, inode_at c p, inode_at c i)"
    using navPath_spec [OF d(1) d(3) [unfolded d(2)] dir(1) names] dir(2) d(2) by simp
  note t = resolve_taken [OF d(3) dir(2)] and nn = first_free_inodeD [OF n(1)]
  have ne: "i \<noteq> n" "p \<noteq> n" using t nn by auto
  note V = take_inode_views [OF nn(1), where e = e and type = type and c = c]
  have inv': "fs_inv c'" unfolding c' by (rule take_inode_inv [OF d(3) nn])
  have at: "inode_at c' p = inode_at c p" "inode_at c' i = inode_at c i"
    using take_inode_at [OF nn(1)] t ne by (simp_all add: c')
  obtain d1 where d1: "reserveFreeInode d e junk type = (d1, n)" "disk_ok d1" "content d1 = c'"
    using reserveFreeInode_spec [OF d(1) fs_invD(1) [OF d(3) [unfolded d(2)]], of e junk type] n(1)
    by (auto simp: first_free_inode_def d(2) [symmetric] c' take_inode_def)
  have run: "add_entry type d e junk (int q) out path =
      bindR (updateDir d1 junk (int q) name (inode_at c' p) (inode_at c' i) n) (\<lambda>(d2, u). retn (d2, if u = -1 then -1 else 0))"
    using add_entry_body [OF path(1-3), of type d e junk "int q" out] path(4) n(2) nav d1(1) by (simp add: at)
  have tk: "taken c' i" "taken c' p" "taken c' n" using V(1) t nn by (auto simp: c')
  have "case place c' i q p of
      Some (c1, b, k) \<Rightarrow> \<exists>d'. updateDir d1 junk (int q) name (inode_at c' p) (inode_at c' i) n = retn (d', 0) \<and>
        disk_ok d' \<and> content d' = write_entry b k n name c1 \<and> fs_inv (content d')
    | None \<Rightarrow> updateDir d1 junk (int q) name (inode_at c' p) (inode_at c' i) n =
        (if ptr_of c' i q = 0 then retn (d1, -1) else None)"
    by (rule updateDir_spec [OF d1(2) d1(3) [symmetric] inv' t(3) tk(1) t(1) tk(2) q path(4,5) nn(1) tk(3)])
  then show ?thesis unfolding run using d1(3) by (auto split: option.splits prod.splits)
qed

text \<open>After the entry is written the name is found, if it was not there before.\<close>

lemma take_inode_lookup:
  assumes "fs_inv c" "n < MAX_INODES" "\<not> taken c n" "i < MAX_INODES" "taken c i" "lookup c i name = None"
    and "q < NUM_DIRECT_POINTERS" "ptr_of (take_inode e type n c) i q \<noteq> 0" "k < 16"
  shows "\<not> holds (take_inode e type n c) (ptr_of (take_inode e type n c) i q) k name"
proof -
  have "i \<noteq> n" using assms(3,5) by blast
  then have p: "ptr_of (take_inode e type n c) i q = ptr_of c i q"
    using take_inode_views(3) [OF assms(2,4), of "F_directp q"] assms(7) by (simp add: ptr_of_def)
  then have "1089 \<le> ptr_of c i q"
    using inode_wfD [OF fs_invD(4) [OF assms(1,4,5)] assms(7)] assms(8) by (simp add: block_wf_def is_data_def)
  then show ?thesis
    using lookup_None [OF assms(1,4,5)] assms(6-9) take_inode_views(5,6) [OF assms(2)] unfolding p holds_def by simp
qed

lemma entry_found:
  assumes inv: "fs_inv c" and i: "i < MAX_INODES" "taken c i" and p: "p < MAX_INODES" "taken c p"
    and q: "q < NUM_DIRECT_POINTERS" and pl: "place c i q p = Some (c1, b, k)"
    and name: "length name < MAX_FNAME" "0 \<notin> set name" "name \<noteq> [46]" "name \<noteq> [46, 46]"
    and none: "\<And>q k. q < NUM_DIRECT_POINTERS \<Longrightarrow> ptr_of c i q \<noteq> 0 \<Longrightarrow> k < 16 \<Longrightarrow> \<not> holds c (ptr_of c i q) k name"
    and n: "n < MAX_INODES" "taken c n"
  shows "lookup (write_entry b k n name c1) i name = Some n"
proof -
  let ?c = "write_entry b k n name c1"
  note f = place_facts [OF inv i q p pl]
  have n64: "n < 2 ^ 64" "n \<noteq> INUM_FREE" using n(1) by auto
  note V = write_entry_views [OF f(1,2) name(1) n64(1), where c = c1]
  have inv': "fs_inv ?c" by (rule write_entry_inv [OF f(3,1,2) name(1,2) n(1)]) (use f(7) n in simp)
  have P: "ptr_of ?c i q = ptr_of c1 i q" if "q < NUM_DIRECT_POINTERS" for q
    using V(3) [OF i(1), of "F_directp q"] that by (simp add: ptr_of_def)
  have new: "holds ?c b k name" using V(5) [OF f(2), of b] V(7) n64(2) by (simp add: holds_def)
  have old: "\<not> holds c1 (ptr_of c1 i q') k' name"
    if q': "q' < NUM_DIRECT_POINTERS" "ptr_of c1 i q' \<noteq> 0" "k' < 16" "ptr_of c1 i q' \<noteq> b \<or> k' \<noteq> k" for q' k'
  proof (cases "ptr_of c i q = 0")
    case False
    then have "c1 = c" using pl by (auto simp: place_def)
    then show ?thesis using none q'(1-3) by simp
  next
    case True
    then obtain m where m: "first_free_data c = Some m" "c1 = give_block i q (1089 + m) p c" "b = 1089 + m"
      "k = (if i = p then 1 else 2)" using pl by (auto simp: place_def)
    note G = give_block_views [OF i(1) q first_free_dataD(1) [OF m(1)] p(1), where c = c]
    have pq: "ptr_of c1 i q' = (if q' = q then b else ptr_of c i q')"
      using G(3) [OF i(1), of "F_directp q'"] q'(1) m(2,3) by (simp add: ptr_of_def)
    show ?thesis
    proof (cases "ptr_of c1 i q' = b")
      case False
      then have "q' \<noteq> q" using pq by auto
      then have w: "block_wf c (ptr_of c i q')" "ptr_of c1 i q' = ptr_of c i q'"
        using inode_wfD [OF fs_invD(4) [OF inv i] q'(1)] q'(2) pq by simp_all
      then show ?thesis
        using none [OF q'(1) _ q'(3)] q'(2,3) G(5,6) False name(1) m(2,3) by (simp add: holds_def block_wf_def)
    next
      case True
      have nm: "named c1 b 0 [46]" "i \<noteq> p \<Longrightarrow> named c1 b 1 [46, 46]"
        using give_block_names [OF i(1) q first_free_dataD(1) [OF m(1)], of p c] by (simp_all add: m(2,3))
      have "\<not> named c1 b 0 name" "i \<noteq> p \<Longrightarrow> \<not> named c1 b 1 name"
        using nm name(2-4) str_at_det by (auto simp: named_def)
      then show ?thesis
        using G(7) [OF q'(3)] q'(4) True m(2-4) by (auto simp: holds_def split: if_splits)
    qed
  qed
  have other: "slot ?c (ptr_of ?c i q') k' = n"
    if q': "q' < NUM_DIRECT_POINTERS" "ptr_of ?c i q' \<noteq> 0" "k' < 16" "holds ?c (ptr_of ?c i q') k' name" for q' k'
  proof (rule ccontr)
    assume *: "slot ?c (ptr_of ?c i q') k' \<noteq> n"
    then have "ptr_of c1 i q' \<noteq> b \<or> k' \<noteq> k" using V(5) [OF q'(3)] P q'(1) by auto
    then show False using old [OF q'(1) _ q'(3)] q'(2,4) V(5,6) [OF q'(3)] name(1) P [OF q'(1)] by (auto simp: holds_def)
  qed
  have b0: "b \<noteq> 0" using f(1) by (auto simp: is_data_def)
  have "taken ?c i" using V(1) [OF i(1)] f(7) [OF i(1)] i(2) by simp
  then show ?thesis
    using new other P [OF q] f(2,4) b0 by (intro lookup_all [OF inv' i(1) _ q, of k]) auto
qed

section \<open>The invariant of a mounted file system\<close>

lemma updateDir_other:
  "i0 < 0 \<Longrightarrow> updateDir d junk i0 name par inn ino = fail OutOfBounds"
  "i0 \<ge> int NUM_DIRECT_POINTERS \<Longrightarrow> updateDir d junk i0 name par inn ino = retn (d, -1)"
  unfolding updateDir_def by (subst updateDir_loop.simps, simp)+

lemma path_split:
  assumes "SLASH \<in> set path"
  obtains dir name where "path = dir @ SLASH # name" "SLASH \<notin> set name"
  using split_list_last [OF assms] by blast

lemma add_entry_keeps:
  assumes d: "disk_ok d" "fs_inv (content d)" and path: "0 \<notin> set path"
    and run: "add_entry type d e junk i0 out path = retn (d', r)"
  shows "disk_ok d' \<and> fs_inv (content d')"
proof (cases "length path \<ge> 255 \<or> SLASH \<notin> set path")
  case True
  then have "add_entry type d e junk i0 out path = retn (d, -1)"
    unfolding add_entry_def by (cases "length path \<ge> 255") (simp_all only: if_True if_False simp_thms)
  then show ?thesis using run d by simp
next
  case False
  then obtain dir name where p: "path = dir @ SLASH # name" "SLASH \<notin> set name" "length path < 255"
    using path_split [of path] by (metis not_le)
  have len: "length (path_names dir) \<le> 10000"
    using comps_length [of "drop 1 dir"] p(1) False by (auto simp: path_names_def)
  let ?c = "content d"
  note body = add_entry_body [OF p, of type d e junk i0 out]
  have short: "\<forall>n\<in>set (path_names dir). length n < MAX_FNAME"
    using navPath_long [OF _ len, of d junk out] run body by (force simp: not_less [symmetric])
  obtain nr np nt where res: "resolve ?c dir = (nr, np, nt)" by (cases "resolve ?c dir") auto
  note t = resolve_taken [OF d(2) res]
  have nav: "navPath d junk out dir = retn (nr, inode_at ?c np, inode_at ?c nt)"
    using navPath_spec [OF d short len] res by simp
  show ?thesis
  proof (cases "nr = -1 \<or> first_free_inode ?c = None")
    case True
    then have "add_entry type d e junk i0 out path = retn (d, -1)"
      using body nav reserveFreeInode_spec [OF d(1) fs_invD(1) [OF d(2)], of e junk type]
      by (auto simp: first_free_inode_def)
    then show ?thesis using run d by simp
  next
    case False
    then obtain n where n: "first_free_inode ?c = Some n" by blast
    note nn = first_free_inodeD [OF n]
    have n0: "n \<noteq> 0" using nn(2) fs_invD(2) [OF d(2)] by metis
    have ne: "np \<noteq> n" "nt \<noteq> n" using t nn by auto
    let ?c' = "take_inode e type n ?c"
    obtain d1 where d1: "reserveFreeInode d e junk type = (d1, n)" "disk_ok d1" "content d1 = ?c'"
      using reserveFreeInode_spec [OF d(1) fs_invD(1) [OF d(2)], of e junk type] n
      by (auto simp: first_free_inode_def take_inode_def)
    have inv': "fs_inv ?c'" by (rule take_inode_inv [OF d(2) nn])
    have at: "inode_at ?c' np = inode_at ?c np" "inode_at ?c' nt = inode_at ?c nt"
      using take_inode_at [OF nn(1)] t ne by simp_all
    have tk: "taken ?c' nt" "taken ?c' np" "taken ?c' n" using take_inode_views(1) [OF nn(1)] t nn by auto
    have b2: "add_entry type d e junk i0 out path = (if length name \<ge> MAX_FNAME then fail OutOfBounds
        else bindR (updateDir d1 junk i0 name (inode_at ?c' np) (inode_at ?c' nt) n) (\<lambda>(d2, u). retn (d2, if u = -1 then -1 else 0)))"
      using body nav d1(1) n0 False by (simp add: at)
    then have ln: "length name < MAX_FNAME" and z: "0 \<notin> set name" using run p path by (auto split: if_splits)
    consider "i0 < 0" | "i0 \<ge> int NUM_DIRECT_POINTERS" | q where "i0 = int q" "q < NUM_DIRECT_POINTERS"
      using nat_0_le [of i0] nat_less_iff [of i0 NUM_DIRECT_POINTERS] by (metis not_le)
    then show ?thesis
    proof cases
      case 1
      then show ?thesis using run b2 updateDir_other(1) ln by simp
    next
      case 2
      then show ?thesis using run b2 updateDir_other(2) ln d1 inv' by simp
    next
      case (3 q)
      have "case place ?c' nt q np of
          Some (c1, b, k) \<Rightarrow> \<exists>d'. updateDir d1 junk (int q) name (inode_at ?c' np) (inode_at ?c' nt) n = retn (d', 0) \<and>
            disk_ok d' \<and> content d' = write_entry b k n name c1 \<and> fs_inv (content d')
        | None \<Rightarrow> updateDir d1 junk (int q) name (inode_at ?c' np) (inode_at ?c' nt) n =
            (if ptr_of ?c' nt q = 0 then retn (d1, -1) else None)"
        by (rule updateDir_spec [OF d1(2) d1(3) [symmetric] inv' t(3) tk(1) t(1) tk(2) 3(2) ln z nn(1) tk(3)])
      then show ?thesis using run b2 3(1) ln d1(2,3) inv' by (auto split: option.splits if_splits)
    qed
  qed
qed

text \<open>The disks that come about: a file system is made, then entries are created.\<close>

inductive fs_reach :: "disk \<Rightarrow> bool" where
  Init: "\<lbrakk>disk_open d0 fd = retn d; disk_ok d; dlen d = 0 \<or> sb_get (content d) Magicnum \<noteq> MAGIC;
    sfs_init d0 e junk fd = retn d'\<rbrakk> \<Longrightarrow> fs_reach d'"
| Create: "\<lbrakk>fs_reach d; 0 \<notin> set path; sfs_create d e junk i0 out path mode fi = retn (d', r)\<rbrakk> \<Longrightarrow> fs_reach d'"
| Mkdir: "\<lbrakk>fs_reach d; 0 \<notin> set path; sfs_mkdir d e junk i0 out path mode = retn (d', r)\<rbrakk> \<Longrightarrow> fs_reach d'"

lemma fs_reach_inv: "fs_reach d \<Longrightarrow> disk_ok d \<and> fs_inv (content d)"
proof (induction rule: fs_reach.induct)
  case (Init d0 fd d e junk d')
  obtain d1 where "sfs_init d0 e junk fd = retn d1" "disk_ok d1" "fresh_fs (content d1)"
    using sfs_init_fresh [OF Init(1-3), of e junk] by blast
  then show ?case using Init(4) fresh_fs_inv by simp
next
  case (Create d path e junk i0 out mode fi d' r)
  then show ?case using add_entry_keeps [of d path FILE e junk i0 out d' r] by (simp add: sfs_create_def)
next
  case (Mkdir d path e junk i0 out mode d' r)
  then show ?case using add_entry_keeps [of d path DIRECTORY e junk i0 out d' r] by (simp add: sfs_mkdir_def)
qed

end
