(* ===== verification/FS_Theorems.thy ===== *)
theory FS_Theorems
  imports FS_Ops
begin

text \<open>
  What the file system guarantees, stated over sfs.c: the invariant of every disk that comes
  about, path lookup, creating and finding files and directories, listing a directory, and
  the inputs on which the code fails.
\<close>

section \<open>The invariant\<close>

text \<open>
  Every disk that comes about by \<open>sfs_init\<close> on a new disk and any number of \<open>sfs_create\<close> and \<open>sfs_mkdir\<close>
  calls, with any paths, whether they succeed or return an error, is well formed: inodes in
  use carry their number, their pointers are marked data blocks that no other pointer
  shares, and every directory entry is free or has a name that ends in its 24 bytes and the
  number of an inode in use.
\<close>

theorem fs_reachable_wf:
  assumes "fs_reach d"
  shows "disk_ok d \<and> fs_inv (content d)"
  by (rule fs_reach_inv [OF assms])

lemma fresh_reach_ex: "\<exists>d. fs_reach d \<and> disk_ok d \<and> fresh_fs (content d)"
proof -
  have o: "disk_open new_disk 3 = retn new_disk" "disk_ok new_disk" "dlen new_disk = 0"
    by (simp_all add: disk_open_def disk_ok_def new_disk_def)
  let ?e = "\<lparr>euid = 0, egid = 0, now_s = 0\<rparr>" and ?j = "\<lambda>_ _. 0"
  obtain d where "sfs_init new_disk ?e ?j 3 = retn d" "disk_ok d" "fresh_fs (content d)"
    using sfs_init_fresh [OF o(1,2), of ?e ?j] o(3) by blast
  then show ?thesis using fs_reach.Init [OF o(1,2)] o(3) by blast
qed

theorem fs_reachable_wf_witness: "\<exists>d. fs_reach d \<and> disk_ok d \<and> fs_inv (content d)"
  using fresh_reach_ex fs_reachable_wf by blast

section \<open>Path lookup\<close>

text \<open>
  C12. \<open>navPath\<close> refines the walk over inode numbers: on a well-formed disk, for a path whose names fit the
  name buffer, it returns what \<open>resolve\<close> says, 0 or -1, with the inodes of the last directory
  and of the target as they are on the disk, whatever the stack held before.
\<close>

theorem navPath_refines:
  assumes "disk_ok d" "fs_inv (content d)" "\<forall>n\<in>set (path_names path). length n < MAX_FNAME" "length (path_names path) \<le> 10000"
  shows "navPath d junk out path =
    (case resolve (content d) path of (r, p, t) \<Rightarrow> retn (r, inode_at (content d) p, inode_at (content d) t))"
  by (rule navPath_spec [OF assms])

lemma comps_single: "SLASH \<notin> set name \<Longrightarrow> comps name = [name]"
proof -
  assume "SLASH \<notin> set name"
  then have "takeWhile (\<lambda>c. c \<noteq> SLASH) name = name" unfolding takeWhile_eq_all_conv by auto
  then show ?thesis by (subst comps.simps) (simp only: Let_def simp_thms if_True)
qed

lemma comps_pair:
  assumes "SLASH \<notin> set x" "SLASH \<notin> set y" "y \<noteq> []"
  shows "comps (x @ SLASH # y) = [x, y]"
proof -
  have "takeWhile (\<lambda>c. c \<noteq> SLASH) (x @ SLASH # y) = x" using assms(1) by (subst takeWhile_append2) auto
  moreover have "y \<noteq> [SLASH]" using assms(2) by auto
  moreover have "drop (length x + 1) (x @ SLASH # y) = y" by simp
  ultimately show ?thesis using assms(3) comps_single [OF assms(2)]
    by (subst comps.simps) (simp only: Let_def simp_thms if_False length_append list.size, simp)
qed

lemma resolve_single:
  assumes "SLASH \<notin> set name" "name \<noteq> []"
  shows "resolve c (SLASH # name) = (case lookup c 0 name of None \<Rightarrow> (-1, 0, 0) | Some j \<Rightarrow> (0, 0, j))"
    "path_names (SLASH # name) = [name]"
  using assms by (simp_all add: resolve_def path_names_def comps_single)

lemma resolve_pair:
  assumes "SLASH \<notin> set x" "SLASH \<notin> set y" "y \<noteq> []"
  shows "resolve c (SLASH # x @ SLASH # y) = walk c 0 [x, y]" "path_names (SLASH # x @ SLASH # y) = [x, y]"
  using assms by (simp_all add: resolve_def path_names_def comps_pair)

theorem navPath_refines_witness:
  "\<exists>d. navPath d (\<lambda>_ _. 9) (inode_at (content d) 5, inode_at (content d) 5) [47, 46] =
     retn (0, inode_at (content d) 0, inode_at (content d) 0)"
proof -
  obtain d where d: "disk_ok d" "fresh_fs (content d)" using fresh_disk_ex by blast
  have inv: "fs_inv (content d)" by (rule fresh_fs_inv [OF d(2)])
  have f: "q < NUM_DIRECT_POINTERS \<Longrightarrow> ptr_of (content d) 0 q = (if q = 0 then 1089 else 0)"
    "k < 16 \<Longrightarrow> slot (content d) 1089 k = (if k = 0 then 0 else INUM_FREE)" "named (content d) 1089 0 [46]" for q k
    using d(2) by (simp_all add: fresh_fs_def)
  have "lookup (content d) 0 [46] = Some 0"
    by (rule lookup_all [OF inv _ fs_invD(2) [OF inv], of 0 0])
      (use f in \<open>auto simp: holds_def split: if_splits\<close>)
  then show ?thesis
    using navPath_refines [OF d(1) inv, of "[47, 46]"] resolve_single [of "[46]"] by auto
qed

text \<open>
  C37. A directory that does not exist on the way is passed over: if the root has no entry \<open>x\<close>, then looking up
  \<open>/x/y\<close> gives what looking up \<open>/y\<close> gives. So \<open>/x/y\<close> is found whenever \<open>/y\<close> is there, and a file
  created as \<open>/x/y/z\<close> goes into \<open>/y\<close>.
\<close>

theorem navPath_skips_missing:
  assumes "disk_ok d" "fs_inv (content d)" "SLASH \<notin> set x" "SLASH \<notin> set y" "y \<noteq> []"
    and "length x < MAX_FNAME" "length y < MAX_FNAME" "lookup (content d) 0 x = None"
  shows "navPath d junk out (SLASH # x @ SLASH # y) = navPath d junk out (SLASH # y)"
proof -
  have "resolve (content d) (SLASH # x @ SLASH # y) = resolve (content d) (SLASH # y)"
    unfolding resolve_pair(1) [OF assms(3-5)] resolve_single(1) [OF assms(4,5)] walk.simps assms(8) option.case by (rule refl)
  then show ?thesis
    using navPath_spec [OF assms(1,2)] resolve_pair(2) [OF assms(3-5)] resolve_single(2) [OF assms(4,5)] assms(6,7)
    by simp
qed

lemma fresh_lookup_None:
  assumes "fresh_fs c" "name \<noteq> [46]" "0 \<notin> set name"
  shows "lookup c 0 name = None"
proof -
  note inv = fresh_fs_inv [OF assms(1)]
  have "named c 1089 0 [46]" using assms(1) by (simp add: fresh_fs_def)
  then have "\<not> named c 1089 0 name" using str_at_det [of c _ "[46]" name] assms(2,3) by (auto simp: named_def)
  then show ?thesis
    unfolding lookup_None [OF inv zero_less_numeral fs_invD(2) [OF inv]]
    using assms(1) by (auto simp: fresh_fs_def holds_def split: if_splits)
qed

theorem navPath_skips_missing_witness:
  "\<exists>d out. lookup (content d) 0 [120] = None \<and> navPath d (\<lambda>_ _. 9) out [47, 120, 47, 46] = navPath d (\<lambda>_ _. 9) out [47, 46]"
proof -
  obtain d where d: "disk_ok d" "fresh_fs (content d)" using fresh_disk_ex by blast
  have n: "lookup (content d) 0 [120] = None" by (rule fresh_lookup_None [OF d(2)]) simp_all
  have "navPath d (\<lambda>_ _. 9) out [47, 120, 47, 46] = navPath d (\<lambda>_ _. 9) out [47, 46]" for out
    using navPath_skips_missing [OF d(1) fresh_fs_inv [OF d(2)], of "[120]" "[46]"] n by simp
  then show ?thesis using n by blast
qed

section \<open>Creating and finding\<close>

lemma place_modes:
  assumes "fs_inv c" "i < MAX_INODES" "taken c i" "q < NUM_DIRECT_POINTERS" "p < MAX_INODES" "taken c p"
    "place c i q p = Some (c1, b, k)" "length name < MAX_FNAME" "n < MAX_INODES" "j < MAX_INODES"
  shows "iget (write_entry b k n name c1) F_mode (iaddr j) = iget c F_mode (iaddr j)"
proof -
  note f = place_facts [OF assms(1-7)]
  have "iget c1 F_mode (iaddr j) = iget c F_mode (iaddr j)"
  proof (cases "ptr_of c i q = 0")
    case True
    then obtain m where "first_free_data c = Some m" "c1 = give_block i q (1089 + m) p c"
      using assms(7) by (auto simp: place_def)
    then show ?thesis
      using give_block_views(3) [OF assms(2,4) first_free_dataD(1) assms(5,10), of c m F_mode] by simp
  qed (use assms(7) in \<open>auto simp: place_def\<close>)
  then show ?thesis using write_entry_views(3) [OF f(1,2) assms(8) _ assms(10), of n F_mode c1] assms(9) by simp
qed

lemma getattr_found:
  assumes "disk_ok d" "fs_inv (content d)" "\<forall>n\<in>set (path_names path). length n < MAX_FNAME" "length (path_names path) \<le> 10000"
    and "resolve (content d) path = (0, p, n)"
  shows "sfs_getattr d junk out path =
    retn (0, Some \<lparr>stat_ino = n, stat_mode = iget (content d) F_mode (iaddr n), stat_nlink = 1, stat_size = 512\<rparr>)"
proof -
  have "inode_wf (content d) n" using fs_invD(4) [OF assms(2)] resolve_taken [OF assms(2,5)] by simp
  then show ?thesis
    using navPath_spec [OF assms(1-4)] assms(5) by (simp add: sfs_getattr_def inode_at_def inode_wf_def)
qed

text \<open>One entry in the directory \<open>i\<close>, with what holds of it afterwards.\<close>

lemma add_entry_found:
  assumes d: "disk_ok d" "c = content d" "fs_inv c"
    and path: "path = dir @ SLASH # name" "SLASH \<notin> set name" "length path < 255" "length name < MAX_FNAME" "0 \<notin> set name"
      "name \<noteq> [46]" "name \<noteq> [46, 46]"
    and dir: "\<forall>n\<in>set (path_names dir). length n < MAX_FNAME" "resolve c dir = (0, p, i)"
    and new: "lookup c i name = None" and q: "q < NUM_DIRECT_POINTERS"
    and n: "first_free_inode c = Some n" and pl: "place (take_inode e type n c) i q p = Some (c1, b, k)"
  shows "\<exists>d'. add_entry type d e junk (int q) out path = retn (d', 0) \<and> disk_ok d' \<and> fs_inv (content d') \<and>
    content d' = write_entry b k n name c1 \<and> lookup (content d') i name = Some n \<and>
    iget (content d') F_mode (iaddr n) = mode_of type"
proof -
  let ?c = "take_inode e type n c"
  note t = resolve_taken [OF d(3) dir(2)] and nn = first_free_inodeD [OF n]
  note V = take_inode_views [OF nn(1), where e = e and type = type and c = c]
  have n0: "n \<noteq> 0" using nn(2) fs_invD(2) [OF d(3)] by metis
  have inv': "fs_inv ?c" by (rule take_inode_inv [OF d(3) nn])
  have tk: "taken ?c i" "taken ?c p" "taken ?c n" using V(1) t nn by auto
  obtain d' where d': "add_entry type d e junk (int q) out path = retn (d', 0)" "disk_ok d'"
    "content d' = write_entry b k n name c1" "fs_inv (content d')"
    using add_entry_spec [OF d path(1-5) dir q n n0 refl, of e type junk out] pl by auto
  have "lookup (content d') i name = Some n"
    unfolding d'(3)
    by (rule entry_found [OF inv' t(3) tk(1) t(1) tk(2) q pl path(4-7) _ nn(1) tk(3)])
      (rule take_inode_lookup [OF d(3) nn t(3,4) new])
  moreover have "iget (content d') F_mode (iaddr n) = mode_of type"
    using place_modes [OF inv' t(3) tk(1) q t(1) tk(2) pl path(4) nn(1,1)] V(9) by (simp add: d'(3))
  ultimately show ?thesis using d' by blast
qed

text \<open>
  C17. A file that is created is found: on a well-formed disk, when the root has no entry with this name, an inode
  is free and there is a place for the entry, \<open>sfs_create\<close> of \<open>/name\<close> returns 0, the disk stays
  well formed, and \<open>sfs_getattr\<close> of the path then returns 0 with the first inode that was
  free and the mode of a regular file. The mode is 0100666 whatever mode the caller asks for: the argument is only logged,
  although the comment above \<open>sfs_create\<close> says the file is created with it. \<open>q\<close> is what the index variable of
  \<open>updateDir\<close>, which is never set, holds; the statement is about the values 0 to 43.
\<close>

theorem create_then_getattr:
  assumes "disk_ok d" "c = content d" "fs_inv c"
    and "name \<noteq> []" "SLASH \<notin> set name" "0 \<notin> set name" "length name < MAX_FNAME" "name \<noteq> [46]" "name \<noteq> [46, 46]"
    and "lookup c 0 name = None" "q < NUM_DIRECT_POINTERS" "first_free_inode c = Some n"
    and "place (take_inode e FILE n c) 0 q 0 \<noteq> None"
  shows "\<exists>d'. sfs_create d e junk (int q) out (SLASH # name) mode fi = retn (d', 0) \<and> disk_ok d' \<and> fs_inv (content d') \<and>
    sfs_getattr d' junk' out' (SLASH # name) =
      retn (0, Some \<lparr>stat_ino = n, stat_mode = 33206, stat_nlink = 1, stat_size = 512\<rparr>)"
proof -
  obtain c1 b k where pl: "place (take_inode e FILE n c) 0 q 0 = Some (c1, b, k)" using assms(13) by auto
  have root: "resolve c [] = (0, 0, 0)" "path_names [] = []" by (simp_all add: resolve_def path_names_def)
  obtain d' where d': "sfs_create d e junk (int q) out (SLASH # name) mode fi = retn (d', 0)" "disk_ok d'" "fs_inv (content d')"
    "lookup (content d') 0 name = Some n" "iget (content d') F_mode (iaddr n) = mode_of FILE"
    using add_entry_found [OF assms(1-3), of "SLASH # name" "[]" name 0 0 q n e FILE c1 b k junk out] assms(5-12) pl root
    by (auto simp: sfs_create_def)
  then have "sfs_getattr d' junk' out' (SLASH # name) =
      retn (0, Some \<lparr>stat_ino = n, stat_mode = 33206, stat_nlink = 1, stat_size = 512\<rparr>)"
    using getattr_found [OF d'(2,3), of "SLASH # name" 0 n] resolve_single [OF assms(5,4)] assms(7)
    by (simp add: mode_of_def)
  then show ?thesis using d' by blast
qed

lemma fresh_first_free:
  assumes "fresh_fs c"
  shows "first_free_inode c = Some 1"
proof -
  have "taken c 0" "\<not> taken c 1" using assms by (simp_all add: fresh_fs_def)
  then show ?thesis unfolding first_free_inode_def by (intro find_second) (simp_all add: taken_def)
qed

lemma fresh_take_place:
  assumes "fresh_fs c"
  shows "place (take_inode e type 1 c) 0 0 0 = Some (take_inode e type 1 c, 1089, 1)"
proof -
  let ?c = "take_inode e type 1 c"
  have p: "ptr_of ?c 0 0 = 1089"
    using take_inode_views(3) [of 1 0 "F_directp 0" e type c] assms by (simp add: ptr_of_def fresh_fs_def)
  have "free_entry ?c 1089 = free_entry c 1089"
    unfolding free_entry_def by (simp only: take_inode_views(5) [of 1 1089 e type c])
  also have "\<dots> = Some 1" using fresh_place [OF assms] by (auto simp: place_def split: if_splits)
  finally show ?thesis using p by (simp add: place_def)
qed

theorem create_then_getattr_witness:
  "\<exists>d d' out fi. sfs_create d \<lparr>euid = 0, egid = 0, now_s = 0\<rparr> (\<lambda>_ _. 9) 0 out [47, 97] 384 fi = retn (d', 0) \<and>
     sfs_getattr d' (\<lambda>_ _. 9) out [47, 97] =
       retn (0, Some \<lparr>stat_ino = 1, stat_mode = 33206, stat_nlink = 1, stat_size = 512\<rparr>)"
proof -
  obtain d where d: "disk_ok d" "fresh_fs (content d)" using fresh_disk_ex by blast
  let ?e = "\<lparr>euid = 0, egid = 0, now_s = 0\<rparr>"
  have "place (take_inode ?e FILE 1 (content d)) 0 0 0 \<noteq> None" using fresh_take_place [OF d(2)] by simp
  then obtain d' where "sfs_create d ?e (\<lambda>_ _. 9) 0 (inode_at (content d) 0, inode_at (content d) 0) [47, 97] 384 fi = retn (d', 0)"
    "sfs_getattr d' (\<lambda>_ _. 9) (inode_at (content d) 0, inode_at (content d) 0) [47, 97] =
       retn (0, Some \<lparr>stat_ino = 1, stat_mode = 33206, stat_nlink = 1, stat_size = 512\<rparr>)"
    using create_then_getattr [OF d(1) refl fresh_fs_inv [OF d(2)], of "[97]" 0 1 ?e "\<lambda>_ _. 9"
        "(inode_at (content d) 0, inode_at (content d) 0)" 384 fi "\<lambda>_ _. 9" "(inode_at (content d) 0, inode_at (content d) 0)"]
      fresh_lookup_None [OF d(2), of "[97]"] fresh_first_free [OF d(2)] by auto
  then show ?thesis by blast
qed

section \<open>Directories\<close>

lemma dir_lookup_cong:
  assumes "\<And>b k. b \<in> set bs \<Longrightarrow> b \<noteq> 0 \<Longrightarrow> k < 16 \<Longrightarrow>
    slot c' (nat b) k = slot c (nat b) k \<and> named c' (nat b) k s = named c (nat b) k s"
  shows "dir_lookup c' bs s = dir_lookup c bs s"
  using assms
proof (induction bs)
  case (Cons b bs)
  show ?case
  proof (cases "b = 0")
    case False
    have h: "slot c' (nat b) k = slot c (nat b) k" "holds c' (nat b) k s = holds c (nat b) k s" if "k < 16" for k
      using Cons.prems [of b k] False that by (simp_all add: holds_def)
    have f: "find (\<lambda>k. holds c' (nat b) k s) [0..<16] = find (\<lambda>k. holds c (nat b) k s) [0..<16]"
      by (rule find_cong) (use h in \<open>auto simp del: upt_rec_numeral\<close>)
    have "slot c' (nat b) k = slot c (nat b) k" if "find (\<lambda>k. holds c (nat b) k s) [0..<16] = Some k" for k
      using find_SomeD [OF that] h(1) unfolding set_upt by simp
    then show ?thesis using Cons f by (auto split: option.split simp del: upt_rec_numeral)
  qed (use Cons in simp)
qed simp

lemma lookup_cong:
  assumes inv: "fs_inv c" "fs_inv c'" and j: "j < MAX_INODES" "taken c j" "taken c' j"
    and p: "\<And>q. q < NUM_DIRECT_POINTERS \<Longrightarrow> ptr_of c' j q = ptr_of c j q"
    and s: "\<And>q k. q < NUM_DIRECT_POINTERS \<Longrightarrow> ptr_of c j q \<noteq> 0 \<Longrightarrow> k < 16 \<Longrightarrow>
      slot c' (ptr_of c j q) k = slot c (ptr_of c j q) k \<and> named c' (ptr_of c j q) k s = named c (ptr_of c j q) k s"
  shows "lookup c' j s = lookup c j s"
proof -
  have "directp (inode_at c' j) = directp (inode_at c j)"
    using dir_blocks(1) [OF inv(1) j(1,2)] dir_blocks(1) [OF inv(2) j(1,3)] p by simp
  then show ?thesis
    unfolding lookup_def by (simp, intro dir_lookup_cong) (use dir_blocks(1) [OF inv(1) j(1,2)] s in auto)
qed

text \<open>Taking an inode and adding an entry to one directory leave the others as they are.\<close>

lemma lookup_take_inode:
  assumes "fs_inv c" "n < MAX_INODES" "\<not> taken c n" "j < MAX_INODES" "taken c j"
  shows "lookup (take_inode e type n c) j s = lookup c j s"
proof -
  have ne: "j \<noteq> n" using assms(3,5) by blast
  note V = take_inode_views [OF assms(2), where e = e and type = type and c = c]
  show ?thesis
  proof (rule lookup_cong [OF assms(1) take_inode_inv [OF assms(1-3)] assms(4,5)])
    show "taken (take_inode e type n c) j" using V(1) [OF assms(4)] assms(5) by simp
    show "ptr_of (take_inode e type n c) j q = ptr_of c j q" if "q < NUM_DIRECT_POINTERS" for q
      using V(3) [OF assms(4) ne, of "F_directp q"] that by (simp add: ptr_of_def)
    fix q k
    assume "q < NUM_DIRECT_POINTERS" "ptr_of c j q \<noteq> 0"
    then have "1089 \<le> ptr_of c j q"
      using inode_wfD [OF fs_invD(4) [OF assms(1,4,5)]] by (simp add: block_wf_def is_data_def)
    then show "slot (take_inode e type n c) (ptr_of c j q) k = slot c (ptr_of c j q) k \<and>
        named (take_inode e type n c) (ptr_of c j q) k s = named c (ptr_of c j q) k s" using V(5,6) by simp
  qed
qed

lemma place_ptr:
  assumes "fs_inv c" "i < MAX_INODES" "taken c i" "q < NUM_DIRECT_POINTERS" "p < MAX_INODES" "taken c p"
    and pl: "place c i q p = Some (c1, b, k)" and j: "j < MAX_INODES" "j \<noteq> i" and q': "q' < NUM_DIRECT_POINTERS"
  shows "ptr_of c1 j q' = ptr_of c j q'"
proof (cases "ptr_of c i q = 0")
  case False
  then show ?thesis using pl by (auto simp: place_def)
next
  case True
  then obtain m where m: "first_free_data c = Some m" "c1 = give_block i q (1089 + m) p c"
    using pl by (auto simp: place_def)
  then show ?thesis
    using give_block_views(3) [OF assms(2,4) first_free_dataD(1) [OF m(1)] assms(5) j(1), of "F_directp q'" c] j(2) q'
    by (simp add: ptr_of_def)
qed

lemma lookup_other_dir:
  assumes inv: "fs_inv c" and i: "i < MAX_INODES" "taken c i" and q: "q < NUM_DIRECT_POINTERS"
    and p: "p < MAX_INODES" "taken c p" and pl: "place c i q p = Some (c1, b, k)"
    and name: "length name < MAX_FNAME" "0 \<notin> set name" and n: "n < MAX_INODES" "taken c n"
    and j: "j < MAX_INODES" "taken c j" "j \<noteq> i" and s: "length s < MAX_FNAME"
  shows "lookup (write_entry b k n name c1) j s = lookup c j s"
proof -
  let ?c = "write_entry b k n name c1"
  note f = place_facts [OF inv i q p pl]
  have "n < 2 ^ 64" using n(1) by simp
  note V = write_entry_views [OF f(1,2) name(1) this, where c = c1]
  have inv': "fs_inv ?c" by (rule write_entry_inv [OF f(3,1,2) name n(1)]) (use f(7) n in simp)
  have blk: "block_wf c (ptr_of c j q')" "ptr_of c j q' \<noteq> b"
    "k' < 16 \<Longrightarrow> slot c1 (ptr_of c j q') k' = slot c (ptr_of c j q') k'"
    "k' < 16 \<Longrightarrow> named c1 (ptr_of c j q') k' s = named c (ptr_of c j q') k' s"
    if q': "q' < NUM_DIRECT_POINTERS" "ptr_of c j q' \<noteq> 0" for q' k'
  proof -
    show w: "block_wf c (ptr_of c j q')" by (rule inode_wfD [OF fs_invD(4) [OF inv j(1,2)] q'])
    show nb: "ptr_of c j q' \<noteq> b" and "k' < 16 \<Longrightarrow> slot c1 (ptr_of c j q') k' = slot c (ptr_of c j q') k'"
      "k' < 16 \<Longrightarrow> named c1 (ptr_of c j q') k' s = named c (ptr_of c j q') k' s"
    proof (atomize (full), goal_cases)
      case 1
      show ?case
      proof (cases "ptr_of c i q = 0")
        case False
        then have "c1 = c" "b = ptr_of c i q" using pl by (auto simp: place_def)
        then show ?thesis using soleD(1) [OF fs_invD(5) [OF inv] j(1) i(1) q'(1) q j(2) i(2)] q'(2) j(3) by auto
      next
        case True
        then obtain m where m: "first_free_data c = Some m" "c1 = give_block i q (1089 + m) p c" "b = 1089 + m"
          using pl by (auto simp: place_def)
        note md = first_free_dataD [OF m(1)]
        note G = give_block_views [OF i(1) q md(1) p(1), where c = c]
        have ne: "ptr_of c j q' \<noteq> 1089 + m" using w md(2) by (auto simp: block_wf_def)
        have "is_data (ptr_of c j q')" using w by (simp add: block_wf_def)
        then show ?thesis
          using G(3) [OF j(1), of "F_directp q'"] G(5,6) ne q'(1) j(3) s m(2,3) by (simp add: ptr_of_def)
      qed
    qed
  qed
  note z = place_ptr [OF inv i q p pl j(1,3)]
  show ?thesis
  proof (rule lookup_cong [OF inv inv' j(1,2)])
    show "taken ?c j" using V(1) [OF j(1)] f(7) [OF j(1)] j(2) by simp
    show "ptr_of ?c j q' = ptr_of c j q'" if "q' < NUM_DIRECT_POINTERS" for q'
      using V(3) [OF j(1), of "F_directp q'"] z that by (simp add: ptr_of_def)
    show "slot ?c (ptr_of c j q') k' = slot c (ptr_of c j q') k' \<and> named ?c (ptr_of c j q') k' s = named c (ptr_of c j q') k' s"
      if "q' < NUM_DIRECT_POINTERS" "ptr_of c j q' \<noteq> 0" "k' < 16" for q' k'
      using V(5) [OF that(3)] V(6) [OF that(3) s] blk [OF that(1,2)] that(3) by simp
  qed
qed

lemma first_free_data_take: "n < MAX_INODES \<Longrightarrow> first_free_data (take_inode e type n c) = first_free_data c"
proof -
  assume n: "n < MAX_INODES"
  have "take_inode e type n c (dmap_addr m) = c (dmap_addr m)" if "m < MAX_DATA" for m
    using take_inode_apply [OF n, of "dmap_addr m"] that n by simp
  then show ?thesis unfolding first_free_data_def by (intro find_cong) (auto simp del: upt_rec_numeral)
qed

text \<open>A name in a directory that is not the root.\<close>

lemma create_in_directory:
  assumes d: "disk_ok d" "c = content d" "fs_inv c"
    and x: "x \<noteq> []" "SLASH \<notin> set x" "length x < MAX_FNAME" "lookup c 0 x = Some i" "i \<noteq> 0"
    and y: "y \<noteq> []" "SLASH \<notin> set y" "0 \<notin> set y" "length y < MAX_FNAME" "y \<noteq> [46]" "y \<noteq> [46, 46]"
    and new: "lookup c i y = None" and q: "q < NUM_DIRECT_POINTERS"
    and n: "first_free_inode c = Some n" "place (take_inode e FILE n c) i q 0 \<noteq> None"
  shows "\<exists>d'. sfs_create d e junk (int q) out (SLASH # x @ SLASH # y) mode fi = retn (d', 0) \<and>
    sfs_getattr d' junk' out' (SLASH # x @ SLASH # y) =
      retn (0, Some \<lparr>stat_ino = n, stat_mode = 33206, stat_nlink = 1, stat_size = 512\<rparr>)"
proof -
  obtain c1 b k where pl: "place (take_inode e FILE n c) i q 0 = Some (c1, b, k)" using n(2) by auto
  have res: "resolve c (SLASH # x) = (0, 0, i)" "path_names (SLASH # x) = [x]"
    using resolve_single [OF x(2,1)] x(4) by simp_all
  have len: "length (SLASH # x @ SLASH # y) < 255" using x(3) y(4) by simp
  note t = resolve_taken [OF d(3) res(1)] and nn = first_free_inodeD [OF n(1)]
  have inv': "fs_inv (take_inode e FILE n c)" by (rule take_inode_inv [OF d(3) nn])
  have tk: "taken (take_inode e FILE n c) j" if "j < MAX_INODES" "j = n \<or> taken c j" for j
    using take_inode_views(1) [OF nn(1) that(1)] that(2) by simp
  obtain d' where d': "sfs_create d e junk (int q) out (SLASH # x @ SLASH # y) mode fi = retn (d', 0)" "disk_ok d'"
    "fs_inv (content d')" "content d' = write_entry b k n y c1" "lookup (content d') i y = Some n"
    "iget (content d') F_mode (iaddr n) = mode_of FILE"
    using add_entry_found [OF d, of "SLASH # x @ SLASH # y" "SLASH # x" y 0 i q n e FILE c1 b k junk out]
      y(2-6) len res x(3) new q n(1) pl by (auto simp: sfs_create_def)
  have "lookup (content d') 0 x = lookup (take_inode e FILE n c) 0 x"
    unfolding d'(4)
    by (rule lookup_other_dir [OF inv' t(3) tk q t(1) tk pl y(4,3) nn(1) tk t(1) tk _ x(3)])
      (use t nn(1) x(5) in auto)
  also have "\<dots> = Some i" using lookup_take_inode [OF d(3) nn t(1,2)] x(4) by simp
  finally have "resolve (content d') (SLASH # x @ SLASH # y) = (0, i, n)"
    using resolve_pair(1) [OF x(2) y(2,1)] d'(5) by simp
  then have "sfs_getattr d' junk' out' (SLASH # x @ SLASH # y) =
      retn (0, Some \<lparr>stat_ino = n, stat_mode = 33206, stat_nlink = 1, stat_size = 512\<rparr>)"
    using getattr_found [OF d'(2,3), of "SLASH # x @ SLASH # y" i n junk' out'] resolve_pair(2) [OF x(2) y(2,1)] x(3) y(4) d'(6)
    by (simp add: mode_of_def)
  then show ?thesis using d'(1) by blast
qed

text \<open>
  C25. Directories work: on a well-formed disk, when the root has no entry \<open>x\<close>, an inode is free and there is a
  place for the entry, \<open>sfs_mkdir\<close> of \<open>/x\<close> returns 0 and \<open>sfs_getattr\<close> of \<open>/x\<close> then finds a
  directory. If a second inode and a data block are free, \<open>sfs_create\<close> of \<open>/x/y\<close> returns 0
  after that, and \<open>sfs_getattr\<close> of \<open>/x/y\<close> finds the file. The modes are 040666 and 0100666 whatever modes the caller
  asks for, and the index variable of \<open>updateDir\<close> holds any of the values 0 to 43 in each of the two calls.
\<close>

theorem mkdir_then_create:
  assumes d: "disk_ok d" "c = content d" "fs_inv c"
    and x: "x \<noteq> []" "SLASH \<notin> set x" "0 \<notin> set x" "length x < MAX_FNAME" "x \<noteq> [46]" "x \<noteq> [46, 46]" "lookup c 0 x = None"
    and y: "y \<noteq> []" "SLASH \<notin> set y" "0 \<notin> set y" "length y < MAX_FNAME" "y \<noteq> [46]" "y \<noteq> [46, 46]"
    and q: "q < NUM_DIRECT_POINTERS" "q' < NUM_DIRECT_POINTERS"
    and i: "first_free_inode c = Some i" "place (take_inode e DIRECTORY i c) 0 q 0 \<noteq> None"
  shows "\<exists>d1. sfs_mkdir d e junk (int q) out (SLASH # x) mode = retn (d1, 0) \<and>
    sfs_getattr d1 junk out (SLASH # x) =
      retn (0, Some \<lparr>stat_ino = i, stat_mode = 16822, stat_nlink = 1, stat_size = 512\<rparr>) \<and>
    (\<forall>n. first_free_inode (content d1) = Some n \<and> first_free_data (content d1) \<noteq> None \<longrightarrow>
      (\<exists>d2. sfs_create d1 e junk (int q') out (SLASH # x @ SLASH # y) mode' fi = retn (d2, 0) \<and>
        sfs_getattr d2 junk out (SLASH # x @ SLASH # y) =
          retn (0, Some \<lparr>stat_ino = n, stat_mode = 33206, stat_nlink = 1, stat_size = 512\<rparr>)))"
proof -
  obtain c1 b k where pl: "place (take_inode e DIRECTORY i c) 0 q 0 = Some (c1, b, k)" using i(2) by auto
  have root: "resolve c [] = (0, 0, 0)" "path_names [] = []" by (simp_all add: resolve_def path_names_def)
  obtain d1 where d1: "sfs_mkdir d e junk (int q) out (SLASH # x) mode = retn (d1, 0)" "disk_ok d1" "fs_inv (content d1)"
    "content d1 = write_entry b k i x c1" "lookup (content d1) 0 x = Some i" "iget (content d1) F_mode (iaddr i) = mode_of DIRECTORY"
    using add_entry_found [OF d, of "SLASH # x" "[]" x 0 0 q i e DIRECTORY c1 b k junk out] x(2-7) pl root q i(1)
    by (auto simp: sfs_mkdir_def)
  have ga: "sfs_getattr d1 junk out (SLASH # x) =
      retn (0, Some \<lparr>stat_ino = i, stat_mode = 16822, stat_nlink = 1, stat_size = 512\<rparr>)"
    using getattr_found [OF d1(2,3), of "SLASH # x" 0 i] resolve_single [OF x(2,1)] x(4) d1(5,6) by (simp add: mode_of_def)
  note ii = first_free_inodeD [OF i(1)]
  have i0: "i \<noteq> 0" using ii(2) fs_invD(2) [OF d(3)] by metis
  have ti: "taken (content d1) i" using lookup_taken [OF d1(3) _ fs_invD(2) [OF d1(3)] d1(5)] by simp
  have inv': "fs_inv (take_inode e DIRECTORY i c)" by (rule take_inode_inv [OF d(3) ii])
  note T = fs_invD(2) [OF inv']
  have p0: "ptr_of (content d1) i r = 0" if "r < NUM_DIRECT_POINTERS" for r
  proof -
    have "ptr_of (content d1) i r = ptr_of c1 i r"
      using write_entry_views(3) [OF place_facts(1,2) [OF inv' _ T q(1) _ T pl] x(4) _ ii(1), of i "F_directp r" c1] that ii(1)
      by (simp add: d1(4) ptr_of_def)
    also have "\<dots> = ptr_of (take_inode e DIRECTORY i c) i r"
      using place_ptr [OF inv' _ T q(1) _ T pl ii(1) i0 that] by simp
    also have "\<dots> = 0" by (rule take_inode_views(7) [OF ii(1) that])
    finally show ?thesis .
  qed
  have none: "lookup (content d1) i y = None" using lookup_None [OF d1(3) ii(1) ti] p0 by simp
  have "\<exists>d2. sfs_create d1 e junk (int q') out (SLASH # x @ SLASH # y) mode' fi = retn (d2, 0) \<and>
        sfs_getattr d2 junk out (SLASH # x @ SLASH # y) =
          retn (0, Some \<lparr>stat_ino = n, stat_mode = 33206, stat_nlink = 1, stat_size = 512\<rparr>)"
    if n: "first_free_inode (content d1) = Some n" "first_free_data (content d1) \<noteq> None" for n
  proof (rule create_in_directory [OF d1(2) refl d1(3) x(1,2,4) d1(5) i0 y none q(2) n(1)])
    note nn = first_free_inodeD [OF n(1)]
    have "ptr_of (take_inode e FILE n (content d1)) i q' = 0"
      using take_inode_views(3) [OF nn(1) ii(1), of "F_directp q'" e FILE "content d1"] ti nn(2) p0 [OF q(2)] q(2)
      by (cases "i = n") (auto simp: ptr_of_def)
    then show "place (take_inode e FILE n (content d1)) i q' 0 \<noteq> None"
      using n(2) by (simp add: place_def first_free_data_take [OF nn(1)])
  qed
  then show ?thesis using d1(1) ga by blast
qed

text \<open>A new file system after the first \<open>sfs_mkdir\<close>.\<close>

lemma fresh_mkdir:
  assumes d: "disk_ok d" "fresh_fs (content d)"
    and x: "x \<noteq> []" "SLASH \<notin> set x" "0 \<notin> set x" "length x < MAX_FNAME" "x \<noteq> [46]" "x \<noteq> [46, 46]"
  shows "\<exists>d1. sfs_mkdir d e junk 0 out (SLASH # x) mode = retn (d1, 0) \<and>
    first_free_inode (content d1) = Some 2 \<and> first_free_data (content d1) = Some 1"
proof -
  let ?c = "take_inode e DIRECTORY 1 (content d)"
  have "resolve (content d) [] = (0, 0, 0)" "path_names [] = []" by (simp_all add: resolve_def path_names_def)
  then obtain d1 where d1: "sfs_mkdir d e junk 0 out (SLASH # x) mode = retn (d1, 0)" "content d1 = write_entry 1089 1 1 x ?c"
    using add_entry_found [OF d(1) refl fresh_fs_inv [OF d(2)], of "SLASH # x" "[]" x 0 0 0 1 e DIRECTORY ?c 1089 1 junk out]
      x fresh_lookup_None [OF d(2) x(5,3)] fresh_first_free [OF d(2)] fresh_take_place [OF d(2)] by (auto simp: sfs_mkdir_def)
  have b: "is_data 1089" "is_data 1090" by (simp_all add: is_data_def)
  note V = write_entry_views [OF b(1), of 1 x 1, where c = ?c] and T = take_inode_views [of 1, where c = "content d"]
  have "taken (content d1) j = (j < 2)" if "j < 3" for j
    using V(1) [of j] T(1) [of j e DIRECTORY] x(4) d(2) that by (auto simp: d1(2) fresh_fs_def)
  then have "find (\<lambda>n. \<not> taken (content d1) n) [0..<MAX_INODES] = Some 2" by (intro find_upt) simp_all
  then have i: "first_free_inode (content d1) = Some 2" by (simp add: first_free_inode_def taken_def)
  have "marked (content d1) 1089" "\<not> marked (content d1) 1090"
    using V(4) T(4) [of _ e DIRECTORY] x(4) d(2) b by (simp_all add: d1(2) fresh_fs_def)
  then have "first_free_data (content d1) = Some 1"
    unfolding first_free_data_def by (intro find_second) (simp_all add: marked_def)
  then show ?thesis using d1(1) i by blast
qed

theorem mkdir_then_create_witness:
  "\<exists>d d1 d2 out fi. sfs_mkdir d \<lparr>euid = 0, egid = 0, now_s = 0\<rparr> (\<lambda>_ _. 9) 0 out [47, 97] 448 = retn (d1, 0) \<and>
     sfs_getattr d1 (\<lambda>_ _. 9) out [47, 97] =
       retn (0, Some \<lparr>stat_ino = 1, stat_mode = 16822, stat_nlink = 1, stat_size = 512\<rparr>) \<and>
     sfs_create d1 \<lparr>euid = 0, egid = 0, now_s = 0\<rparr> (\<lambda>_ _. 9) 3 out [47, 97, 47, 98] 384 fi = retn (d2, 0) \<and>
     sfs_getattr d2 (\<lambda>_ _. 9) out [47, 97, 47, 98] =
       retn (0, Some \<lparr>stat_ino = 2, stat_mode = 33206, stat_nlink = 1, stat_size = 512\<rparr>)"
proof -
  fix fi :: addr
  obtain d where d: "disk_ok d" "fresh_fs (content d)" using fresh_disk_ex by blast
  let ?e = "\<lparr>euid = 0, egid = 0, now_s = 0\<rparr>" and ?out = "(inode_at (content d) 0, inode_at (content d) 0)"
  obtain d1 where d1: "sfs_mkdir d ?e (\<lambda>_ _. 9) 0 ?out [47, 97] 448 = retn (d1, 0)" "first_free_inode (content d1) = Some 2"
    "first_free_data (content d1) = Some 1"
    using fresh_mkdir [OF d, of "[97]" ?e "\<lambda>_ _. 9" ?out 448] by auto
  have "place (take_inode ?e DIRECTORY 1 (content d)) 0 0 0 \<noteq> None" using fresh_take_place [OF d(2)] by simp
  then have "sfs_getattr d1 (\<lambda>_ _. 9) ?out [47, 97] =
       retn (0, Some \<lparr>stat_ino = 1, stat_mode = 16822, stat_nlink = 1, stat_size = 512\<rparr>) \<and>
     (\<exists>d2. sfs_create d1 ?e (\<lambda>_ _. 9) 3 ?out [47, 97, 47, 98] 384 fi = retn (d2, 0) \<and>
       sfs_getattr d2 (\<lambda>_ _. 9) ?out [47, 97, 47, 98] =
         retn (0, Some \<lparr>stat_ino = 2, stat_mode = 33206, stat_nlink = 1, stat_size = 512\<rparr>))"
    using mkdir_then_create [OF d(1) refl fresh_fs_inv [OF d(2)], of "[97]" "[98]" 0 3 1 ?e "\<lambda>_ _. 9" ?out 448 384 fi]
      fresh_lookup_None [OF d(2), of "[97]"] fresh_first_free [OF d(2)] d1 by auto
  then show ?thesis using d1(1) by blast
qed

section \<open>Listing a directory\<close>

lemma entry_name:
  assumes "block_wf c b" "k < 16" "slot c b k \<noteq> INUM_FREE" "window m c (512 * b)"
  shows "\<exists>s. cstr m (fname_off k) = Some s \<and> (\<forall>t. t = s \<longleftrightarrow> 0 \<notin> set t \<and> length t < MAX_FNAME \<and> named c b k t)"
proof -
  obtain s where s: "length s < MAX_FNAME" "0 \<notin> set s" "named c b k s"
    using assms(1-3) by (auto simp: block_wf_def name_wf_def)
  have "fname_off k + length s < BLOCK_SIZE" using assms(2) s(1) by simp
  then have "cstr m (fname_off k) = Some s"
    using window_str_at [OF assms(4), of "fname_off k" s] s by (intro cstr_str_at) (auto simp: named_def)
  moreover have "t = s" if "0 \<notin> set t" "named c b k t" for t
    using str_at_det that s by (auto simp: named_def)
  ultimately show ?thesis using s by blast
qed

lemma fill_entries_all:
  assumes "block_wf c b" "window m c (512 * b)" "\<forall>k\<in>set ks. k < 16"
  shows "\<exists>names. fill_entries (\<lambda>l s. (l @ [s], 0)) m ks buf = retn (buf @ names, False) \<and>
    (\<forall>t. t \<in> set names \<longleftrightarrow> 0 \<notin> set t \<and> length t < MAX_FNAME \<and> (\<exists>k\<in>set ks. holds c b k t))"
  using assms(3)
proof (induction ks arbitrary: buf)
  case (Cons k ks)
  have k: "k < 16" using Cons.prems by simp
  have sl: "inum_at m k = slot c b k" using window_rd [OF assms(2), of "8 * k" 8] k by (simp add: inum_at_def slot_def)
  show ?case
  proof (cases "slot c b k = INUM_FREE")
    case True
    then show ?thesis using Cons sl by (simp add: holds_def)
  next
    case False
    then obtain s where s: "cstr m (fname_off k) = Some s"
      "\<forall>t. t = s \<longleftrightarrow> 0 \<notin> set t \<and> length t < MAX_FNAME \<and> named c b k t"
      using entry_name [OF assms(1) k False assms(2)] by blast
    obtain names where n: "fill_entries (\<lambda>l s. (l @ [s], 0)) m ks (buf @ [s]) = retn ((buf @ [s]) @ names, False)"
      "\<forall>t. t \<in> set names \<longleftrightarrow> 0 \<notin> set t \<and> length t < MAX_FNAME \<and> (\<exists>k\<in>set ks. holds c b k t)"
      using Cons by fastforce
    show ?thesis
      using sl False s(1) n s(2) by (intro exI [of _ "s # names"]) (auto simp: holds_def)
  qed
qed simp

lemma fill_blocks_all:
  assumes "disk_ok d" "\<forall>b\<in>set bs. b \<noteq> 0 \<longrightarrow> 0 \<le> b \<and> block_wf (content d) (nat b)"
  shows "\<exists>names. fill_blocks d (\<lambda>l s. (l @ [s], 0)) bs m buf = retn (buf @ names) \<and>
    (\<forall>t. t \<in> set names \<longleftrightarrow> 0 \<notin> set t \<and> length t < MAX_FNAME \<and> dir_lookup (content d) bs t \<noteq> None)"
  using assms(2)
proof (induction bs arbitrary: m buf)
  case (Cons b bs)
  show ?case
  proof (cases "b = 0")
    case True
    then show ?thesis using Cons by simp
  next
    case False
    then have b: "0 \<le> b" "block_wf (content d) (nat b)" using Cons.prems by auto
    then have "is_data (nat b)" by (simp add: block_wf_def)
    then have w: "window (fst (block_read d b m)) (content d) (512 * nat b)"
      using bd.bread_window [OF assms(1) is_data_block, of "nat b" m] b(1) by simp
    obtain n1 where n1: "fill_entries (\<lambda>l s. (l @ [s], 0)) (fst (block_read d b m)) [0..<16] buf = retn (buf @ n1, False)"
      "\<forall>t. t \<in> set n1 \<longleftrightarrow> 0 \<notin> set t \<and> length t < MAX_FNAME \<and> (\<exists>k\<in>set [0..<16]. holds (content d) (nat b) k t)"
      using fill_entries_all [OF b(2) w, of "[0..<16]" buf, unfolded set_upt atLeastLessThan_iff] unfolding set_upt by auto
    obtain n2 where n2: "fill_blocks d (\<lambda>l s. (l @ [s], 0)) bs (fst (block_read d b m)) (buf @ n1) = retn ((buf @ n1) @ n2)"
      "\<forall>t. t \<in> set n2 \<longleftrightarrow> 0 \<notin> set t \<and> length t < MAX_FNAME \<and> dir_lookup (content d) bs t \<noteq> None"
      using Cons.IH [of "fst (block_read d b m)" "buf @ n1"] Cons.prems by auto
    have lk: "dir_lookup (content d) (b # bs) t \<noteq> None \<longleftrightarrow>
        (\<exists>k\<in>set [0..<16]. holds (content d) (nat b) k t) \<or> dir_lookup (content d) bs t \<noteq> None" for t
      using False unfolding dir_lookup_None set_upt by auto
    have "fill_blocks d (\<lambda>l s. (l @ [s], 0)) (b # bs) m buf = retn (buf @ n1 @ n2)"
      using False n1(1) n2(1) by (simp add: case_prod_beta del: upt_rec_numeral)
    then show ?thesis using n1(2) n2(2) unfolding lk by (intro exI [of _ "n1 @ n2"]) auto
  qed
qed simp

text \<open>
  C26. \<open>sfs_readdir\<close> lists what can be looked up: for a path that leads to a directory of a well-formed disk, with a
  filler that collects the names and never says stop, it returns 0, and the names collected
  are exactly the names that a lookup in the directory finds.
\<close>

theorem readdir_lists_lookup:
  assumes d: "disk_ok d" "fs_inv (content d)"
    and path: "\<forall>n\<in>set (path_names path). length n < MAX_FNAME" "length (path_names path) \<le> 10000"
    and dir: "resolve (content d) path = (0, p, i)" "iget (content d) F_mode (iaddr i) = mode_of DIRECTORY"
  shows "\<exists>names. sfs_readdir d junk out path (\<lambda>l s. (l @ [s], 0)) [] = retn (names, 0) \<and>
    (\<forall>t. t \<in> set names \<longleftrightarrow> 0 \<notin> set t \<and> length t < MAX_FNAME \<and> lookup (content d) i t \<noteq> None)"
proof -
  note t = resolve_taken [OF d(2) dir(1)]
  have "\<forall>b\<in>set (directp (inode_at (content d) i)). b \<noteq> 0 \<longrightarrow> 0 \<le> b \<and> block_wf (content d) (nat b)"
    unfolding dir_blocks(1) [OF d(2) t(3,4)] set_map set_upt using inode_wfD [OF fs_invD(4) [OF d(2) t(3,4)]] by auto
  from fill_blocks_all [OF d(1) this, of "junk 15" "[]"] obtain names where
    "fill_blocks d (\<lambda>l s. (l @ [s], 0)) (directp (inode_at (content d) i)) (junk 15) [] = retn names"
    "\<forall>t. t \<in> set names \<longleftrightarrow> 0 \<notin> set t \<and> length t < MAX_FNAME \<and> lookup (content d) i t \<noteq> None"
    unfolding lookup_def by auto
  moreover have "S_ISDIR (st_mode (inode_at (content d) i))"
    using dir(2) by (simp add: inode_at_def S_ISDIR_def mode_of_def)
  ultimately show ?thesis
    using navPath_spec [OF d path, of junk out] dir(1) by (simp add: sfs_readdir_def)
qed

theorem readdir_lists_lookup_witness:
  "\<exists>d out names. sfs_readdir d (\<lambda>_ _. 9) out [47] (\<lambda>l s. (l @ [s], 0)) [] = retn (names, 0) \<and> [97] \<notin> set names"
proof -
  obtain d where d: "disk_ok d" "fresh_fs (content d)" using fresh_disk_ex by blast
  let ?out = "(inode_at (content d) 0, inode_at (content d) 0)"
  have "resolve (content d) [47] = (0, 0, 0)" "path_names [47] = []" by (simp_all add: resolve_def path_names_def)
  then obtain names where "sfs_readdir d (\<lambda>_ _. 9) ?out [47] (\<lambda>l s. (l @ [s], 0)) [] = retn (names, 0)" "[97] \<notin> set names"
    using readdir_lists_lookup [OF d(1) fresh_fs_inv [OF d(2)], of "[47]" 0 0 "\<lambda>_ _. 9" ?out]
      fs_invD(3) [OF fresh_fs_inv [OF d(2)]] fresh_lookup_None [OF d(2), of "[97]"] by auto
  then show ?thesis by blast
qed

section \<open>Where creating fails\<close>

text \<open>
  C38. A full directory block hangs the file system: when the block at the index that \<open>updateDir\<close> starts with has no
  free entry, \<open>sfs_create\<close> in that directory never returns, since the index is not advanced,
  although later pointers of the directory may be unused. The index variable holds any of the values 0 to 43.
\<close>

theorem create_in_full_directory:
  assumes "disk_ok d" "c = content d" "fs_inv c" "path = dir @ SLASH # name"
    and "SLASH \<notin> set name" "length path < 255" "length name < MAX_FNAME" "0 \<notin> set name"
    and "\<forall>n\<in>set (path_names dir). length n < MAX_FNAME" "resolve c dir = (0, p, i)"
    and "q < NUM_DIRECT_POINTERS" "first_free_inode c \<noteq> None" "ptr_of c i q \<noteq> 0" "free_entry c (ptr_of c i q) = None"
  shows "diverges (sfs_create d e junk (int q) out path mode fi)"
proof -
  obtain n where n: "first_free_inode c = Some n" using assms(12) by blast
  note t = resolve_taken [OF assms(3,10)] and nn = first_free_inodeD [OF n]
  have n0: "n \<noteq> 0" using nn(2) fs_invD(2) [OF assms(3)] by metis
  have "i \<noteq> n" using t nn by auto
  then have p: "ptr_of (take_inode e FILE n c) i q = ptr_of c i q"
    using take_inode_views(3) [OF nn(1) t(3), of "F_directp q"] assms(11) by (simp add: ptr_of_def)
  have "1089 \<le> ptr_of c i q"
    using inode_wfD [OF fs_invD(4) [OF assms(3) t(3,4)] assms(11,13)] by (simp add: block_wf_def is_data_def)
  then have "free_entry (take_inode e FILE n c) (ptr_of c i q) = free_entry c (ptr_of c i q)"
    unfolding free_entry_def by (simp only: take_inode_views(5) [OF nn(1)])
  then have "place (take_inode e FILE n c) i q p = None" using p assms(13,14) by (simp add: place_def)
  then show ?thesis
    using add_entry_spec [OF assms(1-11) n n0 refl, of e FILE junk out] p assms(13) by (simp add: sfs_create_def)
qed

lemma fill_root:
  "n < 16 \<Longrightarrow> \<exists>d. disk_ok d \<and> fs_inv (content d) \<and> ptr_of (content d) 0 0 = 1089 \<and> \<not> taken (content d) 1 \<and>
     (\<forall>k\<le>n. slot (content d) 1089 k = 0)"
proof (induction n)
  case 0
  obtain d where "disk_ok d" "fresh_fs (content d)" using fresh_disk_ex by blast
  then show ?case using fresh_fs_inv by (intro exI [of _ d]) (simp add: fresh_fs_def)
next
  case (Suc n)
  then obtain d where d: "disk_ok d" "fs_inv (content d)" "ptr_of (content d) 0 0 = 1089" "\<not> taken (content d) 1"
    "\<forall>k\<le>n. slot (content d) 1089 k = 0" by auto
  have b: "is_data 1089" by (simp add: is_data_def)
  obtain d' where d': "disk_ok d'" "content d' = write_entry 1089 (Suc n) 0 [97] (content d)"
    using write_entry_block [OF d(1) b Suc.prems, of "[97]" "\<lambda>_. 0" 0] by auto
  note V = write_entry_views [OF b Suc.prems, of "[97]" 0, where c = "content d"]
  have "fs_inv (content d')"
    unfolding d'(2) by (rule write_entry_inv [OF d(2) b Suc.prems]) (use fs_invD(2) [OF d(2)] in simp_all)
  moreover have "ptr_of (content d') 0 0 = 1089" using V(3) [of 0 "F_directp 0"] d(3) by (simp add: d'(2) ptr_of_def)
  moreover have "\<not> taken (content d') 1" using V(1) [of 1] d(4) by (simp add: d'(2))
  moreover have "slot (content d') 1089 k = 0" if "k \<le> Suc n" for k
    using V(5) [of k 1089] d(5) Suc.prems that by (auto simp: d'(2) le_Suc_eq)
  ultimately show ?case using d'(1) by blast
qed

theorem create_in_full_directory_witness:
  "\<exists>d out fi. diverges (sfs_create d \<lparr>euid = 0, egid = 0, now_s = 0\<rparr> (\<lambda>_ _. 9) 0 out [47, 98] 384 fi)"
proof -
  obtain d where d: "disk_ok d" "fs_inv (content d)" "ptr_of (content d) 0 0 = 1089" "\<not> taken (content d) 1"
    "\<forall>k\<le>15. slot (content d) 1089 k = 0" using fill_root [of 15] by auto
  let ?out = "(inode_at (content d) 0, inode_at (content d) 0)"
  have "first_free_inode (content d) = Some 1"
    unfolding first_free_inode_def using fs_invD(2) [OF d(2)] d(4) by (intro find_second) (simp_all add: taken_def)
  moreover have "free_entry (content d) 1089 = None"
    unfolding free_entry_def find_None_iff set_upt using d(5) by auto
  moreover have "resolve (content d) [] = (0, 0, 0)" "path_names [] = []" by (simp_all add: resolve_def path_names_def)
  ultimately have "diverges (sfs_create d \<lparr>euid = 0, egid = 0, now_s = 0\<rparr> (\<lambda>_ _. 9) 0 ?out [47, 98] 384 fi)"
    using create_in_full_directory [OF d(1) refl d(2), of "[47, 98]" "[]" "[98]" 0 0 0] d(3) by simp
  then show ?thesis by blast
qed

text \<open>
  C39. A name of 24 or more bytes overruns a buffer on the stack: \<open>sfs_create\<close> and \<open>sfs_mkdir\<close> copy the last name of
  the path into an array of 24 bytes without a check, as soon as the directory is found and
  an inode is free. Looking up a path with such a name overruns the same kind of array.
\<close>

theorem long_name_overruns:
  assumes "disk_ok d" "fs_inv (content d)" "path = dir @ SLASH # name" "SLASH \<notin> set name" "length path < 255"
    and "length name \<ge> MAX_FNAME" "\<forall>n\<in>set (path_names dir). length n < MAX_FNAME"
    and "resolve (content d) dir = (0, p, i)" "first_free_inode (content d) \<noteq> None"
  shows "sfs_create d e junk i0 out path mode fi = fail OutOfBounds \<and> sfs_mkdir d e junk i0 out path mode = fail OutOfBounds \<and>
    sfs_getattr d junk out (SLASH # name) = fail OutOfBounds"
proof -
  obtain n where n: "first_free_inode (content d) = Some n" using assms(9) by blast
  have n0: "n \<noteq> 0" using first_free_inodeD(2) [OF n] fs_invD(2) [OF assms(2)] by metis
  have len: "length (path_names dir) \<le> 10000"
    using comps_length [of "drop 1 dir"] assms(3,5) by (auto simp: path_names_def)
  have add: "add_entry type d e junk i0 out path = fail OutOfBounds" for type
  proof -
    obtain d1 where d1: "reserveFreeInode d e junk type = (d1, n)"
      using reserveFreeInode_spec [OF assms(1) fs_invD(1) [OF assms(2)], of e junk type] n
      by (auto simp: first_free_inode_def)
    show ?thesis
      unfolding add_entry_body [OF assms(3-5)] navPath_spec [OF assms(1,2,7) len] using assms(6,8) n0 d1 by simp
  qed
  have "sfs_getattr d junk out (SLASH # name) = fail OutOfBounds"
  proof -
    have ne: "name \<noteq> []" using assms(6) by auto
    show ?thesis
      using navPath_long [of "SLASH # name" d junk out] resolve_single(2) [OF assms(4) ne] assms(6) by (simp add: sfs_getattr_def)
  qed
  then show ?thesis using add by (simp add: sfs_create_def sfs_mkdir_def)
qed

theorem long_name_overruns_witness:
  "\<exists>d out fi. sfs_create d \<lparr>euid = 0, egid = 0, now_s = 0\<rparr> (\<lambda>_ _. 9) 0 out (47 # replicate 24 97) 384 fi = fail OutOfBounds"
proof -
  obtain d where d: "disk_ok d" "fresh_fs (content d)" using fresh_disk_ex by blast
  let ?out = "(inode_at (content d) 0, inode_at (content d) 0)"
  have "resolve (content d) [] = (0, 0, 0)" "path_names [] = []" by (simp_all add: resolve_def path_names_def)
  then have "sfs_create d \<lparr>euid = 0, egid = 0, now_s = 0\<rparr> (\<lambda>_ _. 9) 0 ?out (47 # replicate 24 97) 384 fi = fail OutOfBounds"
    using long_name_overruns [OF d(1) fresh_fs_inv [OF d(2)], of "47 # replicate 24 97" "[]" "replicate 24 97" 0 0]
      fresh_first_free [OF d(2)] by simp
  then show ?thesis by blast
qed

section \<open>Lookups end\<close>

text \<open>
  C36. How a lookup ends, on any disk, damaged ones included, with directories that contain each other, pointers to anywhere and I/O
  errors, and whatever the stack holds. The loop of \<open>navPath\<close> has no bound but the counter, and it always ends: if one of the
  first 10000 names of the path has \<open>MAX_FNAME\<close> or more bytes, \<open>navPath\<close>, \<open>sfs_getattr\<close>, \<open>sfs_opendir\<close> and
  \<open>sfs_readdir\<close> overrun the array for a name; otherwise \<open>navPath\<close> returns, with -1 if the path has more than 10000
  names, and \<open>sfs_getattr\<close> and \<open>sfs_opendir\<close> return what it finds or the error.
\<close>

theorem lookups_end:
  "if \<exists>n\<in>set (take 10000 (path_names path)). MAX_FNAME \<le> length n
   then navPath d junk out path = fail OutOfBounds \<and> sfs_getattr d junk out path = fail OutOfBounds \<and>
     sfs_opendir d junk out path = fail OutOfBounds \<and> sfs_readdir d junk out path filler buf = fail OutOfBounds
   else \<exists>r par targ. navPath d junk out path = retn (r, par, targ) \<and> (r = 0 \<or> r = - 1) \<and>
     (10000 < length (path_names path) \<longrightarrow> r = - 1) \<and>
     sfs_getattr d junk out path =
       retn (if r = 0 then (0, Some \<lparr>stat_ino = st_ino targ, stat_mode = st_mode targ, stat_nlink = 1, stat_size = 512\<rparr>)
         else (- ENOENT, None)) \<and>
     sfs_opendir d junk out path = retn r"
proof (cases "\<exists>n\<in>set (take 10000 (path_names path)). MAX_FNAME \<le> length n")
  case True
  then have "navPath d junk out path = fail OutOfBounds" using navPath_result(1) by blast
  then show ?thesis using True by (simp add: sfs_getattr_def sfs_opendir_def sfs_readdir_def)
next
  case False
  then obtain r par targ where "navPath d junk out path = retn (r, par, targ)" "r = 0 \<or> r = - 1"
    "10000 < length (path_names path) \<longrightarrow> r = - 1"
    using navPath_result(2) [of path d junk out] by auto
  then show ?thesis unfolding if_not_P [OF False] by (auto simp: sfs_getattr_def sfs_opendir_def)
qed

lemma path_names_repeat: "path_names (concat (replicate (Suc n) [47, 97])) = replicate (Suc n) [97]"
proof -
  have "comps (97 # concat (replicate n [47, 97])) = replicate (Suc n) [97]"
  proof (induction n)
    case 0
    show ?case by (subst comps.simps) simp
  next
    case (Suc n)
    then show ?case by (subst comps.simps) (simp add: Let_def)
  qed
  then show ?thesis by (simp add: path_names_def)
qed

theorem lookups_end_witness:
  "\<exists>out p. p = concat (replicate 10001 [47, 97]) \<and> sfs_opendir new_disk (\<lambda>_ _. 9) out p = retn (- 1) \<and>
     sfs_getattr new_disk (\<lambda>_ _. 9) out p = retn (- ENOENT, None) \<and>
     sfs_getattr new_disk (\<lambda>_ _. 9) out (47 # replicate 24 97) = fail OutOfBounds"
proof -
  fix out
  define n :: nat where "n = 10000"
  define p :: cstring where "p = concat (replicate (Suc n) [47, 97])"
  have names: "path_names p = replicate (Suc n) [97]" unfolding p_def by (rule path_names_repeat)
  have len: "10000 < length (path_names p)" by (simp only: names length_replicate n_def)
  have fit: "\<not> (\<exists>m\<in>set (take 10000 (path_names p)). MAX_FNAME \<le> length m)"
    using set_take_subset [of 10000 "path_names p"] unfolding names set_replicate_Suc by auto
  have a: "sfs_getattr new_disk (\<lambda>_ _. 9) out p = retn (- ENOENT, None) \<and> sfs_opendir new_disk (\<lambda>_ _. 9) out p = retn (- 1)"
    using lookups_end [of p new_disk "\<lambda>_ _. 9" out] len unfolding if_not_P [OF fit] by auto
  have "path_names (47 # replicate 24 97) = [replicate 24 97]" by (rule resolve_single(2)) simp_all
  then have long: "\<exists>m\<in>set (take 10000 (path_names (47 # replicate 24 97))). MAX_FNAME \<le> length m" by simp
  have "sfs_getattr new_disk (\<lambda>_ _. 9) out (47 # replicate 24 97) = fail OutOfBounds"
    using lookups_end [of "47 # replicate 24 97" new_disk "\<lambda>_ _. 9" out "\<lambda>b _. (b, 0)" "[]"] unfolding if_P [OF long] by blast
  moreover have "p = concat (replicate 10001 [47, 97])"
    unfolding p_def n_def by (rule arg_cong [where f = "\<lambda>k. concat (replicate k [47, 97])"]) simp
  ultimately show ?thesis using a by blast
qed

end
