(* ===== verification/FS_Main.thy ===== *)
theory FS_Main
  imports FS_Log FS_Theorems
begin

text \<open>
  The frame of the file system program: the table of operations \<open>sfs_oper\<close> that sfs.c hands to the FUSE library, \<open>main\<close>, and
  the start of the log. The library itself is not part of the sources: \<open>fuse_main\<close> and what the library answers for an operation that
  is not in the table are arguments.
\<close>

section \<open>The table of operations\<close>

text \<open>The members of \<open>struct fuse_operations\<close>.\<close>

datatype fuse_op =
    Op_getattr | Op_readlink | Op_getdir | Op_mknod | Op_mkdir | Op_unlink | Op_rmdir | Op_symlink | Op_rename | Op_link
  | Op_chmod | Op_chown | Op_truncate | Op_utime | Op_open | Op_read | Op_write | Op_statfs | Op_flush | Op_release
  | Op_fsync | Op_setxattr | Op_getxattr | Op_listxattr | Op_removexattr | Op_opendir | Op_readdir | Op_releasedir
  | Op_fsyncdir | Op_init | Op_destroy | Op_access | Op_create | Op_ftruncate | Op_fgetattr | Op_lock | Op_utimens
  | Op_bmap | Op_ioctl | Op_poll | Op_write_buf | Op_read_buf | Op_flock

text \<open>
  The arguments of a call, as far as an operation uses them: the path, the mode and the file information given to \<open>create\<close> and
  \<open>mkdir\<close>, the host's answers, what the stack holds (\<open>ar_junk\<close>,
  \<open>ar_index\<close>, \<open>ar_out\<close>), the result of \<open>open\<close> on the disk file, buffer, size and offset, and the filler of \<open>readdir\<close>.
\<close>

record fuse_args =
  ar_path :: cstring
  ar_mode :: nat
  ar_fi :: addr
  ar_env :: fsenv
  ar_junk :: junk
  ar_index :: int
  ar_out :: "inode \<times> inode"
  ar_fd :: int
  ar_buf :: memory
  ar_size :: nat
  ar_offset :: int
  ar_filler :: "cstring list \<Rightarrow> cstring \<Rightarrow> cstring list \<times> int"

datatype reply = Void | Code int | Attr int "stat option" | Data memory int | Names "cstring list" int

type_synonym handler_fun = "fuse_args \<Rightarrow> disk \<Rightarrow> (disk \<times> reply) ret"

definition sfs_oper :: "fuse_op \<Rightarrow> handler_fun option" where
  "sfs_oper op =
     (case op of
        Op_init \<Rightarrow> Some (\<lambda>a d. bindR (sfs_init d (ar_env a) (ar_junk a) (ar_fd a)) (\<lambda>d'. retn (d', Void)))
      | Op_destroy \<Rightarrow> Some (\<lambda>a d. retn (sfs_destroy d, Void))
      | Op_getattr \<Rightarrow> Some (\<lambda>a d. bindR (sfs_getattr d (ar_junk a) (ar_out a) (ar_path a)) (\<lambda>(r, st). retn (d, Attr r st)))
      | Op_create \<Rightarrow> Some (\<lambda>a d. bindR (sfs_create d (ar_env a) (ar_junk a) (ar_index a) (ar_out a) (ar_path a) (ar_mode a) (ar_fi a))
          (\<lambda>(d', r). retn (d', Code r)))
      | Op_unlink \<Rightarrow> Some (\<lambda>a d. case sfs_unlink d (ar_path a) of (d', r) \<Rightarrow> retn (d', Code r))
      | Op_open \<Rightarrow> Some (\<lambda>a d. case sfs_open d (ar_path a) of (d', r) \<Rightarrow> retn (d', Code r))
      | Op_release \<Rightarrow> Some (\<lambda>a d. case sfs_release d (ar_path a) of (d', r) \<Rightarrow> retn (d', Code r))
      | Op_read \<Rightarrow> Some (\<lambda>a d. case sfs_read d (ar_path a) (ar_buf a) (ar_size a) (ar_offset a) of (d', b, r) \<Rightarrow> retn (d', Data b r))
      | Op_write \<Rightarrow> Some (\<lambda>a d. case sfs_write d (ar_path a) (ar_buf a) (ar_size a) (ar_offset a) of (d', r) \<Rightarrow> retn (d', Code r))
      | Op_rmdir \<Rightarrow> Some (\<lambda>a d. case sfs_rmdir d (ar_path a) of (d', r) \<Rightarrow> retn (d', Code r))
      | Op_mkdir \<Rightarrow> Some (\<lambda>a d. bindR (sfs_mkdir d (ar_env a) (ar_junk a) (ar_index a) (ar_out a) (ar_path a) (ar_mode a))
          (\<lambda>(d', r). retn (d', Code r)))
      | Op_opendir \<Rightarrow> Some (\<lambda>a d. bindR (sfs_opendir d (ar_junk a) (ar_out a) (ar_path a)) (\<lambda>r. retn (d, Code r)))
      | Op_readdir \<Rightarrow> Some (\<lambda>a d. bindR (sfs_readdir d (ar_junk a) (ar_out a) (ar_path a) (ar_filler a) [])
          (\<lambda>(b, r). retn (d, Names b r)))
      | Op_releasedir \<Rightarrow> Some (\<lambda>a d. case sfs_releasedir d (ar_path a) of (d', r) \<Rightarrow> retn (d', Code r))
      | _ \<Rightarrow> None)"

section \<open>Starting the program\<close>

definition sfs_usage :: "'a ret" where
  "sfs_usage = fail Abort"

definition first_char :: "string \<Rightarrow> char" where
  "first_char s = (case s of [] \<Rightarrow> CHR 0x00 | c # _ \<Rightarrow> c)"

text \<open>
  \<open>main\<close>, with the results of \<open>malloc\<close> and \<open>fopen\<close> and the library function \<open>fuse_main\<close>. The elements of \<open>argv\<close> are strings, and
  \<open>None\<close> is the \<open>NULL\<close> that \<open>main\<close> writes behind the last one.
\<close>

definition main :: "(nat \<Rightarrow> string option list \<Rightarrow> (fuse_op \<Rightarrow> handler_fun option) \<Rightarrow> sfs_state \<Rightarrow> int ret) \<Rightarrow>
    nat \<Rightarrow> nat \<Rightarrow> string list \<Rightarrow> int ret" where
  "main fuse_main malloc_result fopen_result argv =
     (let argc = length argv in
      if argc < 3 \<or> first_char (argv ! (argc - 2)) = CHR ''-'' \<or> first_char (argv ! (argc - 1)) = CHR ''-'' then sfs_usage
      else if malloc_result = 0 then fail Abort
      else
        let disk = argv ! (argc - 2);
            argv1 = (map Some argv)[argc - 2 := Some (argv ! (argc - 1))];
            argv2 = argv1[argc - 1 := None]
        in bindR (log_open fopen_result) (\<lambda>lf.
             fuse_main (argc - 1) argv2 sfs_oper \<lparr>sd_logfile = lf, sd_diskfile = disk\<rparr>))"

text \<open>
  \<open>main\<close> takes the disk file out of the command line. Called as \<open>prog opts disk mnt\<close>, it hands the library the arguments
  \<open>prog opts mnt\<close>, ended by \<open>NULL\<close> and with a count one less, the table of operations, and the name of the disk file with the
  open log. A disk file or mount point that looks like an option and a failed allocation abort, a log file that cannot be opened exits
  with 1, and with fewer than two arguments besides the program name it aborts without reading any of them.
\<close>

theorem main_takes_disk:
  "main fm mp fp (prog # opts @ [disk, mnt]) =
     (if first_char disk = CHR ''-'' \<or> first_char mnt = CHR ''-'' \<or> mp = 0 then fail Abort
      else if fp = 0 then fail (ExitCall 1)
      else fm (Suc (Suc (length opts))) (map Some (prog # opts @ [mnt]) @ [None]) sfs_oper \<lparr>sd_logfile = fp, sd_diskfile = disk\<rparr>) \<and>
   main fm mp fp [] = fail Abort \<and> main fm mp fp [a] = fail Abort \<and> main fm mp fp [a, b] = fail Abort"
proof -
  have "(prog # opts @ [disk, mnt]) ! (length opts + 1) = disk" "(prog # opts @ [disk, mnt]) ! (length opts + 2) = mnt"
    by (simp_all add: nth_append)
  moreover have "(map Some (prog # opts @ [disk, mnt]))[length opts + 1 := Some mnt, length opts + 2 := None] =
      map Some (prog # opts @ [mnt]) @ [None]"
    by (simp add: list_update_append)
  ultimately show ?thesis
    by (simp add: main_def Let_def sfs_usage_def log_open_def)
qed

text \<open>The start of the log that \<open>sfs_init\<close> writes. The sizes are of type \<open>size_t\<close>.\<close>

definition sfs_init_log :: "fuse_conn_info \<Rightarrow> fuse_context \<Rightarrow> sfs_state \<Rightarrow> string ret" where
  "sfs_init_log conn ctx sd = outputs
     [log_msg ''\<newline>sfs_init()\<newline>'' [],
      log_msg ''\<newline>Size of inode currently: %d\<newline>'' [Num W64 256],
      log_msg ''\<newline>Size of int: %d. Size of void pointer: %d. Size of mydir: %d.\<newline>'' [Num W64 4, Num W64 8, Num W64 512],
      log_conn conn,
      log_fuse_context ctx sd]"

section \<open>Sessions\<close>

text \<open>
  The library calls the operations one after the other. For a member that is not set it answers by itself (\<open>unset\<close>) and the disk
  is not touched.
\<close>

definition serve :: "(fuse_op \<Rightarrow> fuse_args \<Rightarrow> reply) \<Rightarrow> fuse_op \<Rightarrow> fuse_args \<Rightarrow> disk \<Rightarrow> (disk \<times> reply) ret" where
  "serve unset op a d = (case sfs_oper op of None \<Rightarrow> retn (d, unset op a) | Some h \<Rightarrow> h a d)"

fun serve_all :: "(fuse_op \<Rightarrow> fuse_args \<Rightarrow> reply) \<Rightarrow> (fuse_op \<times> fuse_args) list \<Rightarrow> disk \<Rightarrow> (disk \<times> reply list) ret" where
  "serve_all unset [] d = retn (d, [])"
| "serve_all unset ((op, a) # rs) d =
     bindR (serve unset op a d) (\<lambda>(d1, r). bindR (serve_all unset rs d1) (\<lambda>(d2, xs). retn (d2, r # xs)))"

text \<open>The replies that belong to an operation.\<close>

definition reply_ok :: "fuse_op \<Rightarrow> reply \<Rightarrow> bool" where
  "reply_ok op r =
     (case op of
        Op_init \<Rightarrow> r = Void
      | Op_destroy \<Rightarrow> r = Void
      | Op_getattr \<Rightarrow> r = Attr (- ENOENT) None \<or> (\<exists>st. r = Attr 0 (Some st) \<and> stat_nlink st = 1 \<and> stat_size st = 512)
      | Op_create \<Rightarrow> r = Code 0 \<or> r = Code (- 1)
      | Op_mkdir \<Rightarrow> r = Code 0 \<or> r = Code (- 1)
      | Op_opendir \<Rightarrow> r = Code 0 \<or> r = Code (- 1)
      | Op_read \<Rightarrow> (\<exists>b. r = Data b 0)
      | Op_readdir \<Rightarrow> (\<exists>ns. r = Names ns 0) \<or> r = Names [] (- 1)
      | _ \<Rightarrow> r = Code 0)"

lemma add_entry_code:
  assumes "add_entry type d e junk i0 out path = retn (d', r)"
  shows "r = 0 \<or> r = - 1"
  using assms by (auto simp: add_entry_def Let_def case_prod_beta bindR_eq_retn split: if_splits)

lemma sfs_getattr_reply:
  assumes "sfs_getattr d junk out path = retn (r, st)"
  shows "reply_ok Op_getattr (Attr r st)"
  using assms by (auto simp: sfs_getattr_def bindR_eq_retn reply_ok_def split: if_splits)

lemma sfs_readdir_reply:
  assumes "sfs_readdir d junk out path filler [] = retn (b, r)"
  shows "reply_ok Op_readdir (Names b r)"
  using assms by (auto simp: sfs_readdir_def bindR_eq_retn reply_ok_def split: if_splits)

lemma serve_step:
  assumes d: "fs_reach d" and path: "0 \<notin> set (ar_path a)" and op: "op \<noteq> Op_init" and r: "serve unset op a d = retn (d', r)"
  shows "fs_reach d'" and "sfs_oper op \<noteq> None \<Longrightarrow> reply_ok op r"
proof -
  note defs = serve_def sfs_oper_def bindR_eq_retn case_prod_beta
  note simple = sfs_destroy_def sfs_unlink_def sfs_open_def sfs_release_def sfs_read_def sfs_write_def sfs_rmdir_def sfs_releasedir_def
  have "fs_reach d' \<and> (sfs_oper op \<noteq> None \<longrightarrow> reply_ok op r)"
  proof (cases "op \<in> {Op_create, Op_mkdir, Op_getattr, Op_readdir, Op_opendir}")
    case True
    then consider "op = Op_create" | "op = Op_mkdir" | "op = Op_getattr" | "op = Op_readdir" | "op = Op_opendir" by blast
    then show ?thesis
    proof cases
      case 1
      then obtain c where c: "sfs_create d (ar_env a) (ar_junk a) (ar_index a) (ar_out a) (ar_path a) (ar_mode a) (ar_fi a) = retn (d', c)" "r = Code c"
        using r by (auto simp: defs)
      then show ?thesis
        using fs_reach.Create [OF d path c(1)] add_entry_code [of FILE d _ _ _ _ _ d' c] 1 by (auto simp: sfs_create_def reply_ok_def)
    next
      case 2
      then obtain c where c: "sfs_mkdir d (ar_env a) (ar_junk a) (ar_index a) (ar_out a) (ar_path a) (ar_mode a) = retn (d', c)" "r = Code c"
        using r by (auto simp: defs)
      then show ?thesis
        using fs_reach.Mkdir [OF d path c(1)] add_entry_code [of DIRECTORY d _ _ _ _ _ d' c] 2 by (auto simp: sfs_mkdir_def reply_ok_def)
    next
      case 3
      then show ?thesis using r d by (auto simp: defs intro: sfs_getattr_reply)
    next
      case 4
      then show ?thesis using r d by (auto simp: defs intro: sfs_readdir_reply)
    next
      case 5
      then show ?thesis using r d by (auto simp: defs sfs_opendir_def reply_ok_def split: if_splits)
    qed
  next
    case False
    then show ?thesis using r d op by (cases op) (auto simp: defs simple reply_ok_def)
  qed
  then show "fs_reach d'" "sfs_oper op \<noteq> None \<Longrightarrow> reply_ok op r" by blast+
qed

lemma serve_all_steps:
  assumes "fs_reach d" "\<forall>(op, a)\<in>set rs. op \<noteq> Op_init \<and> 0 \<notin> set (ar_path a)" "serve_all unset rs d = retn (d', xs)"
  shows "fs_reach d' \<and> list_all2 (\<lambda>(op, a) r. sfs_oper op = None \<or> reply_ok op r) rs xs"
  using assms
proof (induction rs arbitrary: d xs)
  case (Cons q rs)
  obtain op a where q: "q = (op, a)" by (cases q)
  from Cons.prems(3) obtain d1 r ys where s: "serve unset op a d = retn (d1, r)" "serve_all unset rs d1 = retn (d', ys)" "xs = r # ys"
    by (auto simp: q bindR_eq_retn)
  have "op \<noteq> Op_init" "0 \<notin> set (ar_path a)" using Cons.prems(2) q by auto
  note step = serve_step [OF Cons.prems(1) this(2,1) s(1)]
  have "sfs_oper op = None \<or> reply_ok op r" using step(2) by blast
  then show ?case using Cons.IH [OF step(1) _ s(2)] Cons.prems(2) s(3) q by auto
qed simp

text \<open>
  C5. A session keeps the file system well formed. The library first calls \<open>init\<close> on a disk file that is new or holds something else,
  then any sequence of operations with any arguments. If all calls return, the disk is a well-formed file system at the end, and every
  operation in the table has answered with a reply of its kind: \<open>getattr\<close> gives attributes with code 0 or none with \<open>-ENOENT\<close>,
  \<open>create\<close>, \<open>mkdir\<close> and \<open>opendir\<close> give 0 or -1, \<open>readdir\<close> gives names with code 0 or -1 and none, all others 0.
\<close>

theorem session_wf:
  assumes "disk_open d0 (ar_fd a0) = retn d" "disk_ok d" "dlen d = 0 \<or> sb_get (content d) Magicnum \<noteq> MAGIC"
    and "\<forall>(op, a)\<in>set rs. op \<noteq> Op_init \<and> 0 \<notin> set (ar_path a)"
    and run: "serve_all unset ((Op_init, a0) # rs) d0 = retn (d', xs)"
  shows "disk_ok d' \<and> fs_inv (content d') \<and>
    list_all2 (\<lambda>(op, a) r. sfs_oper op = None \<or> reply_ok op r) ((Op_init, a0) # rs) xs"
proof -
  obtain d1 ys where d1: "sfs_init d0 (ar_env a0) (ar_junk a0) (ar_fd a0) = retn d1" "serve_all unset rs d1 = retn (d', ys)" "xs = Void # ys"
    using run by (auto simp: serve_def sfs_oper_def bindR_eq_retn)
  have "fs_reach d1" by (rule fs_reach.Init [OF assms(1-3) d1(1)])
  from serve_all_steps [OF this assms(4) d1(2)] show ?thesis
    using fs_reach_inv d1(3) by (auto simp: reply_ok_def)
qed

theorem session_wf_witness:
  "\<exists>e a d' xs. serve_all (\<lambda>_ _. Code (- 38))
      [(Op_init, a\<lparr>ar_fd := 3, ar_env := e\<rparr>), (Op_mkdir, a\<lparr>ar_path := [47, 120], ar_index := 0\<rparr>), (Op_mkdir, a\<lparr>ar_path := [120]\<rparr>),
       (Op_write, a\<lparr>ar_path := [47, 120]\<rparr>), (Op_chmod, a\<lparr>ar_path := [47]\<rparr>)]
      new_disk = retn (d', xs) \<and> xs = [Void, Code 0, Code (- 1), Code 0, Code (- 38)] \<and> disk_ok d' \<and> fs_inv (content d')"
proof -
  have o: "disk_open new_disk 3 = retn new_disk" "disk_ok new_disk" "dlen new_disk = 0"
    by (simp_all add: disk_open_def disk_ok_def new_disk_def)
  fix a :: fuse_args
  let ?e = "\<lparr>euid = 0, egid = 0, now_s = 0\<rparr>"
  let ?a0 = "a\<lparr>ar_fd := 3, ar_env := ?e\<rparr>"
  let ?rs = "[(Op_mkdir, a\<lparr>ar_path := [47, 120], ar_index := 0\<rparr>), (Op_mkdir, a\<lparr>ar_path := [120]\<rparr>),
    (Op_write, a\<lparr>ar_path := [47, 120]\<rparr>), (Op_chmod, a\<lparr>ar_path := [47]\<rparr>)]"
  obtain d1 where d1: "sfs_init new_disk ?e (ar_junk a) 3 = retn d1" "disk_ok d1" "fresh_fs (content d1)"
    using sfs_init_fresh [OF o(1,2), of ?e "ar_junk a"] o(3) by blast
  obtain d2 where d2: "sfs_mkdir d1 (ar_env a) (ar_junk a) 0 (ar_out a) [47, 120] (ar_mode a) = retn (d2, 0)"
    using fresh_mkdir [OF d1(2,3), of "[120]" "ar_env a" "ar_junk a" "ar_out a" "ar_mode a"] by auto
  have none: "sfs_mkdir d2 (ar_env a) (ar_junk a) (ar_index a) (ar_out a) [120] (ar_mode a) = retn (d2, - 1)"
    by (simp add: sfs_mkdir_def add_entry_def)
  have run: "serve_all (\<lambda>_ _. Code (- 38)) ((Op_init, ?a0) # ?rs) new_disk =
      retn (d2, [Void, Code 0, Code (- 1), Code 0, Code (- 38)])"
    using d1(1) d2 none by (simp add: serve_def sfs_oper_def sfs_write_def)
  have "\<forall>(op, a)\<in>set ?rs. op \<noteq> Op_init \<and> 0 \<notin> set (ar_path a)" by simp
  from session_wf [OF _ o(2) _ this run] have "disk_ok d2 \<and> fs_inv (content d2)" using o by simp
  then show ?thesis using run by blast
qed

end
