(* ===== verification/Spec2Isabelle.thy ===== *)
theory Spec2Isabelle
  imports Boot Swap_Out Memory_Dump Mutex FS_Main
begin

text \<open>
  A verification development for OSDesign: a memory manager with paging (src/vm.c), a preemptive user-level thread
  library on top of it (src/my_pthread.c, src/LinkedList.c), and a file system for FUSE (src/filesystem/src).

  \<^bold>\<open>How the parts interact.\<close> The memory manager owns one block of 8000000 bytes: a table with one
  \<open>SpaceNode\<close> per page frame at its start, a region for the objects of the thread library from byte 1000000, the
  frames of the threads from byte 2097152, and four shared pages at the end. Inside a region, spaces are a linked list of
  headers in front of their payload. Every thread sees its own pages at the same addresses: the scheduler protects the pages
  of the thread that loses the processor, the next access faults, and the handler moves the pages of the running thread to
  the front with \<open>loadProcessPages\<close>. The thread library keeps its queues in malloc'ed lists and calls the memory manager
  for every object. The file system is a program of its own; it shares no state with the other two.

  \<^bold>\<open>Foundations.\<close>
  \<^item> \<open>Prelude\<close>: the outcome type \<open>'a ret\<close> of C code, with \<open>Some (Inr x)\<close> for a return, \<open>Some (Inl f)\<close> for a fault
    (\<open>NULL\<close> dereference, write outside an array, exit, abort, access to protected memory, a format that does not fit) and \<open>None\<close> for a call that does not return; C integer conversions; the
    pointer loop \<open>search\<close> and chains.
  \<^item> \<open>Byte_Memory\<close>: bytes, little-endian reads and writes, \<open>memcpy\<close>, \<open>memset\<close>, and the locale \<open>struct_layout\<close> that gives
    read-over-write laws for structs laid over bytes. It is interpreted for \<open>SpaceNode\<close>, the superblock and the inode.
  \<^item> \<open>C_Format\<close>: \<open>vfprintf\<close> for the conversions that the sources use, and \<open>format_fits\<close>, whether the arguments have the types
    that the conversions ask for. The locale \<open>positional\<close> gives digits and reading them
    back for a base; it is interpreted for decimal, octal and hexadecimal.

  \<^bold>\<open>Memory manager, vm.c.\<close> The globals are the record \<open>vm\<close>, the address space its field \<open>bytes\<close>.
  \<^item> \<open>Space_Node\<close> (model), \<open>Space_List\<close>, \<open>Space_Alloc\<close>: \<open>findFreeSpace\<close>, \<open>initializeSpace\<close>, \<open>createSpace\<close>,
    \<open>removeSpace\<close>, \<open>getFreeElementFrom\<close>. They refine first fit and \<open>release\<close> on lists of blocks; allocations from a fresh
    region are disjoint. The sizes that splitting and joining write are wrong, and a run shows two live blocks that overlap. They
    also leave \<open>prev\<close> pointers behind that name an earlier block than the one in front; what \<open>removeSpace\<close> does then is part of its
    theorem.
  \<^item> \<open>Page_Table\<close>, \<open>Page_Swap\<close>, \<open>Page_Moves\<close>, \<open>Page_Load\<close>: the page searches, \<open>swapPages\<close>, \<open>makeContiguous\<close>,
    \<open>getFreePage\<close>, \<open>loadProcessPages\<close> (the last two modelled in \<open>Swap_File\<close> and \<open>Paging\<close>). Exchanging pages keeps the table
    and moves whole pages; loading refines a routine on page labels, which is right for two pages and not for three.
  \<^item> \<open>Table_Init\<close>, \<open>VM_Api\<close>, \<open>VM_Start\<close>: \<open>init\<close>, \<open>initializeFreePages\<close>, \<open>handler\<close>, \<open>myallocate\<close>, \<open>mydeallocate\<close>,
    \<open>shalloc\<close>, the memory side of \<open>initOS\<close>. \<open>init\<close> establishes the table that the page theorems assume, and its last frame
    reaches into the shared pages.
  \<^item> \<open>Thread_Heap\<close>: \<open>malloc\<close> of a thread, from loading its pages to first fit in its first page.
  \<^item> \<open>Lib_Region\<close>: the region of the thread library as a row of objects and one free space; what an allocation, a write
    to an object and a request for a page do to it.
  \<^item> \<open>Swap_File\<close>: \<open>getSwap\<close>, \<open>writeSwap\<close>, \<open>fixSwapPtrs\<close>, \<open>getVictimPage\<close>, \<open>movePageToSwap\<close>, \<open>findPageInSwap\<close>.
  \<^item> \<open>Swap_Out\<close>: what happens when no page is free. The last page is saved in the swap file and its frame given away; but
    the code that reads the swap file back is switched off with \<open>USE_FIND_IN_SWAP\<close>, so a thread that lost its first page fails at the next load, and a thread that owns all
    pages fails at once.
  \<^item> \<open>Paging\<close>, \<open>Protection\<close>: \<open>getFreeElement\<close>, \<open>reserveAnotherPage\<close>, \<open>joinFreeSpace\<close>, \<open>memoryProtect\<close>, \<open>memoryAllow\<close>,
    \<open>memoryAllowAll\<close>; \<open>memoryProtect\<close> protects exactly the frames of the thread's pages.
  \<^item> \<open>Memory_Dump\<close>: \<open>printMemory\<close>, \<open>printOSMemory\<close>, \<open>printSwapF\<close> and \<open>print\<close> of LinkedList.c, with their output. They
    list what the table and the lists hold.

  \<^bold>\<open>Thread library, LinkedList.c and my_pthread.c.\<close> The state is the record \<open>os\<close>.
  \<^item> \<open>Linked_List\<close>: the list operations over a typed heap. The locale \<open>thread_queues\<close> is what the scheduler relies on (queues
    of threads, popping the front, inserting somewhere); it is interpreted on the list operations.
  \<^item> \<open>Threads\<close>: \<open>scheduler\<close>, \<open>threadExit\<close>, \<open>threadRun\<close>, yield, exit, join, create and the mutex functions. A function that
    switches context is modelled up to the switch, since the code behind it belongs to the next time the thread runs.
  \<^item> \<open>Thread_Spec\<close>, \<open>Thread_Props\<close>, \<open>Thread_Theorems\<close>: an abstract thread system \<open>asys\<close> of queues and thread records, that the
    scheduler refines \<open>ascheduler\<close>, that no thread is lost in any sequence of calls, that a ready thread runs within a bound,
    that exit wakes joiners, and when the priority queues are sorted. When the turn counter passes 150 the queue is reordered by age into a list
    object that is malloc'ed and not initialised: the flag of \<open>absys\<close> and the predicate \<open>turn_ok\<close> say what that object reads as,
    and the cases in which the turn fails or takes in old threads are theorems of their own. A join of an unfinished thread with
    an empty run queue leaves the caller running and waiting at once (\<open>join_alone\<close>); it is not a step of \<open>lib_step\<close>.
  \<^item> \<open>Thread_Create\<close>: \<open>my_pthread_create\<close> over all three parts below it, the region of the library, the page table and the
    run queue.
  \<^item> \<open>Boot\<close>: the start of a program. \<open>initOS\<close> on unused memory, with the places of all its objects, and the first
    \<open>malloc\<close>, which runs \<open>init\<close>, \<open>initOS\<close>, \<open>loadProcessPages\<close> and first fit one after the other.
  \<^item> \<open>Mutex\<close>: threads in the lock function as an interleaving of uninterruptible steps. With an atomic \<open>testAndSet\<close> the lock
    excludes; the code's \<open>testAndSet\<close> is not atomic, and a run has two holders.

  \<^bold>\<open>File system, block.c, sfs.c and log.c.\<close> The disk file is the record \<open>disk\<close>.
  \<^item> \<open>Block_Device\<close>: \<open>disk_open\<close>, \<open>disk_close\<close>, \<open>block_read\<close>, \<open>block_write\<close>, with the host's I/O errors. The locale
    \<open>block_interface\<close> is what the file system relies on of a disk without errors; it is interpreted on these functions.
  \<^item> \<open>FS_Layout\<close>, \<open>Simple_FS\<close> (model): superblock, inodes and directory blocks as bytes; all operations of \<open>sfs_oper\<close> and
    their helpers. Buffers that the code does not initialise are arguments, and the theorems hold for all of their values. The
    loop index that \<open>updateDir\<close> does not initialise is an argument too; the theorems about the place an entry gets are for its
    values 0 to 43, the pointers of an inode, while the invariant is kept for every value with which the call returns.
    \<open>sfs_create\<close> and \<open>sfs_mkdir\<close> take the mode they only log.
  \<^item> \<open>FS_Alloc\<close>, \<open>FS_Inv\<close>, \<open>FS_Dirs\<close>, \<open>FS_Paths\<close>, \<open>FS_Ops\<close>: each operation as an update of the disk content; the invariant
    \<open>fs_inv\<close>; \<open>navPath\<close> as a walk over inode numbers.
  \<^item> \<open>FS_Theorems\<close>: every reachable disk is well formed, files and directories that are created are found and listed, and the
    inputs on which the code fails: missing directories in a path, full directories, long names. How a lookup ends is settled
    for every disk and path.
  \<^item> \<open>FS_Log\<close>: all functions of log.c, with the text they write. The members are listed with their C types, and the members whose format
    is for another type are found exactly: one in \<open>log_stat\<close> and three pointers in \<open>log_fuse_context\<close>. The fields of a \<open>struct stat\<close> can be read back from the log.
  \<^item> \<open>FS_Main\<close>: \<open>main\<close> and the table \<open>sfs_oper\<close>. A session is a sequence of calls through the table; every session that starts
    on a new disk keeps the invariant.

  \<^bold>\<open>Bounds and fuel.\<close> No fuel is used. Loops whose end is visible in the code are total functions: the table loops of \<open>init\<close>
  by the distance to the end of the region, the map loops of sfs.c by the distance to the next region. Loops over
  pointers and the loops of \<open>navPath\<close> and \<open>updateDir\<close> are partial functions with the result \<open>None\<close> for not returning; that they return is proved, from the chains they walk, or refuted. Theorems about \<open>init\<close> hold for page
  sizes from 4096 to 65536; the number of pages is computed from the size. Block numbers are below \<open>2 ^ 22\<close>, where the byte
  offset still fits an \<open>int\<close>; a formatted disk uses blocks up to 31808.

  \<^bold>\<open>What the host is assumed to do.\<close> \<open>posix_memalign\<close>, \<open>sysconf\<close>, \<open>sigaction\<close>, \<open>time\<close>, \<open>geteuid\<close>, \<open>getegid\<close> and the sizes of
  library structs are fields of the records \<open>platform\<close> and \<open>fsenv\<close>; \<open>mprotect\<close> works on whole pages and rejects unaligned
  addresses; \<open>pread\<close> and \<open>pwrite\<close> transfer whole blocks or fail; the FUSE filler of \<open>sfs_readdir\<close> and
  \<open>fuse_main\<close> are function arguments. The \<open>malloc\<close> of LinkedList.c is that of libc: it is taken not to fail and to return the next
  object, with a content that is not specified; addresses below that bound are those in use, the lists that my_pthread.c allocates
  in the region of the library included. Structs have the layout, and arguments of variadic functions the widths, of x86-64 Linux.

  \<^bold>\<open>Not modelled.\<close> Machine contexts and stacks (\<open>makecontext\<close>, \<open>swapcontext\<close>) and signal masks: code between blocking and
  unblocking the timer signal is one step. The calls of \<open>log_msg\<close> inside the operations of sfs.c, except the ones at the start of
  \<open>sfs_init\<close>: they write to the log and to nothing else. The code of the FUSE library behind fuse.h, which is not part of the
  sources. The configuration header, which is generated, and the test programs mytest.c and mytest3.c, which only call the
  library.
\<close>

end
